(* ===== verification/C_Prelude.thy ===== *)
theory C_Prelude
  imports Main "HOL-Library.List_Lexorder" "HOL-Library.Char_ord"
begin

text \<open>
  What the components share: the ways a C function can fail to return (\<open>fault\<close>), the result
  type \<open>'a res\<close> with its sequencing operator, C strings behind \<^verbatim>\<open>char *\<close> (\<open>cstr\<close>) with
  \<^verbatim>\<open>strcmp\<close>, C's truncating remainder, and the outcome of \<^verbatim>\<open>malloc\<close> calls. The interface
  of a key-value engine is stated at the end as two locales, \<open>kv_engine\<close> and its extension
  \<open>kv_engine_del\<close>; the engines of the store interpret them in their own theories.
\<close>

named_theorems res_simps \<open>evaluation of sequenced computations\<close>

section \<open>Results and faults\<close>

text \<open>
  \<open>Segv\<close>: a NULL, dangling or uninitialised pointer is dereferenced. \<open>OutOfBounds\<close>: an array
  is accessed outside its bounds. \<open>AssertFail\<close>: \<^verbatim>\<open>assert(0)\<close>. \<open>NoFuel\<close>: a loop did not end
  within the fuel given to it. \<open>ExitFailure\<close>: the program ends itself, \<^verbatim>\<open>exit(EXIT_FAILURE)\<close>.
\<close>

datatype fault = Segv | OutOfBounds | AssertFail | NoFuel | ExitFailure

type_synonym 'a res = "fault + 'a"

definition andthen :: "'a res \<Rightarrow> ('a \<Rightarrow> 'b res) \<Rightarrow> 'b res" where
  "andthen m f = (case m of Inl e \<Rightarrow> Inl e | Inr x \<Rightarrow> f x)"

lemma andthen_simps [simp, res_simps]:
  "andthen (Inr x) f = f x"
  "andthen (Inl e) f = Inl e"
  by (simp_all add: andthen_def)

lemma andthen_eq_Inr: "andthen m f = Inr y \<longleftrightarrow> (\<exists>x. m = Inr x \<and> f x = Inr y)"
  by (cases m) auto

lemma andthen_assoc: "andthen (andthen m f) g = andthen m (\<lambda>x. andthen (f x) g)"
  by (cases m) auto

lemma andthen_cong [fundef_cong]:
  "m = m' \<Longrightarrow> (\<And>x. m' = Inr x \<Longrightarrow> f x = g x) \<Longrightarrow> andthen m f = andthen m' g"
  by (cases m') auto

section \<open>C strings\<close>

text \<open>
  A \<^verbatim>\<open>char *\<close> is \<open>Null\<close>, \<open>Wild\<close> (uninitialised, or freed) or points to a NUL-terminated
  string. \<^verbatim>\<open>strcmp\<close> compares bytes as \<^verbatim>\<open>unsigned char\<close>, a proper prefix being smaller; its
  callers look at the sign of the result only.
\<close>

datatype cstr = Null | Wild | Str string

fun deref :: "cstr \<Rightarrow> string res" where
  "deref (Str s) = Inr s"
| "deref Null = Inl Segv"
| "deref Wild = Inl Segv"

definition strcmp_sign :: "string \<Rightarrow> string \<Rightarrow> int" where
  "strcmp_sign a b = (if a < b then -1 else if a = b then 0 else 1)"

definition strcmp :: "cstr \<Rightarrow> cstr \<Rightarrow> int res" where
  "strcmp a b = andthen (deref a) (\<lambda>x. andthen (deref b) (\<lambda>y. Inr (strcmp_sign x y)))"

lemma strcmp_sign_zero [simp]: "strcmp_sign a b = 0 \<longleftrightarrow> a = b"
  by (simp add: strcmp_sign_def)

lemma strcmp_sign_neg [simp]: "strcmp_sign a b < 0 \<longleftrightarrow> a < b"
  by (simp add: strcmp_sign_def)

lemma strcmp_sign_pos [simp]: "0 < strcmp_sign a b \<longleftrightarrow> b < a"
  by (auto simp: strcmp_sign_def)

lemma strcmp_Str [simp]: "strcmp (Str a) (Str b) = Inr (strcmp_sign a b)"
  by (simp add: strcmp_def)

lemma strcmp_bad [simp]:
  "strcmp Null b = Inl Segv" "strcmp Wild b = Inl Segv"
  by (simp_all add: strcmp_def)

definition is_Str :: "cstr \<Rightarrow> bool" where
  "is_Str c = (case c of Str _ \<Rightarrow> True | _ \<Rightarrow> False)"

lemma is_Str_simps [simp]: "is_Str (Str s)" "\<not> is_Str Null" "\<not> is_Str Wild"
  by (simp_all add: is_Str_def)

lemma is_StrE: "is_Str c \<Longrightarrow> (\<And>s. c = Str s \<Longrightarrow> P) \<Longrightarrow> P"
  by (cases c) auto

text \<open>The pointer a lookup returns, as a C string: NULL for an absent value.\<close>

fun cstr_of :: "string option \<Rightarrow> cstr" where
  "cstr_of None = Null"
| "cstr_of (Some s) = Str s"

lemma cstr_of_Null [simp]: "cstr_of x = Null \<longleftrightarrow> x = None"
  by (cases x) auto

section \<open>Allocation\<close>

text \<open>
  Whether the \<open>i\<close>-th allocation that a call makes succeeds; \<open>malloc_ok\<close> is the case in which
  memory is not exhausted.
\<close>

type_synonym mallocs = "nat \<Rightarrow> bool"

definition malloc_ok :: mallocs where
  "malloc_ok = (\<lambda>_. True)"

lemma malloc_ok_apply [simp]: "malloc_ok i"
  by (simp add: malloc_ok_def)

text \<open>A pointer to a heap array: NULL, dangling after \<^verbatim>\<open>free\<close>, or a live block.\<close>

datatype 'a block = NullP | Dangling | Block "'a list"

section \<open>Arithmetic of C\<close>

text \<open>The remainder of \<^verbatim>\<open>a % b\<close> has the sign of \<open>a\<close>.\<close>

definition c_rem :: "int \<Rightarrow> int \<Rightarrow> int" where
  "c_rem a b = (if a < 0 then - ((- a) mod \<bar>b\<bar>) else a mod \<bar>b\<bar>)"

lemma c_rem_bounds: "b \<noteq> 0 \<Longrightarrow> - \<bar>b\<bar> < c_rem a b \<and> c_rem a b < \<bar>b\<bar>"
proof -
  assume "b \<noteq> 0"
  then have "0 \<le> x mod \<bar>b\<bar> \<and> x mod \<bar>b\<bar> < \<bar>b\<bar>" for x :: int
    by simp
  from this [of a] this [of "- a"] show ?thesis
    by (auto simp: c_rem_def)
qed

lemma c_rem_nonneg: "0 \<le> a \<Longrightarrow> b \<noteq> 0 \<Longrightarrow> 0 \<le> c_rem a b"
  by (simp add: c_rem_def)

text \<open>A \<^verbatim>\<open>char\<close> is signed on the platform of the store: bytes from 128 on are negative.\<close>

definition schar :: "char \<Rightarrow> int" where
  "schar c = (let n = int (of_char c) in if n < 128 then n else n - 256)"

lemma schar_bounds: "- 128 \<le> schar c" "schar c \<le> 127"
proof -
  have "int (of_char c) < int 256" "0 \<le> int (of_char c)"
    by (simp_all only: of_nat_less_iff nat_of_char_less_256 of_nat_0_le_iff)
  then show "- 128 \<le> schar c" "schar c \<le> 127"
    unfolding schar_def Let_def by (simp_all only: of_nat_numeral split: if_split) linarith+
qed

section \<open>Lists\<close>

lemma map_of_None_fst: "map_of xs k = None \<longleftrightarrow> k \<notin> fst ` set xs"
  by (rule map_of_eq_None_iff)

lemma take_list_update: "i < n \<Longrightarrow> take n (xs[i := x]) = (take n xs)[i := x]"
  by (rule take_update_swap)

lemma take_Suc_update: "n < length xs \<Longrightarrow> take (Suc n) (xs[n := x]) = take n xs @ [x]"
  by (simp add: take_Suc_conv_app_nth)

lemma length_filter_update:
  assumes "i < length xs"
  shows "length (filter P (xs[i := x])) + (if P (xs ! i) then 1 else 0)
    = length (filter P xs) + (if P x then 1 else 0)"
  using assms
proof (induction xs arbitrary: i)
  case Nil
  then show ?case by simp
next
  case (Cons y ys)
  then show ?case by (cases i) auto
qed

lemma map_of_update_nth:
  assumes "i < length xs" "fst (xs ! i) = k" "distinct (map fst xs)"
  shows "map_of (xs[i := (k, v)]) = (map_of xs)(k \<mapsto> v)"
  using assms
proof (induction xs arbitrary: i)
  case Nil
  then show ?case by simp
next
  case (Cons y ys)
  show ?case
  proof (cases i)
    case 0
    with Cons.prems show ?thesis by (cases y) auto
  next
    case (Suc j)
    with Cons.prems have j: "j < length ys" "fst (ys ! j) = k" "distinct (map fst ys)"
      by auto
    from Cons.IH [OF this] have IH: "map_of (ys[j := (k, v)]) = (map_of ys)(k \<mapsto> v)" .
    have "fst y \<noteq> k"
      using j Cons.prems(3) nth_mem [OF j(1)] by fastforce
    with Suc IH show ?thesis by (cases y) (auto simp: fun_eq_iff)
  qed
qed

section \<open>The interface of a key-value engine\<close>

text \<open>
  What the protocol layer relies on. \<open>view s\<close> is the dictionary a state stands for, \<open>inv s\<close> the
  engine's invariant, \<open>room s\<close> that a key can still be added and \<open>okkey\<close> the keys the engine
  accepts. The operations are those with successful allocations. The laws give each operation on
  every branch: its return code and the dictionary after it.
\<close>

locale kv_engine =
  fixes inv :: "'s \<Rightarrow> bool"
    and room :: "'s \<Rightarrow> bool"
    and okkey :: "string \<Rightarrow> bool"
    and view :: "'s \<Rightarrow> string \<Rightarrow> string option"
    and get :: "'s \<Rightarrow> string \<Rightarrow> cstr res"
    and set_op :: "'s \<Rightarrow> string \<Rightarrow> string \<Rightarrow> ('s \<times> int) res"
    and mod_op :: "'s \<Rightarrow> string \<Rightarrow> string \<Rightarrow> ('s \<times> int) res"
    and exist :: "'s \<Rightarrow> string \<Rightarrow> int res"
  assumes get_view: "inv s \<Longrightarrow> okkey k \<Longrightarrow> get s k = Inr (cstr_of (view s k))"
    and set_new: "inv s \<Longrightarrow> room s \<Longrightarrow> okkey k \<Longrightarrow> view s k = None \<Longrightarrow>
       \<exists>s'. set_op s k v = Inr (s', 0) \<and> inv s' \<and> view s' = (view s)(k \<mapsto> v)"
    and set_old: "inv s \<Longrightarrow> room s \<Longrightarrow> okkey k \<Longrightarrow> view s k = Some w \<Longrightarrow>
       \<exists>s'. set_op s k v = Inr (s', 1) \<and> inv s' \<and> view s' = view s"
    and mod_old: "inv s \<Longrightarrow> okkey k \<Longrightarrow> view s k = Some w \<Longrightarrow>
       \<exists>s'. mod_op s k v = Inr (s', 0) \<and> inv s' \<and> view s' = (view s)(k \<mapsto> v)"
    and mod_new: "inv s \<Longrightarrow> okkey k \<Longrightarrow> view s k = None \<Longrightarrow>
       \<exists>r. mod_op s k v = Inr (s, r) \<and> 0 < r"
    and exist_view: "inv s \<Longrightarrow> okkey k \<Longrightarrow>
       exist s k = Inr (if view s k = None then 1 else 0)"
begin

lemma set_then_get:
  assumes "inv s" "room s" "okkey k" "view s k = None"
  shows "\<exists>s'. set_op s k v = Inr (s', 0) \<and> get s' k = Inr (Str v)"
proof -
  obtain s' where s': "set_op s k v = Inr (s', 0)" "inv s'" "view s' = (view s)(k \<mapsto> v)"
    using set_new [OF assms] by blast
  with get_view [OF s'(2) assms(3)] show ?thesis by auto
qed

lemma set_frame:
  assumes "inv s" "room s" "okkey k" "okkey k'" "k' \<noteq> k" and ret: "set_op s k v = Inr (s', r)"
  shows "get s' k' = get s k'"
proof (cases "view s k")
  case None
  with set_new [OF assms(1-3), of v] ret have "inv s'" "view s' = (view s)(k \<mapsto> v)"
    by auto
  with assms show ?thesis by (simp add: get_view)
next
  case (Some w)
  with set_old [OF assms(1-3), of w v] ret have "inv s'" "view s' = view s"
    by auto
  with assms show ?thesis by (simp add: get_view)
qed

lemma set_twice:
  assumes "inv s" "room s" "okkey k" "view s k = None"
    and "set_op s k v = Inr (s1, 0)" "room s1"
  shows "\<exists>s2. set_op s1 k w = Inr (s2, 1) \<and> get s2 k = Inr (Str v)"
proof -
  have s1: "inv s1" "view s1 = (view s)(k \<mapsto> v)"
    using set_new [OF assms(1-4), of v] assms(5) by auto
  from set_old [OF s1(1) assms(6) assms(3), of v w] s1 obtain s2
    where "set_op s1 k w = Inr (s2, 1)" "inv s2" "view s2 = view s1" by auto
  with s1 get_view [OF _ assms(3)] show ?thesis by auto
qed

lemma mod_then_get:
  assumes "inv s" "okkey k" "view s k \<noteq> None"
  shows "\<exists>s'. mod_op s k v = Inr (s', 0) \<and> get s' k = Inr (Str v)"
proof -
  from assms obtain s' where s': "mod_op s k v = Inr (s', 0)" "inv s'" "view s' = (view s)(k \<mapsto> v)"
    using mod_old by blast
  with get_view [OF s'(2) assms(2)] show ?thesis by auto
qed

lemma exist_iff_get:
  assumes "inv s" "okkey k"
  shows "exist s k = Inr 0 \<longleftrightarrow> get s k \<noteq> Inr Null"
  using assms by (simp add: exist_view get_view)

end

locale kv_engine_del = kv_engine inv room okkey view get set_op mod_op exist
  for inv :: "'s \<Rightarrow> bool" and room okkey view get set_op mod_op exist +
  fixes del :: "'s \<Rightarrow> string \<Rightarrow> ('s \<times> int) res"
  assumes del_old: "inv s \<Longrightarrow> okkey k \<Longrightarrow> view s k = Some w \<Longrightarrow>
       \<exists>s'. del s k = Inr (s', 0) \<and> inv s' \<and> view s' = (view s)(k := None)"
    and del_new: "inv s \<Longrightarrow> okkey k \<Longrightarrow> view s k = None \<Longrightarrow>
       \<exists>r. del s k = Inr (s, r) \<and> r \<noteq> 0"
begin

lemma del_then_get:
  assumes "inv s" "okkey k"
  shows "\<exists>s' r. del s k = Inr (s', r) \<and> get s' k = Inr Null
    \<and> (\<forall>k'. okkey k' \<longrightarrow> k' \<noteq> k \<longrightarrow> get s' k' = get s k')"
proof (cases "view s k")
  case None
  with del_new [OF assms] assms show ?thesis by (auto simp: get_view)
next
  case (Some w)
  with del_old [OF assms] obtain s' where "del s k = Inr (s', 0)" "inv s'" "view s' = (view s)(k := None)"
    by blast
  with assms show ?thesis by (auto simp: get_view)
qed

lemma set_del_get:
  assumes "inv s" "room s" "okkey k" "view s k = None"
  shows "\<exists>s1 s2. set_op s k v = Inr (s1, 0) \<and> del s1 k = Inr (s2, 0) \<and> view s2 = view s"
proof -
  obtain s1 where s1: "set_op s k v = Inr (s1, 0)" "inv s1" "view s1 = (view s)(k \<mapsto> v)"
    using set_new [OF assms] by blast
  then obtain s2 where "del s1 k = Inr (s2, 0)" "view s2 = (view s1)(k := None)"
    using del_old [OF s1(2) assms(3)] by auto
  with s1 assms(4) show ?thesis by (auto simp: fun_upd_idem)
qed

end

end
