(* ===== verification/Kvs_Array.thy ===== *)
theory Kvs_Array
  imports C_Prelude
begin

text \<open>
  The array engine, \<^verbatim>\<open>src/12_1/kvs_array.c\<close>: a table of 1024 key/value pointers of which the
  first \<^verbatim>\<open>total\<close> are scanned. Deleting clears a slot and decrements \<^verbatim>\<open>total\<close>, so the table can
  hold holes, and entries behind \<^verbatim>\<open>total\<close>. \<open>array_inv\<close> is what every operation keeps from
  creation on, holes or not; \<open>dense\<close> is the case without holes, in which the engine is a
  dictionary (interpretation \<open>arr\<close> of \<open>kv_engine\<close>).
\<close>

section \<open>Data\<close>

record kvs_array_item =
  akey :: cstr
  avalue :: cstr

definition KVS_ARRAY_SIZE :: nat where
  "KVS_ARRAY_SIZE = 1024"

record kvs_array =
  table :: "kvs_array_item block"
  idx :: int
  total :: nat

section \<open>Operations\<close>

text \<open>\<open>junk\<close> is what the freshly allocated, uninitialised table holds.\<close>

definition kvs_array_create ::
  "mallocs \<Rightarrow> (nat \<Rightarrow> kvs_array_item) \<Rightarrow> kvs_array option \<Rightarrow> kvs_array option \<times> int" where
  "kvs_array_create m junk inst =
     (case inst of None \<Rightarrow> (None, -1)
      | Some a \<Rightarrow>
          if table a \<noteq> NullP then (Some a, -1)
          else if \<not> m 0 then (Some (a\<lparr>table := NullP\<rparr>), -1)
          else (Some (a\<lparr>table := Block (map junk [0..<KVS_ARRAY_SIZE]), total := 0\<rparr>), 0))"

definition kvs_array_destory :: "kvs_array option \<Rightarrow> kvs_array option" where
  "kvs_array_destory inst =
     (case inst of None \<Rightarrow> None
      | Some a \<Rightarrow> if table a \<noteq> NullP then Some (a\<lparr>table := Dangling\<rparr>) else Some a)"

text \<open>The entries \<^verbatim>\<open>table[0..total)\<close> that the loops read.\<close>

definition used :: "kvs_array \<Rightarrow> kvs_array_item list res" where
  "used a = (case table a of
       Block t \<Rightarrow> if total a \<le> length t then Inr (take (total a) t) else Inl OutOfBounds
     | _ \<Rightarrow> if total a = 0 then Inr [] else Inl Segv)"

fun get_loop :: "kvs_array_item list \<Rightarrow> cstr \<Rightarrow> cstr res" where
  "get_loop [] key = Inr Null"
| "get_loop (it # its) key =
     (if akey it = Null then get_loop its key
      else andthen (strcmp (akey it) key)
             (\<lambda>c. if c = 0 then Inr (avalue it) else get_loop its key))"

definition kvs_array_get :: "kvs_array option \<Rightarrow> cstr \<Rightarrow> cstr res" where
  "kvs_array_get inst key =
     (case inst of None \<Rightarrow> Inr Null
      | Some a \<Rightarrow> if key = Null then Inr Null
                  else andthen (used a) (\<lambda>its. get_loop its key))"

fun hole_loop :: "kvs_array_item list \<Rightarrow> nat \<Rightarrow> nat option" where
  "hole_loop [] i = None"
| "hole_loop (it # its) i = (if akey it = Null then Some i else hole_loop its (Suc i))"

definition put_item :: "kvs_array \<Rightarrow> nat \<Rightarrow> kvs_array_item \<Rightarrow> kvs_array res" where
  "put_item a i it = (case table a of
       Block t \<Rightarrow> if i < length t then Inr (a\<lparr>table := Block (t[i := it])\<rparr>) else Inl OutOfBounds
     | _ \<Rightarrow> Inl Segv)"

definition kvs_array_set ::
  "mallocs \<Rightarrow> kvs_array option \<Rightarrow> cstr \<Rightarrow> cstr \<Rightarrow> (kvs_array option \<times> int) res" where
  "kvs_array_set m inst key value =
     (case inst of None \<Rightarrow> Inr (None, -1)
      | Some a \<Rightarrow>
          if key = Null \<or> value = Null then Inr (inst, -1)
          else if total a = KVS_ARRAY_SIZE then Inr (inst, -1)
          else andthen (kvs_array_get inst key) (\<lambda>str.
            if str \<noteq> Null then Inr (inst, 1)
            else andthen (deref key) (\<lambda>k.
              if \<not> m 0 then Inr (inst, -2)
              else andthen (deref value) (\<lambda>v.
                if \<not> m 1 then Inr (inst, -2)
                else let it = \<lparr>akey = Str k, avalue = Str v\<rparr> in
                  andthen (used a) (\<lambda>its.
                    case hole_loop its 0 of
                      Some i \<Rightarrow> andthen (put_item a i it)
                                  (\<lambda>a'. Inr (Some (a'\<lparr>total := Suc (total a)\<rparr>), 0))
                    | None \<Rightarrow>
                        if total a < KVS_ARRAY_SIZE
                        then andthen (put_item a (total a) it)
                               (\<lambda>a'. Inr (Some (a'\<lparr>total := Suc (total a)\<rparr>), 0))
                        else Inr (inst, 0))))))"

text \<open>The loop of \<^verbatim>\<open>kvs_array_del\<close> has no test for an empty slot.\<close>

fun del_loop :: "kvs_array_item list \<Rightarrow> cstr \<Rightarrow> nat \<Rightarrow> nat option res" where
  "del_loop [] key i = Inr None"
| "del_loop (it # its) key i =
     andthen (strcmp (akey it) key)
       (\<lambda>c. if c = 0 then Inr (Some i) else del_loop its key (Suc i))"

definition kvs_array_del :: "kvs_array option \<Rightarrow> cstr \<Rightarrow> (kvs_array option \<times> int) res" where
  "kvs_array_del inst key =
     (case inst of None \<Rightarrow> Inr (None, -1)
      | Some a \<Rightarrow>
          if key = Null then Inr (inst, -1)
          else andthen (used a) (\<lambda>its.
            andthen (del_loop its key 0) (\<lambda>r.
              case r of
                Some i \<Rightarrow> andthen (put_item a i \<lparr>akey = Null, avalue = Null\<rparr>)
                            (\<lambda>a'. Inr (Some (a'\<lparr>total := total a - 1\<rparr>), 0))
              | None \<Rightarrow> Inr (inst, int (total a)))))"

fun mod_loop :: "kvs_array_item list \<Rightarrow> cstr \<Rightarrow> nat \<Rightarrow> nat option res" where
  "mod_loop [] key i = Inr None"
| "mod_loop (it # its) key i =
     (if akey it = Null then mod_loop its key (Suc i)
      else andthen (strcmp (akey it) key)
             (\<lambda>c. if c = 0 then Inr (Some i) else mod_loop its key (Suc i)))"

text \<open>If the new value cannot be allocated, the slot keeps the pointer that was just freed.\<close>

definition kvs_array_mod ::
  "mallocs \<Rightarrow> kvs_array option \<Rightarrow> cstr \<Rightarrow> cstr \<Rightarrow> (kvs_array option \<times> int) res" where
  "kvs_array_mod m inst key value =
     (case inst of None \<Rightarrow> Inr (None, -1)
      | Some a \<Rightarrow>
          if key = Null \<or> value = Null then Inr (inst, -1)
          else if total a = 0 then Inr (inst, int KVS_ARRAY_SIZE)
          else andthen (used a) (\<lambda>its.
            andthen (mod_loop its key 0) (\<lambda>r.
              case r of
                Some i \<Rightarrow>
                  andthen (deref value) (\<lambda>v.
                    if m 0
                    then andthen (put_item a i ((its ! i)\<lparr>avalue := Str v\<rparr>))
                           (\<lambda>a'. Inr (Some a', 0))
                    else andthen (put_item a i ((its ! i)\<lparr>avalue := Wild\<rparr>))
                           (\<lambda>a'. Inr (Some a', -2)))
              | None \<Rightarrow> Inr (inst, int (total a)))))"

definition kvs_array_exist :: "kvs_array option \<Rightarrow> cstr \<Rightarrow> int res" where
  "kvs_array_exist inst key =
     andthen (kvs_array_get inst key) (\<lambda>str. Inr (if str = Null then 1 else 0))"

section \<open>Invariants\<close>

fun str_of :: "cstr \<Rightarrow> string" where
  "str_of (Str s) = s"
| "str_of _ = []"

definition items :: "kvs_array \<Rightarrow> kvs_array_item list" where
  "items a = (case table a of Block t \<Rightarrow> take (total a) t | _ \<Rightarrow> [])"

definition tbl :: "kvs_array \<Rightarrow> kvs_array_item list" where
  "tbl a = (case table a of Block t \<Rightarrow> t | _ \<Rightarrow> [])"

definition nulls :: "kvs_array_item list \<Rightarrow> nat" where
  "nulls its = length (filter (\<lambda>it. akey it = Null) its)"

text \<open>
  \<open>hw\<close> is the number of slots ever written: behind it the table is uninitialised. The slots
  below it hold a string key or NULL, and exactly \<open>hw - total\<close> of them are NULL.
\<close>

definition item_ok :: "kvs_array_item \<Rightarrow> bool" where
  "item_ok it \<longleftrightarrow> (akey it = Null \<or> is_Str (akey it) \<and> avalue it \<noteq> Null)"

definition array_inv_at :: "nat \<Rightarrow> kvs_array \<Rightarrow> bool" where
  "array_inv_at hw a \<longleftrightarrow> (case table a of
       Block t \<Rightarrow> length t = KVS_ARRAY_SIZE \<and> total a \<le> hw \<and> hw \<le> KVS_ARRAY_SIZE
         \<and> list_all item_ok (take hw t) \<and> nulls (take hw t) = hw - total a
     | _ \<Rightarrow> False)"

definition array_inv :: "kvs_array option \<Rightarrow> bool" where
  "array_inv inst \<longleftrightarrow> (case inst of None \<Rightarrow> False
     | Some a \<Rightarrow> (\<exists>hw \<le> KVS_ARRAY_SIZE. array_inv_at hw a))"

definition dense :: "kvs_array option \<Rightarrow> bool" where
  "dense inst \<longleftrightarrow> (case inst of None \<Rightarrow> False
     | Some a \<Rightarrow> (case table a of
         Block t \<Rightarrow> length t = KVS_ARRAY_SIZE \<and> total a \<le> KVS_ARRAY_SIZE
           \<and> list_all (\<lambda>it. is_Str (akey it) \<and> is_Str (avalue it)) (items a)
           \<and> distinct (map akey (items a))
       | _ \<Rightarrow> False))"

definition pairs :: "kvs_array_item list \<Rightarrow> (string \<times> string) list" where
  "pairs its = map (\<lambda>it. (str_of (akey it), str_of (avalue it))) its"

definition array_view :: "kvs_array option \<Rightarrow> string \<Rightarrow> string option" where
  "array_view inst = (case inst of None \<Rightarrow> Map.empty | Some a \<Rightarrow> map_of (pairs (items a)))"

definition array_room :: "kvs_array option \<Rightarrow> bool" where
  "array_room inst = (case inst of None \<Rightarrow> False | Some a \<Rightarrow> total a < KVS_ARRAY_SIZE)"

section \<open>The loops\<close>

abbreviation full_item :: "kvs_array_item \<Rightarrow> bool" where
  "full_item it \<equiv> is_Str (akey it) \<and> is_Str (avalue it)"

lemma get_loop_dense:
  "list_all full_item its \<Longrightarrow> get_loop its (Str k) = Inr (cstr_of (map_of (pairs its) k))"
proof (induction its)
  case Nil
  then show ?case by (simp add: pairs_def)
next
  case (Cons it its)
  then obtain a v where "akey it = Str a" "avalue it = Str v"
    by (auto elim!: is_StrE)
  with Cons show ?case by (auto simp: pairs_def)
qed

lemma get_loop_total: "list_all item_ok its \<Longrightarrow> \<exists>r. get_loop its (Str k) = Inr r"
  by (induction its) (auto simp: item_ok_def elim!: is_StrE)

lemma get_loop_Null:
  assumes "list_all item_ok its" "get_loop its (Str k) = Inr Null" "it \<in> set its"
  shows "akey it \<noteq> Str k"
  using assms
proof (induction its)
  case Nil
  then show ?case by simp
next
  case (Cons x xs)
  then show ?case by (auto simp: item_ok_def elim!: is_StrE split: if_splits)
qed

lemma get_loop_absent:
  "list_all (\<lambda>it. item_ok it \<and> akey it \<noteq> Str k) its \<Longrightarrow> get_loop its (Str k) = Inr Null"
  by (induction its) (auto simp: item_ok_def elim!: is_StrE)

lemma hole_loop_Some:
  "hole_loop its i = Some j \<Longrightarrow> i \<le> j \<and> j < i + length its \<and> akey (its ! (j - i)) = Null"
proof (induction its arbitrary: i)
  case Nil
  then show ?case by simp
next
  case (Cons it its)
  then show ?case
  proof (cases "akey it = Null")
    case True
    with Cons.prems show ?thesis by simp
  next
    case False
    with Cons.prems have "hole_loop its (Suc i) = Some j" by simp
    from Cons.IH [OF this] show ?thesis
      by (auto simp: nth_Cons' Suc_diff_Suc)
  qed
qed

lemma hole_loop_None: "hole_loop its i = None \<longleftrightarrow> nulls its = 0"
  by (induction its arbitrary: i) (auto simp: nulls_def)

lemma nulls_dense: "list_all full_item its \<Longrightarrow> nulls its = 0"
  by (induction its) (auto simp: nulls_def)

lemma mod_loop_Some:
  "mod_loop its key i = Inr (Some j) \<Longrightarrow>
     i \<le> j \<and> j < i + length its \<and> akey (its ! (j - i)) = key \<and> is_Str key"
proof (induction its arbitrary: i)
  case Nil
  then show ?case by simp
next
  case (Cons it its)
  show ?case
  proof (cases "akey it \<noteq> Null \<and> strcmp (akey it) key = Inr 0")
    case True
    with Cons.prems show ?thesis
      by (cases "akey it"; cases key) (auto simp: strcmp_def)
  next
    case False
    with Cons.prems have "mod_loop its key (Suc i) = Inr (Some j)"
      by (auto simp: andthen_eq_Inr split: if_splits)
    from Cons.IH [OF this] show ?thesis
      by (auto simp: nth_Cons' Suc_diff_Suc)
  qed
qed

lemma mod_loop_total: "list_all item_ok its \<Longrightarrow> \<exists>r. mod_loop its (Str k) i = Inr r"
  by (induction its arbitrary: i) (auto simp: item_ok_def elim!: is_StrE)

lemma mod_loop_dense:
  "list_all full_item its \<Longrightarrow>
     mod_loop its (Str k) i = Inr None \<longleftrightarrow> map_of (pairs its) k = None"
proof (induction its arbitrary: i)
  case Nil
  then show ?case by (simp add: pairs_def)
next
  case (Cons it its)
  then obtain a v where "akey it = Str a" "avalue it = Str v"
    by (auto elim!: is_StrE)
  with Cons show ?case by (auto simp: pairs_def)
qed

lemma del_loop_dense: "list_all full_item its \<Longrightarrow> del_loop its (Str k) i = mod_loop its (Str k) i"
  by (induction its arbitrary: i) (auto elim!: is_StrE)

lemma del_loop_Some:
  "del_loop its key i = Inr (Some j) \<Longrightarrow>
     i \<le> j \<and> j < i + length its \<and> akey (its ! (j - i)) = key \<and> is_Str key"
proof (induction its arbitrary: i)
  case Nil
  then show ?case by simp
next
  case (Cons it its)
  show ?case
  proof (cases "strcmp (akey it) key = Inr 0")
    case True
    with Cons.prems show ?thesis
      by (cases "akey it"; cases key) (auto simp: strcmp_def)
  next
    case False
    with Cons.prems have "del_loop its key (Suc i) = Inr (Some j)"
      by (auto simp: andthen_eq_Inr split: if_splits)
    from Cons.IH [OF this] show ?thesis
      by (auto simp: nth_Cons' Suc_diff_Suc)
  qed
qed

text \<open>A scan that meets an empty slot before its key dereferences NULL.\<close>

lemma del_loop_hole:
  assumes "list_all full_item its" "Str k \<notin> set (map akey its)" "akey it = Null"
  shows "del_loop (its @ it # rest) (Str k) i = Inl Segv"
  using assms by (induction its arbitrary: i) (auto elim!: is_StrE)

section \<open>Every operation keeps the invariant\<close>

lemma array_inv_atE:
  assumes "array_inv_at hw a"
  obtains t where "table a = Block t" "length t = KVS_ARRAY_SIZE" "total a \<le> hw"
    "hw \<le> KVS_ARRAY_SIZE" "list_all item_ok (take hw t)" "nulls (take hw t) = hw - total a"
  using assms by (auto simp: array_inv_at_def split: block.splits)

lemma array_inv_someI: "array_inv_at hw a \<Longrightarrow> array_inv (Some a)"
  by (auto simp: array_inv_def array_inv_at_def split: block.splits)

lemma used_inv:
  assumes "array_inv_at hw a"
  shows "used a = Inr (items a)" "list_all item_ok (items a)"
proof -
  from assms obtain t where t: "table a = Block t" "length t = KVS_ARRAY_SIZE" "total a \<le> hw"
    "hw \<le> KVS_ARRAY_SIZE" "list_all item_ok (take hw t)" by (rule array_inv_atE)
  have "take (total a) t = take (total a) (take hw t)"
    using t(3) by (simp add: min_def)
  with t(5) have "list_all item_ok (take (total a) t)"
    by (metis append_take_drop_id list_all_append)
  then show "list_all item_ok (items a)" by (simp add: items_def t)
  show "used a = Inr (items a)" using t by (simp add: used_def items_def)
qed

lemma list_all_update: "list_all P xs \<Longrightarrow> P x \<Longrightarrow> list_all P (xs[i := x])"
  by (induction xs arbitrary: i) (auto split: nat.splits)

lemma nulls_take_update:
  assumes "i < hw" "hw \<le> length t"
  shows "nulls (take hw (t[i := it])) + (if akey (t ! i) = Null then 1 else 0)
    = nulls (take hw t) + (if akey it = Null then 1 else 0)"
  using length_filter_update [of i "take hw t" "\<lambda>it. akey it = Null" it] assms
  by (simp add: nulls_def take_update_swap)

lemma nulls_take_Suc:
  "n < length t \<Longrightarrow> nulls (take (Suc n) t) = nulls (take n t) + (if akey (t ! n) = Null then 1 else 0)"
  by (simp add: nulls_def take_Suc_conv_app_nth)

text \<open>Without a hole below \<^verbatim>\<open>total\<close>, the slots between \<^verbatim>\<open>total\<close> and \<open>hw\<close> are all empty.\<close>

lemma slot_total_Null:
  assumes "nulls (take n t) = 0" "nulls (take hw t) = hw - n" "n < hw" "hw \<le> length t"
  shows "akey (t ! n) = Null"
proof (rule ccontr)
  assume neq: "akey (t ! n) \<noteq> Null"
  have "take hw t = take n t @ t ! n # drop (Suc n) (take hw t)"
    using id_take_nth_drop [of n "take hw t"] assms(3,4) by (simp add: min_def)
  then have "nulls (take hw t) = nulls (take n t @ t ! n # drop (Suc n) (take hw t))"
    by simp
  also have "\<dots> = nulls (drop (Suc n) (take hw t))"
    using assms(1) neq by (simp add: nulls_def)
  also have "\<dots> \<le> length (drop (Suc n) (take hw t))"
    unfolding nulls_def by (rule length_filter_le)
  finally show False using assms(2-4) by simp
qed

lemma put_hole_inv:
  assumes inv: "array_inv_at hw a" and tb: "table a = Block t" and i: "i < hw"
    and hole: "akey (t ! i) = Null"
  shows "array_inv_at hw (a\<lparr>table := Block (t[i := \<lparr>akey = Str k, avalue = Str v\<rparr>]),
           total := Suc (total a)\<rparr>)"
proof -
  from inv tb have p: "length t = KVS_ARRAY_SIZE" "total a \<le> hw" "hw \<le> KVS_ARRAY_SIZE"
    "list_all item_ok (take hw t)" "nulls (take hw t) = hw - total a"
    by (auto simp: array_inv_at_def)
  have n: "Suc (nulls (take hw (t[i := \<lparr>akey = Str k, avalue = Str v\<rparr>]))) = hw - total a"
    using nulls_take_update [of i hw t "\<lparr>akey = Str k, avalue = Str v\<rparr>"] p i hole by simp
  have "list_all item_ok (take hw (t[i := \<lparr>akey = Str k, avalue = Str v\<rparr>]))"
    using p(4) i by (simp add: take_update_swap list_all_update item_ok_def)
  with p n show ?thesis
    by (auto simp: array_inv_at_def)
qed

lemma put_top_inv:
  assumes inv: "array_inv_at (total a) a" and tb: "table a = Block t" and i: "total a < KVS_ARRAY_SIZE"
  shows "array_inv_at (Suc (total a)) (a\<lparr>table := Block (t[total a := \<lparr>akey = Str k, avalue = Str v\<rparr>]),
           total := Suc (total a)\<rparr>)"
proof -
  from inv tb have p: "length t = KVS_ARRAY_SIZE" "list_all item_ok (take (total a) t)"
    "nulls (take (total a) t) = 0"
    by (auto simp: array_inv_at_def)
  then show ?thesis using i
    by (auto simp: array_inv_at_def take_Suc_update item_ok_def nulls_def)
qed

lemma put_item_Block [simp]:
  "table a = Block t \<Longrightarrow> i < length t \<Longrightarrow> put_item a i it = Inr (a\<lparr>table := Block (t[i := it])\<rparr>)"
  by (simp add: put_item_def)

lemma kvs_array_get_inv:
  "array_inv_at hw a \<Longrightarrow> kvs_array_get (Some a) (Str k) = get_loop (items a) (Str k)"
  by (simp add: kvs_array_get_def used_inv)

text \<open>\<^verbatim>\<open>kvs_array_set\<close> on an absent key: the first hole, or the slot behind the last one used.\<close>

definition free_slot :: "kvs_array \<Rightarrow> nat" where
  "free_slot a = (case hole_loop (items a) 0 of Some i \<Rightarrow> i | None \<Rightarrow> total a)"

lemma free_slot_inv:
  assumes inv: "array_inv_at hw a" and tb: "table a = Block t" and room: "total a < KVS_ARRAY_SIZE"
  shows "\<exists>hw'. array_inv_at hw' (a\<lparr>table := Block (t[free_slot a := \<lparr>akey = Str k, avalue = Str v\<rparr>]),
           total := Suc (total a)\<rparr>) \<and> free_slot a < KVS_ARRAY_SIZE"
proof -
  from inv tb have p: "length t = KVS_ARRAY_SIZE" "total a \<le> hw" "hw \<le> KVS_ARRAY_SIZE"
    "nulls (take hw t) = hw - total a"
    by (auto simp: array_inv_at_def)
  show ?thesis
  proof (cases "hole_loop (items a) 0")
    case (Some i)
    from hole_loop_Some [OF Some] tb p have "i < total a" "akey (t ! i) = Null"
      by (auto simp: items_def)
    with put_hole_inv [OF inv tb, of i k v] p Some show ?thesis
      by (auto simp: free_slot_def)
  next
    case None
    then have n0: "nulls (take (total a) t) = 0"
      by (simp add: hole_loop_None items_def tb)
    show ?thesis
    proof (cases "total a < hw")
      case True
      with slot_total_Null [OF n0 p(4)] p have "akey (t ! total a) = Null" by simp
      with put_hole_inv [OF inv tb True, of k v] None room show ?thesis
        by (auto simp: free_slot_def)
    next
      case False
      with p have "hw = total a" by simp
      with put_top_inv [OF _ tb room, of k v] inv None room show ?thesis
        by (auto simp: free_slot_def)
    qed
  qed
qed

lemma kvs_array_set_absent:
  assumes inv: "array_inv_at hw a" and tb: "table a = Block t" and room: "total a < KVS_ARRAY_SIZE"
    and abs: "get_loop (items a) (Str k) = Inr Null" and m: "m 0" "m 1"
  shows "kvs_array_set m (Some a) (Str k) (Str v) =
    Inr (Some (a\<lparr>table := Block (t[free_slot a := \<lparr>akey = Str k, avalue = Str v\<rparr>]),
           total := Suc (total a)\<rparr>), 0)"
proof -
  have "length t = KVS_ARRAY_SIZE" "free_slot a < KVS_ARRAY_SIZE"
    using inv tb free_slot_inv [OF inv tb room] by (auto simp: array_inv_at_def)
  then show ?thesis
    using room abs m tb
    by (cases "hole_loop (items a) 0")
      (simp_all add: kvs_array_set_def kvs_array_get_inv [OF inv] used_inv [OF inv] Let_def
        free_slot_def)
qed

lemma kvs_array_set_inv:
  assumes "array_inv (Some a)"
  shows "\<exists>inst' r. kvs_array_set m (Some a) (Str k) (Str v) = Inr (inst', r) \<and> array_inv inst'
    \<and> r \<in> {-2, -1, 0, 1}"
proof -
  from assms obtain hw where inv: "array_inv_at hw a" by (auto simp: array_inv_def)
  then obtain t where tb: "table a = Block t" by (rule array_inv_atE)
  from get_loop_total [OF used_inv(2) [OF inv]] obtain s where
    s: "get_loop (items a) (Str k) = Inr s" by blast
  have le: "total a \<le> KVS_ARRAY_SIZE" using inv tb by (auto simp: array_inv_at_def)
  show ?thesis
  proof (cases "total a < KVS_ARRAY_SIZE \<and> s = Null \<and> m 0 \<and> m 1")
    case True
    with free_slot_inv [OF inv tb] kvs_array_set_absent [OF inv tb] s show ?thesis
      by (metis array_inv_someI insertI1 insertI2)
  next
    case False
    with assms le s show ?thesis
      by (auto simp: kvs_array_set_def kvs_array_get_inv [OF inv])
  qed
qed

lemma kvs_array_mod_inv:
  assumes "array_inv (Some a)"
  shows "\<exists>inst' r. kvs_array_mod m (Some a) (Str k) (Str v) = Inr (inst', r) \<and> array_inv inst'"
proof -
  from assms obtain hw where inv: "array_inv_at hw a" by (auto simp: array_inv_def)
  then obtain t where t: "table a = Block t" "length t = KVS_ARRAY_SIZE" "total a \<le> hw"
    "hw \<le> KVS_ARRAY_SIZE" "list_all item_ok (take hw t)" "nulls (take hw t) = hw - total a"
    by (rule array_inv_atE)
  from mod_loop_total [OF used_inv(2) [OF inv]] obtain r where
    r: "mod_loop (items a) (Str k) 0 = Inr r" by blast
  show ?thesis
  proof (cases r)
    case None
    with assms r show ?thesis by (simp add: kvs_array_mod_def used_inv [OF inv])
  next
    case (Some i)
    from mod_loop_Some [of "items a" "Str k" 0 i] r Some t
    have i: "i < total a" "akey (t ! i) = Str k" and it: "items a ! i = t ! i"
      by (auto simp: items_def)
    have upd: "array_inv (Some (a\<lparr>table := Block (t[i := (t ! i)\<lparr>avalue := w\<rparr>])\<rparr>))"
      if "w \<noteq> Null" for w
    proof -
      have "nulls (take hw (t[i := (t ! i)\<lparr>avalue := w\<rparr>])) = hw - total a"
        using nulls_take_update [of i hw t "(t ! i)\<lparr>avalue := w\<rparr>"] i t by simp
      moreover have "list_all item_ok (take hw (t[i := (t ! i)\<lparr>avalue := w\<rparr>]))"
        using t(3,5) i that by (simp add: take_update_swap list_all_update item_ok_def)
      ultimately show ?thesis
        using t by (intro array_inv_someI [of hw]) (simp add: array_inv_at_def)
    qed
    then show ?thesis using r Some t i
      by (auto simp: kvs_array_mod_def used_inv [OF inv] it)
  qed
qed

lemma kvs_array_del_inv:
  assumes "array_inv (Some a)" and ret: "kvs_array_del (Some a) key = Inr (inst', r)"
  shows "array_inv inst'"
proof -
  from assms obtain hw where inv: "array_inv_at hw a" by (auto simp: array_inv_def)
  then obtain t where t: "table a = Block t" "length t = KVS_ARRAY_SIZE" "total a \<le> hw"
    "hw \<le> KVS_ARRAY_SIZE" "list_all item_ok (take hw t)" "nulls (take hw t) = hw - total a"
    by (rule array_inv_atE)
  show ?thesis
  proof (cases "key \<noteq> Null \<and> (\<exists>i. del_loop (items a) key 0 = Inr (Some i))")
    case True
    then obtain i where d: "del_loop (items a) key 0 = Inr (Some i)" "key \<noteq> Null" by blast
    from del_loop_Some [OF d(1)] t have i: "i < total a" "akey (t ! i) \<noteq> Null"
      by (auto simp: items_def elim: is_StrE)
    let ?t = "t[i := \<lparr>akey = Null, avalue = Null\<rparr>]"
    have "nulls (take hw ?t) = Suc (hw - total a)"
      using nulls_take_update [of i hw t "\<lparr>akey = Null, avalue = Null\<rparr>"] i t by simp
    moreover have "list_all item_ok (take hw ?t)"
      using t(3,5) i by (simp add: take_update_swap list_all_update item_ok_def)
    ultimately have "array_inv_at hw (a\<lparr>table := Block ?t, total := total a - 1\<rparr>)"
      using t i by (auto simp: array_inv_at_def)
    then show ?thesis using ret d i t
      by (auto simp: kvs_array_del_def used_inv [OF inv] intro: array_inv_someI)
  next
    case False
    with ret assms(1) show ?thesis
      by (auto simp: kvs_array_del_def used_inv [OF inv] andthen_eq_Inr split: if_splits option.splits)
  qed
qed

section \<open>Without holes the array is a dictionary\<close>

lemma denseE:
  assumes "dense inst"
  obtains a t where "inst = Some a" "table a = Block t" "length t = KVS_ARRAY_SIZE"
    "total a \<le> KVS_ARRAY_SIZE" "list_all full_item (take (total a) t)"
    "distinct (map akey (take (total a) t))" "items a = take (total a) t"
  using assms by (auto simp: dense_def items_def split: option.splits block.splits)

lemma full_item_ok: "list_all full_item its \<Longrightarrow> list_all item_ok its"
  by (auto simp: list_all_iff item_ok_def elim!: is_StrE)

lemma dense_inv:
  assumes "dense (Some a)"
  shows "array_inv_at (total a) a"
  using assms
  by (auto elim!: denseE simp: array_inv_at_def nulls_dense full_item_ok)

lemma array_view_items [simp]: "array_view (Some a) = map_of (pairs (items a))"
  by (simp add: array_view_def)

lemma distinct_pairs:
  assumes "list_all full_item its" "distinct (map akey its)"
  shows "distinct (map fst (pairs its))"
proof -
  have "inj_on str_of (set (map akey its))"
    using assms(1) by (auto simp: inj_on_def list_all_iff) (metis is_StrE str_of.simps(1))
  with assms(2) have "distinct (map str_of (map akey its))"
    by (simp only: distinct_map)
  then show ?thesis by (simp add: pairs_def comp_def)
qed

lemma view_None_iff:
  "list_all full_item its \<Longrightarrow> map_of (pairs its) k = None \<longleftrightarrow> Str k \<notin> set (map akey its)"
proof (induction its)
  case Nil
  then show ?case by (simp add: pairs_def)
next
  case (Cons it its)
  then show ?case by (auto simp: pairs_def elim!: is_StrE)
qed

lemma dense_get:
  assumes "dense inst"
  shows "kvs_array_get inst (Str k) = Inr (cstr_of (array_view inst k))"
proof -
  from assms obtain a where a: "inst = Some a" "list_all full_item (items a)"
    by (auto elim!: denseE)
  with assms have "array_inv_at (total a) a" by (simp add: dense_inv)
  with a show ?thesis by (simp add: kvs_array_get_inv get_loop_dense)
qed

lemma dense_set_new:
  assumes "dense inst" "array_room inst" "array_view inst k = None"
  shows "\<exists>inst'. kvs_array_set malloc_ok inst (Str k) (Str v) = Inr (inst', 0) \<and> dense inst'
    \<and> array_view inst' = (array_view inst)(k \<mapsto> v)"
proof -
  from assms(1) obtain a t where t: "inst = Some a" "table a = Block t" "length t = KVS_ARRAY_SIZE"
    "total a \<le> KVS_ARRAY_SIZE" "list_all full_item (take (total a) t)"
    "distinct (map akey (take (total a) t))" "items a = take (total a) t" by (rule denseE)
  have room: "total a < KVS_ARRAY_SIZE" using assms(2) t(1) by (simp add: array_room_def)
  have inv: "array_inv_at (total a) a" using assms(1) t(1) by (simp add: dense_inv)
  have new: "map_of (pairs (items a)) k = None" using assms(3) t(1) by simp
  then have gl: "get_loop (items a) (Str k) = Inr Null"
    using t by (simp add: get_loop_dense)
  have slot: "free_slot a = total a"
    using hole_loop_None [of "items a" 0] t by (simp add: free_slot_def nulls_dense)
  let ?it = "\<lparr>akey = Str k, avalue = Str v\<rparr>"
  let ?a = "a\<lparr>table := Block (t[total a := ?it]), total := Suc (total a)\<rparr>"
  have items: "items ?a = items a @ [?it]"
    using t room by (simp add: items_def take_Suc_update)
  have "dense (Some ?a)"
    using t room new view_None_iff [of "items a" k]
    by (auto simp: dense_def items take_Suc_update)
  moreover have "map_of (pairs (items ?a)) = (map_of (pairs (items a)))(k \<mapsto> v)"
    using new unfolding items by (auto simp: pairs_def map_add_def fun_eq_iff split: option.splits)
  ultimately show ?thesis
    using kvs_array_set_absent [OF inv t(2) room gl, of malloc_ok v] slot t(1) by simp
qed

lemma dense_set_old:
  assumes "dense inst" "array_room inst" "array_view inst k = Some w"
  shows "kvs_array_set malloc_ok inst (Str k) (Str v) = Inr (inst, 1)"
proof -
  from assms(1) obtain a where a: "inst = Some a" by (rule denseE)
  with assms show ?thesis
    using dense_get [OF assms(1), of k] by (simp add: kvs_array_set_def array_room_def)
qed

lemma map_akey_avalue_update:
  "i < length its \<Longrightarrow> map akey (its[i := (its ! i)\<lparr>avalue := w\<rparr>]) = map akey its"
  by (simp add: map_update list_update_same_conv)

lemma dense_mod_old:
  assumes "dense inst" "array_view inst k = Some w"
  shows "\<exists>inst'. kvs_array_mod malloc_ok inst (Str k) (Str v) = Inr (inst', 0) \<and> dense inst'
    \<and> array_view inst' = (array_view inst)(k \<mapsto> v)"
proof -
  from assms(1) obtain a t where t: "inst = Some a" "table a = Block t" "length t = KVS_ARRAY_SIZE"
    "total a \<le> KVS_ARRAY_SIZE" "list_all full_item (take (total a) t)"
    "distinct (map akey (take (total a) t))" "items a = take (total a) t" by (rule denseE)
  have inv: "array_inv_at (total a) a" using assms(1) t(1) by (simp add: dense_inv)
  have old: "map_of (pairs (items a)) k \<noteq> None" using assms(2) t(1) by simp
  then have "mod_loop (items a) (Str k) 0 \<noteq> Inr None"
    using mod_loop_dense [of "items a" k 0] t by simp
  with mod_loop_total [OF used_inv(2) [OF inv], of k 0] obtain i where
    ml: "mod_loop (items a) (Str k) 0 = Inr (Some i)" by auto
  from mod_loop_Some [OF ml] t have i: "i < total a" "akey (items a ! i) = Str k" by auto
  have it: "items a ! i = t ! i" using t(7) i by simp
  let ?it = "(t ! i)\<lparr>avalue := Str v\<rparr>" and ?its = "items a"
  let ?a = "a\<lparr>table := Block (t[i := ?it])\<rparr>"
  have items: "items ?a = ?its[i := ?it]"
    using t i by (simp add: items_def take_update_swap)
  have len: "i < length ?its" using t i by simp
  have keys: "map akey (?its[i := ?it]) = map akey ?its"
    using map_akey_avalue_update [OF len] it by simp
  have "dense (Some ?a)"
    using t i it keys
    by (auto simp: dense_def items intro!: list_all_update)
  moreover have "pairs (?its[i := ?it]) = (pairs ?its)[i := (k, v)]"
    using i it by (simp add: pairs_def map_update)
  then have "map_of (pairs (items ?a)) = (map_of (pairs ?its))(k \<mapsto> v)"
    unfolding items using len i t distinct_pairs [of ?its]
    by (simp add: map_of_update_nth pairs_def)
  ultimately show ?thesis
    using ml i t it by (simp add: kvs_array_mod_def used_inv [OF inv])
qed

lemma dense_mod_new:
  assumes "dense inst" "array_view inst k = None"
  shows "\<exists>r. kvs_array_mod malloc_ok inst (Str k) (Str v) = Inr (inst, r) \<and> 0 < r"
proof -
  from assms(1) obtain a t where t: "inst = Some a" "list_all full_item (items a)"
    by (auto elim!: denseE)
  have inv: "array_inv_at (total a) a" using assms(1) t(1) by (simp add: dense_inv)
  have "mod_loop (items a) (Str k) 0 = Inr None"
    using mod_loop_dense [OF t(2), of k 0] assms(2) t(1) by simp
  then show ?thesis
    using t by (simp add: kvs_array_mod_def used_inv [OF inv] KVS_ARRAY_SIZE_def)
qed

interpretation arr: kv_engine dense array_room "\<lambda>_. True" array_view
  "\<lambda>s k. kvs_array_get s (Str k)"
  "\<lambda>s k v. kvs_array_set malloc_ok s (Str k) (Str v)"
  "\<lambda>s k v. kvs_array_mod malloc_ok s (Str k) (Str v)"
  "\<lambda>s k. kvs_array_exist s (Str k)"
proof (unfold_locales, goal_cases)
  case (3 s k w v)
  then show ?case by (auto simp: dense_set_old)
qed (auto simp: dense_get dense_set_new dense_mod_old dense_mod_new kvs_array_exist_def)

section \<open>Deletion\<close>

lemma dense_del_at:
  assumes "dense (Some a)" "table a = Block t" "i < total a" "akey (t ! i) = Str k"
  shows "kvs_array_del (Some a) (Str k) =
    Inr (Some (a\<lparr>table := Block (t[i := \<lparr>akey = Null, avalue = Null\<rparr>]), total := total a - 1\<rparr>), 0)"
proof -
  from assms(1,2) have t: "length t = KVS_ARRAY_SIZE" "total a \<le> KVS_ARRAY_SIZE"
    "list_all full_item (take (total a) t)" "distinct (map akey (take (total a) t))"
    and its: "items a = take (total a) t"
    by (auto elim!: denseE)
  have inv: "array_inv_at (total a) a" using assms(1) by (rule dense_inv)
  have "Str k \<in> set (map akey (items a))"
    using its assms(3,4) t(1,2) by (force simp: in_set_conv_nth)
  then have "mod_loop (items a) (Str k) 0 \<noteq> Inr None"
    using mod_loop_dense [of "items a" k 0] view_None_iff [of "items a" k] its t by simp
  with mod_loop_total [OF used_inv(2) [OF inv], of k 0] obtain j where
    ml: "mod_loop (items a) (Str k) 0 = Inr (Some j)" by auto
  from mod_loop_Some [OF ml] its t have "j < total a" "akey (t ! j) = Str k" by auto
  with t assms(3,4) have "j = i"
    using nth_eq_iff_index_eq [OF t(4), of j i] by simp
  with ml its t assms(2,3) show ?thesis
    by (simp add: kvs_array_del_def used_inv [OF inv] del_loop_dense)
qed

text \<open>Deleting the entry in the last slot used removes exactly that key.\<close>

lemma dense_del_last:
  assumes "dense (Some a)" "table a = Block t" "total a = Suc n" "akey (t ! n) = Str k"
  shows "\<exists>a'. kvs_array_del (Some a) (Str k) = Inr (Some a', 0) \<and> dense (Some a')
    \<and> array_view (Some a') = (array_view (Some a))(k := None)"
proof -
  from assms(1,2) have t: "length t = KVS_ARRAY_SIZE" "total a \<le> KVS_ARRAY_SIZE"
    "list_all full_item (take (total a) t)" "distinct (map akey (take (total a) t))"
    and its: "items a = take (total a) t"
    by (auto elim!: denseE)
  let ?a = "a\<lparr>table := Block (t[n := \<lparr>akey = Null, avalue = Null\<rparr>]), total := total a - 1\<rparr>"
  have n: "n < length t" using t assms(3) by simp
  have items': "items ?a = take n t" using assms(3) by (simp add: items_def)
  have split: "take (total a) t = take n t @ [t ! n]"
    using n assms(3) by (simp add: take_Suc_conv_app_nth)
  have keys: "list_all full_item (take n t)" "distinct (map akey (take n t))"
    "Str k \<notin> set (map akey (take n t))" "is_Str (avalue (t ! n))"
    using t(3,4) assms(4) unfolding split by auto
  have "dense (Some ?a)" using t keys assms(3) items' by (simp add: dense_def)
  moreover have "map_of (pairs (take n t @ [t ! n])) = (map_of (pairs (take n t)))(k \<mapsto> str_of (avalue (t ! n)))"
    using keys(3) view_None_iff [OF keys(1), of k] assms(4)
    by (auto simp: pairs_def map_add_def fun_eq_iff split: option.splits)
  then have "array_view (Some ?a) = (array_view (Some a))(k := None)"
    using items' its split view_None_iff [OF keys(1), of k] keys(3) by (auto simp: fun_eq_iff)
  ultimately show ?thesis
    using dense_del_at [OF assms(1,2) _ assms(4)] assms(3) by auto
qed

text \<open>
  Deleting any other entry hides the entry of the last slot: it is no longer found, and deleting
  it runs into the empty slot.
\<close>

lemma dense_del_inner:
  assumes "dense (Some a)" "table a = Block t" "Suc i < total a" "akey (t ! i) = Str k"
    "akey (t ! (total a - 1)) = Str l"
  shows "\<exists>v a'. kvs_array_get (Some a) (Str l) = Inr (Str v) \<and> l \<noteq> k
    \<and> kvs_array_del (Some a) (Str k) = Inr (Some a', 0)
    \<and> kvs_array_get (Some a') (Str l) = Inr Null \<and> kvs_array_del (Some a') (Str l) = Inl Segv"
proof -
  from assms(1,2) have t: "length t = KVS_ARRAY_SIZE" "total a \<le> KVS_ARRAY_SIZE"
    "list_all full_item (take (total a) t)" "distinct (map akey (take (total a) t))"
    and its: "items a = take (total a) t"
    by (auto elim!: denseE)
  define n where "n = total a - 1"
  have n: "total a = Suc n" "i < n" "n < length t" using assms(3) t by (auto simp: n_def)
  let ?hole = "\<lparr>akey = Null, avalue = Null\<rparr>"
  let ?a = "a\<lparr>table := Block (t[i := ?hole]), total := total a - 1\<rparr>"
  have split: "take (total a) t = take n t @ [t ! n]"
    using n by (simp add: take_Suc_conv_app_nth)
  have l: "Str l \<notin> set (map akey (take n t))" "list_all full_item (take n t)"
    using t(3,4) assms(5) unfolding split by (auto simp: n_def)
  have "Str l \<in> set (map akey (items a))"
    using its split assms(5) by (auto simp: n_def)
  with view_None_iff [of "items a" l] its t obtain v where "array_view (Some a) l = Some v"
    by auto
  with dense_get [OF assms(1), of l] have get: "kvs_array_get (Some a) (Str l) = Inr (Str v)"
    by simp
  have lk: "l \<noteq> k"
    using l(1) assms(4) n by (metis in_set_conv_nth length_map length_take min.absorb4 nth_map nth_take)
  have del: "kvs_array_del (Some a) (Str k) = Inr (Some ?a, 0)"
    using dense_del_at [OF assms(1,2) _ assms(4)] assms(3) by simp
  have used': "used ?a = Inr (take n (t[i := ?hole]))"
    using n by (simp add: used_def n_def)
  have dec: "take n (t[i := ?hole]) = take i t @ ?hole # drop (Suc i) (take n t)"
    using n upd_conv_take_nth_drop [of i "take n t" ?hole] by (simp add: take_update_swap min_def)
  have pre: "list_all full_item (take i t)" "Str l \<notin> set (map akey (take i t))"
    using l n(2) by (auto simp: list_all_iff dest: in_set_takeD)
      (metis l(1) image_eqI imageE list.set_map set_take_subset_set_take less_imp_le_nat subsetD)+
  have "list_all (\<lambda>it. item_ok it \<and> akey it \<noteq> Str l) (take n (t[i := ?hole]))"
    using l n(2) by (auto simp: take_update_swap item_ok_def list_all_iff image_iff
        dest!: set_update_subset_insert [THEN subsetD] elim!: is_StrE)
  then have "get_loop (take n (t[i := ?hole])) (Str l) = Inr Null"
    by (rule get_loop_absent)
  then have "kvs_array_get (Some ?a) (Str l) = Inr Null"
    using used' by (simp add: kvs_array_get_def)
  moreover have "kvs_array_del (Some ?a) (Str l) = Inl Segv"
    using used' del_loop_hole [OF pre, of ?hole] by (simp add: kvs_array_del_def dec)
  ultimately show ?thesis using get lk del by blast
qed

text \<open>On an empty table \<^verbatim>\<open>kvs_array_del\<close> returns the loop index 0, the code of success.\<close>

lemma kvs_array_del_empty: "total a = 0 \<Longrightarrow> kvs_array_del (Some a) (Str k) = Inr (Some a, 0)"
  by (auto simp: kvs_array_del_def used_def split: block.split)

section \<open>Properties\<close>


definition demo_array :: kvs_array where
  "demo_array = \<lparr>table = Block (\<lparr>akey = Str ''a'', avalue = Str ''1''\<rparr>
       # \<lparr>akey = Str ''b'', avalue = Str ''2''\<rparr> # replicate 1022 \<lparr>akey = Wild, avalue = Wild\<rparr>),
     idx = 0, total = 2\<rparr>"

lemma demo_array_table: "table demo_array = Block (\<lparr>akey = Str ''a'', avalue = Str ''1''\<rparr>
       # \<lparr>akey = Str ''b'', avalue = Str ''2''\<rparr> # replicate 1022 \<lparr>akey = Wild, avalue = Wild\<rparr>)"
  by (simp add: demo_array_def)

lemma demo_array_dense: "dense (Some demo_array)"
  by (simp add: dense_def demo_array_def items_def KVS_ARRAY_SIZE_def)


text \<open>
  C14: without holes the array engine is a dictionary: a lookup returns the value bound to the key
  or NULL; setting an absent key (while fewer than 1024 are stored) binds it and returns 0,
  setting a present one changes nothing and returns 1; modifying rebinds a present key and
  returns 0, and returns a positive code for an absent one.
\<close>

theorem kvs_array_dictionary:
  assumes "dense inst"
  shows "kvs_array_get inst (Str k) = Inr (cstr_of (array_view inst k))
    \<and> (array_room inst \<longrightarrow> array_view inst k = None \<longrightarrow>
         (\<exists>inst'. kvs_array_set malloc_ok inst (Str k) (Str v) = Inr (inst', 0) \<and> dense inst'
            \<and> array_view inst' = (array_view inst)(k \<mapsto> v)))
    \<and> (array_room inst \<longrightarrow> array_view inst k \<noteq> None \<longrightarrow>
         kvs_array_set malloc_ok inst (Str k) (Str v) = Inr (inst, 1))
    \<and> (array_view inst k \<noteq> None \<longrightarrow>
         (\<exists>inst'. kvs_array_mod malloc_ok inst (Str k) (Str v) = Inr (inst', 0) \<and> dense inst'
            \<and> array_view inst' = (array_view inst)(k \<mapsto> v)))
    \<and> (array_view inst k = None \<longrightarrow>
         (\<exists>r. kvs_array_mod malloc_ok inst (Str k) (Str v) = Inr (inst, r) \<and> 0 < r))"
  using arr.get_view [OF assms, of k] arr.set_new [OF assms, of k v] dense_set_old [OF assms]
    arr.mod_old [OF assms, of k _ v] arr.mod_new [OF assms, of k v]
  by auto

theorem kvs_array_dictionary_witness:
  "dense (Some demo_array) \<and> kvs_array_get (Some demo_array) (Str ''b'') = Inr (Str ''2'')
    \<and> (\<exists>inst'. kvs_array_mod malloc_ok (Some demo_array) (Str ''b'') (Str ''3'') = Inr (inst', 0)
         \<and> array_view inst' ''b'' = Some ''3'')"
proof -
  have "array_view (Some demo_array) ''b'' = Some ''2''"
    by (simp add: items_def demo_array_def pairs_def)
  with kvs_array_dictionary [OF demo_array_dense, of "''b''" "''3''"] demo_array_dense
  show ?thesis by fastforce
qed

text \<open>
  Deleting the entry of the last slot used removes that key and no other, and leaves the
  table without holes.
\<close>

theorem kvs_array_del_last:
  assumes "dense (Some a)" "table a = Block t" "total a = Suc n" "akey (t ! n) = Str k"
  shows "\<exists>a'. kvs_array_del (Some a) (Str k) = Inr (Some a', 0) \<and> dense (Some a')
    \<and> array_view (Some a') = (array_view (Some a))(k := None)"
  using assms by (rule dense_del_last)

theorem kvs_array_del_last_witness:
  "\<exists>a'. kvs_array_del (Some demo_array) (Str ''b'') = Inr (Some a', 0)
    \<and> array_view (Some a') = (array_view (Some demo_array))(''b'' := None)"
  using kvs_array_del_last [OF demo_array_dense, of _ 1 "''b''"]
  by (auto simp: demo_array_def)

text \<open>
  C27: deleting any other entry makes the entry of the last slot used disappear as well: its key,
  which was stored and never deleted, is no longer found, and deleting that key dereferences NULL.
\<close>

theorem kvs_array_del_inner:
  assumes "dense (Some a)" "table a = Block t" "Suc i < total a" "akey (t ! i) = Str k"
    "akey (t ! (total a - 1)) = Str l"
  shows "\<exists>v a'. kvs_array_get (Some a) (Str l) = Inr (Str v) \<and> l \<noteq> k
    \<and> kvs_array_del (Some a) (Str k) = Inr (Some a', 0)
    \<and> kvs_array_get (Some a') (Str l) = Inr Null \<and> kvs_array_del (Some a') (Str l) = Inl Segv"
  using assms by (rule dense_del_inner)

theorem kvs_array_del_inner_witness:
  "\<exists>v a'. kvs_array_get (Some demo_array) (Str ''b'') = Inr (Str v) \<and> ''b'' \<noteq> ''a''
    \<and> kvs_array_del (Some demo_array) (Str ''a'') = Inr (Some a', 0)
    \<and> kvs_array_get (Some a') (Str ''b'') = Inr Null \<and> kvs_array_del (Some a') (Str ''b'') = Inl Segv"
  by (rule kvs_array_del_inner [OF demo_array_dense demo_array_table, of 0]) (simp_all add: demo_array_def)

end
