(* ===== verification/Kvs_Hash.thy ===== *)
theory Kvs_Hash
  imports C_Prelude
begin

text \<open>
  The hash engine, \<^verbatim>\<open>src/12_1/kvs_hash.c\<close>: 1024 chains of key/value nodes, a key's chain being
  the sum of its bytes modulo 1024. A chain is the list of its nodes, first node first; a slot of
  the freshly allocated, uninitialised table that was never written is \<open>WildSlot\<close>. Under the
  invariant \<open>hash_inv\<close> the engine is a dictionary with deletion (interpretation \<open>hsh\<close> of
  \<open>kv_engine_del\<close>) for the keys whose byte sum is not negative.
\<close>

section \<open>Data\<close>

record hashnode =
  hkey :: cstr
  hvalue :: cstr

datatype slot = WildSlot | Chain "hashnode list"

record hashtable =
  nodes :: "slot block"
  max_slots :: int
  hcount :: int

definition MAX_TABLE_SIZE :: int where
  "MAX_TABLE_SIZE = 1024"

section \<open>Operations\<close>

text \<open>The loop of \<^verbatim>\<open>_hash\<close> adds the bytes as signed characters.\<close>

fun hash_sum :: "string \<Rightarrow> int \<Rightarrow> int" where
  "hash_sum [] s = s"
| "hash_sum (c # cs) s = hash_sum cs (s + schar c)"

definition hash_idx :: "cstr \<Rightarrow> int \<Rightarrow> int res" where
  "hash_idx key sz =
     (if key = Null then Inr (-1)
      else andthen (deref key) (\<lambda>k. Inr (c_rem (hash_sum k 0) sz)))"

definition create_node :: "mallocs \<Rightarrow> cstr \<Rightarrow> cstr \<Rightarrow> hashnode option res" where
  "create_node m key value =
     (if \<not> m 0 then Inr None
      else andthen (deref key) (\<lambda>k.
        if \<not> m 1 then Inr None
        else andthen (deref value) (\<lambda>v.
          if \<not> m 2 then Inr None
          else Inr (Some \<lparr>hkey = Str k, hvalue = Str v\<rparr>))))"

definition kvs_hash_create ::
  "mallocs \<Rightarrow> (nat \<Rightarrow> slot) \<Rightarrow> hashtable option \<Rightarrow> hashtable option \<times> int" where
  "kvs_hash_create m junk hash =
     (case hash of None \<Rightarrow> (None, -1)
      | Some h \<Rightarrow>
          if \<not> m 0 then (Some (h\<lparr>nodes := NullP\<rparr>), -1)
          else (Some (h\<lparr>nodes := Block (map junk [0..<nat MAX_TABLE_SIZE]),
                        max_slots := MAX_TABLE_SIZE, hcount := 0\<rparr>), 0))"

text \<open>
  Destroying walks \<^verbatim>\<open>max_slots\<close> chains, frees every node (not its key and value) and then the
  table; the structure keeps the freed pointer.
\<close>

definition kvs_hash_destory :: "hashtable option \<Rightarrow> hashtable option res" where
  "kvs_hash_destory hash =
     (case hash of None \<Rightarrow> Inr None
      | Some h \<Rightarrow>
          (case nodes h of
             Block ss \<Rightarrow>
               if WildSlot \<in> set (take (nat (max_slots h)) ss) then Inl Segv
               else if int (length ss) < max_slots h then Inl OutOfBounds
               else Inr (Some (h\<lparr>nodes := Dangling\<rparr>))
           | NullP \<Rightarrow> if 0 < max_slots h then Inl Segv else Inr (Some h)
           | Dangling \<Rightarrow> Inl Segv))"

definition slot_at :: "hashtable \<Rightarrow> int \<Rightarrow> hashnode list res" where
  "slot_at h i =
     (case nodes h of
        Block ss \<Rightarrow>
          if 0 \<le> i \<and> i < int (length ss)
          then (case ss ! nat i of Chain c \<Rightarrow> Inr c | WildSlot \<Rightarrow> Inl Segv)
          else Inl OutOfBounds
      | _ \<Rightarrow> Inl Segv)"

definition set_slot :: "hashtable \<Rightarrow> int \<Rightarrow> hashnode list \<Rightarrow> hashtable" where
  "set_slot h i c =
     (case nodes h of Block ss \<Rightarrow> h\<lparr>nodes := Block (ss[nat i := Chain c])\<rparr> | _ \<Rightarrow> h)"

text \<open>The position of the first node with the key: the search loop of every operation.\<close>

fun chain_find :: "hashnode list \<Rightarrow> cstr \<Rightarrow> nat \<Rightarrow> nat option res" where
  "chain_find [] key i = Inr None"
| "chain_find (n # ns) key i =
     andthen (strcmp (hkey n) key)
       (\<lambda>c. if c = 0 then Inr (Some i) else chain_find ns key (Suc i))"

definition kvs_hash_set ::
  "mallocs \<Rightarrow> hashtable option \<Rightarrow> cstr \<Rightarrow> cstr \<Rightarrow> (hashtable option \<times> int) res" where
  "kvs_hash_set m hash key value =
     (case hash of None \<Rightarrow> Inr (None, -1)
      | Some h \<Rightarrow>
          if key = Null \<or> value = Null then Inr (hash, -1)
          else andthen (hash_idx key MAX_TABLE_SIZE) (\<lambda>idx.
            andthen (slot_at h idx) (\<lambda>c.
              andthen (chain_find c key 0) (\<lambda>r.
                case r of
                  Some _ \<Rightarrow> Inr (hash, 1)
                | None \<Rightarrow>
                    andthen (create_node m key value) (\<lambda>nn.
                      case nn of
                        None \<Rightarrow> Inl Segv
                      | Some n \<Rightarrow>
                          Inr (Some ((set_slot h idx (n # c))\<lparr>hcount := hcount h + 1\<rparr>), 0))))))"

definition kvs_hash_get :: "hashtable option \<Rightarrow> cstr \<Rightarrow> cstr res" where
  "kvs_hash_get hash key =
     (case hash of None \<Rightarrow> Inr Null
      | Some h \<Rightarrow>
          if key = Null then Inr Null
          else andthen (hash_idx key MAX_TABLE_SIZE) (\<lambda>idx.
            andthen (slot_at h idx) (\<lambda>c.
              andthen (chain_find c key 0) (\<lambda>r.
                case r of Some i \<Rightarrow> Inr (hvalue (c ! i)) | None \<Rightarrow> Inr Null))))"

text \<open>There is no test for a NULL value: \<^verbatim>\<open>strlen(value)\<close> dereferences it.\<close>

definition kvs_hash_mod ::
  "mallocs \<Rightarrow> hashtable option \<Rightarrow> cstr \<Rightarrow> cstr \<Rightarrow> (hashtable option \<times> int) res" where
  "kvs_hash_mod m hash key value =
     (case hash of None \<Rightarrow> Inr (None, -1)
      | Some h \<Rightarrow>
          if key = Null then Inr (hash, -1)
          else andthen (hash_idx key MAX_TABLE_SIZE) (\<lambda>idx.
            andthen (slot_at h idx) (\<lambda>c.
              andthen (chain_find c key 0) (\<lambda>r.
                case r of
                  None \<Rightarrow> Inr (hash, 1)
                | Some i \<Rightarrow>
                    andthen (deref value) (\<lambda>v.
                      if m 0
                      then Inr (Some (set_slot h idx (c[i := (c ! i)\<lparr>hvalue := Str v\<rparr>])), 0)
                      else Inr (Some (set_slot h idx (c[i := (c ! i)\<lparr>hvalue := Wild\<rparr>])), -2))))))"

definition kvs_hash_count :: "hashtable \<Rightarrow> int" where
  "kvs_hash_count h = hcount h"

text \<open>
  The head of the chain is unlinked by storing its successor in the table, any later node by
  redirecting its predecessor; either way the first node with the key is dropped.
\<close>

definition kvs_hash_del :: "hashtable option \<Rightarrow> cstr \<Rightarrow> (hashtable option \<times> int) res" where
  "kvs_hash_del hash key =
     (case hash of None \<Rightarrow> Inr (None, -2)
      | Some h \<Rightarrow>
          if key = Null then Inr (hash, -2)
          else andthen (hash_idx key MAX_TABLE_SIZE) (\<lambda>idx.
            andthen (slot_at h idx) (\<lambda>c.
              case c of
                [] \<Rightarrow> Inr (hash, -1)
              | head # rest \<Rightarrow>
                  andthen (strcmp (hkey head) key) (\<lambda>r0.
                    if r0 = 0 then
                      Inr (Some ((set_slot h idx rest)\<lparr>hcount := hcount h - 1\<rparr>), 0)
                    else
                      andthen (chain_find rest key 0) (\<lambda>r.
                        case r of
                          None \<Rightarrow> Inr (hash, -1)
                        | Some i \<Rightarrow>
                            Inr (Some ((set_slot h idx (head # take i rest @ drop (Suc i) rest))
                                   \<lparr>hcount := hcount h - 1\<rparr>), 0))))))"

definition kvs_hash_exist :: "hashtable option \<Rightarrow> cstr \<Rightarrow> int res" where
  "kvs_hash_exist hash key =
     andthen (kvs_hash_get hash key) (\<lambda>value. Inr (if value = Null then 1 else 0))"

section \<open>Invariant and abstraction\<close>

abbreviation hash_index :: "string \<Rightarrow> int" where
  "hash_index k \<equiv> c_rem (hash_sum k 0) MAX_TABLE_SIZE"

definition okkey_hash :: "string \<Rightarrow> bool" where
  "okkey_hash k \<longleftrightarrow> 0 \<le> hash_index k"

fun cstr_string :: "cstr \<Rightarrow> string" where
  "cstr_string (Str s) = s"
| "cstr_string _ = []"

definition hpairs :: "hashnode list \<Rightarrow> (string \<times> string) list" where
  "hpairs c = map (\<lambda>n. (cstr_string (hkey n), cstr_string (hvalue n))) c"

abbreviation full_node :: "hashnode \<Rightarrow> bool" where
  "full_node n \<equiv> is_Str (hkey n) \<and> is_Str (hvalue n)"

definition chain_ok :: "nat \<Rightarrow> hashnode list \<Rightarrow> bool" where
  "chain_ok i c \<longleftrightarrow> list_all full_node c \<and> distinct (map fst (hpairs c))
     \<and> list_all (\<lambda>k. hash_index k = int i) (map fst (hpairs c))"

fun slot_ok :: "nat \<Rightarrow> slot \<Rightarrow> bool" where
  "slot_ok i WildSlot = False"
| "slot_ok i (Chain c) = chain_ok i c"

fun slot_len :: "slot \<Rightarrow> nat" where
  "slot_len WildSlot = 0"
| "slot_len (Chain c) = length c"

definition hash_inv :: "hashtable option \<Rightarrow> bool" where
  "hash_inv hash \<longleftrightarrow> (case hash of None \<Rightarrow> False
     | Some h \<Rightarrow> (case nodes h of
         Block ss \<Rightarrow> length ss = nat MAX_TABLE_SIZE \<and> (\<forall>i < length ss. slot_ok i (ss ! i))
           \<and> hcount h = int (sum_list (map slot_len ss)) \<and> max_slots h = MAX_TABLE_SIZE
       | _ \<Rightarrow> False))"

definition chain_at :: "hashtable \<Rightarrow> string \<Rightarrow> hashnode list" where
  "chain_at h k = (case slot_at h (hash_index k) of Inr c \<Rightarrow> c | Inl _ \<Rightarrow> [])"

definition hash_view :: "hashtable option \<Rightarrow> string \<Rightarrow> string option" where
  "hash_view hash k = (case hash of None \<Rightarrow> None | Some h \<Rightarrow> map_of (hpairs (chain_at h k)) k)"

section \<open>Hash values\<close>

lemma hash_sum_acc: "hash_sum k s = s + hash_sum k 0"
proof (induction k arbitrary: s)
  case Nil
  then show ?case by simp
next
  case (Cons c cs)
  from Cons [of "s + schar c"] Cons [of "schar c"] show ?case by simp
qed

lemma hash_sum_bounds:
  "- 128 * int (length k) \<le> hash_sum k 0 \<and> hash_sum k 0 \<le> 127 * int (length k)"
proof (induction k)
  case Nil
  then show ?case by simp
next
  case (Cons c cs)
  then show ?case
    using schar_bounds [of c] hash_sum_acc [of cs "schar c"] by (simp add: algebra_simps)
qed

lemma schar_ascii: "(of_char c :: nat) < 128 \<Longrightarrow> 0 \<le> schar c"
  by (simp add: schar_def Let_def)

lemma hash_sum_ascii:
  "list_all (\<lambda>c. (of_char c :: nat) < 128) k \<Longrightarrow> 0 \<le> hash_sum k 0"
proof (induction k)
  case Nil
  then show ?case by simp
next
  case (Cons c cs)
  then show ?case
    using schar_ascii [of c] hash_sum_acc [of cs "schar c"] by simp
qed

lemma hash_index_bounds: "- 1024 < hash_index k" "hash_index k < 1024"
  using c_rem_bounds [of MAX_TABLE_SIZE "hash_sum k 0"] by (simp_all add: MAX_TABLE_SIZE_def)

lemma okkey_ascii: "list_all (\<lambda>c. (of_char c :: nat) < 128) k \<Longrightarrow> okkey_hash k"
  by (simp add: okkey_hash_def c_rem_nonneg hash_sum_ascii MAX_TABLE_SIZE_def)

section \<open>Chains\<close>


lemma chain_find_Some:
  "chain_find c key i = Inr (Some j) \<Longrightarrow>
     i \<le> j \<and> j < i + length c \<and> hkey (c ! (j - i)) = key \<and> is_Str key"
proof (induction c arbitrary: i)
  case Nil
  then show ?case by simp
next
  case (Cons n ns)
  show ?case
  proof (cases "strcmp (hkey n) key = Inr 0")
    case True
    with Cons.prems show ?thesis
      by (cases "hkey n"; cases key) (auto simp: strcmp_def)
  next
    case False
    with Cons.prems have "chain_find ns key (Suc i) = Inr (Some j)"
      by (auto simp: andthen_eq_Inr split: if_splits)
    from Cons.IH [OF this] show ?thesis
      by (auto simp: nth_Cons' Suc_diff_Suc)
  qed
qed

lemma chain_find_total: "list_all full_node c \<Longrightarrow> \<exists>r. chain_find c (Str k) i = Inr r"
  by (induction c arbitrary: i) (auto elim!: is_StrE)

lemma chain_find_None:
  "list_all full_node c \<Longrightarrow> chain_find c (Str k) i = Inr None \<longleftrightarrow> map_of (hpairs c) k = None"
  by (induction c arbitrary: i) (auto simp: hpairs_def elim!: is_StrE)

text \<open>What the search gives on a well-formed chain, in terms of its bindings.\<close>

lemma chain_find_cases:
  assumes "list_all full_node c"
  obtains (absent) "chain_find c (Str k) 0 = Inr None" "map_of (hpairs c) k = None"
  | (present) i v where "chain_find c (Str k) 0 = Inr (Some i)" "i < length c"
      "hpairs c ! i = (k, v)" "hvalue (c ! i) = Str v" "hkey (c ! i) = Str k"
proof (cases "chain_find c (Str k) 0 = Inr None")
  case True
  with chain_find_None [OF assms, of k 0] absent show ?thesis by simp
next
  case False
  with chain_find_total [OF assms, of k 0] obtain i where
    f: "chain_find c (Str k) 0 = Inr (Some i)" by auto
  from chain_find_Some [OF f] have i: "i < length c" "hkey (c ! i) = Str k" by auto
  from assms i(1) have "is_Str (hvalue (c ! i))" by (simp add: list_all_length)
  then obtain v where "hvalue (c ! i) = Str v" by (rule is_StrE)
  with f i present show ?thesis by (simp add: hpairs_def)
qed

lemma length_hpairs [simp]: "length (hpairs c) = length c"
  by (simp add: hpairs_def)

lemma hpairs_Cons [simp]:
  "hpairs (n # c) = (cstr_string (hkey n), cstr_string (hvalue n)) # hpairs c"
  by (simp add: hpairs_def)

lemma chain_ok_Cons:
  assumes "chain_ok i c" "map_of (hpairs c) k = None" "hash_index k = int i"
  shows "chain_ok i (\<lparr>hkey = Str k, hvalue = Str v\<rparr> # c)"
  using assms by (auto simp: chain_ok_def map_of_None_fst)

lemma chain_ok_update:
  assumes "chain_ok i c" "j < length c" "hkey (c ! j) = Str k"
  shows "chain_ok i (c[j := (c ! j)\<lparr>hvalue := Str v\<rparr>])"
    and "hpairs (c[j := (c ! j)\<lparr>hvalue := Str v\<rparr>]) = (hpairs c)[j := (k, v)]"
proof -
  show p: "hpairs (c[j := (c ! j)\<lparr>hvalue := Str v\<rparr>]) = (hpairs c)[j := (k, v)]"
    using assms by (simp add: hpairs_def map_update)
  have "fst (hpairs c ! j) = k" using assms by (simp add: hpairs_def)
  then have "map fst ((hpairs c)[j := (k, v)]) = map fst (hpairs c)"
    using assms(2) by (simp add: map_update list_update_same_conv)
  moreover have "list_all full_node (c[j := (c ! j)\<lparr>hvalue := Str v\<rparr>])"
    using assms unfolding chain_ok_def list_all_length by (auto simp: nth_list_update)
  ultimately show "chain_ok i (c[j := (c ! j)\<lparr>hvalue := Str v\<rparr>])"
    using assms(1) by (simp add: chain_ok_def p)
qed

lemma hpairs_append [simp]: "hpairs (c @ c') = hpairs c @ hpairs c'"
  by (simp add: hpairs_def)

lemma chain_ok_remove:
  assumes "chain_ok i (l @ n # r)" "hkey n = Str k"
  shows "chain_ok i (l @ r)"
    and "map_of (hpairs (l @ r)) = (map_of (hpairs (l @ n # r)))(k := None)"
proof -
  have k: "map_of (hpairs l) k = None" "map_of (hpairs r) k = None"
    using assms by (auto simp: chain_ok_def map_of_None_fst)
  show "chain_ok i (l @ r)"
    using assms by (auto simp: chain_ok_def)
  show "map_of (hpairs (l @ r)) = (map_of (hpairs (l @ n # r)))(k := None)"
    using k assms(2) by (auto simp: fun_eq_iff map_add_def split: option.splits)
qed

section \<open>The table\<close>

lemma hash_invE:
  assumes "hash_inv hash"
  obtains h ss where "hash = Some h" "nodes h = Block ss" "length ss = 1024"
    "\<And>i. i < 1024 \<Longrightarrow> slot_ok i (ss ! i)" "hcount h = int (sum_list (map slot_len ss))"
    "max_slots h = MAX_TABLE_SIZE"
  using assms by (auto simp: hash_inv_def MAX_TABLE_SIZE_def split: option.splits block.splits)

lemma chain_at_inv:
  assumes "hash_inv (Some h)" "okkey_hash k"
  shows "slot_at h (hash_index k) = Inr (chain_at h k)"
    and "chain_ok (nat (hash_index k)) (chain_at h k)"
proof -
  from assms(1) obtain ss where ss: "nodes h = Block ss" "length ss = 1024"
    "\<And>i. i < 1024 \<Longrightarrow> slot_ok i (ss ! i)" by (auto elim!: hash_invE)
  let ?i = "nat (hash_index k)"
  have i: "0 \<le> hash_index k" "?i < 1024" "hash_index k < 1024"
    using assms(2) hash_index_bounds [of k] by (auto simp: okkey_hash_def)
  from ss(3) [OF i(2)] obtain c where c: "ss ! ?i = Chain c" "chain_ok ?i c"
    by (cases "ss ! ?i") auto
  with ss i show "slot_at h (hash_index k) = Inr (chain_at h k)"
    "chain_ok ?i (chain_at h k)"
    by (simp_all add: slot_at_def chain_at_def)
qed

lemma sum_list_update_slot:
  assumes "i < length ss" "ss ! i = Chain c"
  shows "int (sum_list (map slot_len (ss[i := Chain c'])))
    = int (sum_list (map slot_len ss)) + int (length c') - int (length c)"
proof -
  have "length c \<le> sum_list (map slot_len ss)"
    using elem_le_sum_list [of i "map slot_len ss"] assms by simp
  with assms show ?thesis by (simp add: map_update sum_list_update)
qed

text \<open>Replacing the chain of a key by a well-formed one keeps the invariant.\<close>

lemma set_slot_inv:
  assumes inv: "hash_inv (Some h)" and ok: "okkey_hash k"
    and c': "chain_ok (nat (hash_index k)) c'"
    and cnt: "d = hcount h + int (length c') - int (length (chain_at h k))"
  shows "hash_inv (Some ((set_slot h (hash_index k) c')\<lparr>hcount := d\<rparr>))"
    and "chain_at ((set_slot h (hash_index k) c')\<lparr>hcount := d\<rparr>) x =
      (if hash_index x = hash_index k then c' else chain_at h x)"
proof -
  from inv obtain ss where ss: "nodes h = Block ss" "length ss = 1024"
    "\<And>i. i < 1024 \<Longrightarrow> slot_ok i (ss ! i)" "hcount h = int (sum_list (map slot_len ss))"
    "max_slots h = MAX_TABLE_SIZE"
    by (auto elim!: hash_invE)
  let ?i = "nat (hash_index k)"
  have i: "0 \<le> hash_index k" "?i < 1024" "hash_index k < 1024"
    using ok hash_index_bounds [of k] by (auto simp: okkey_hash_def)
  have at: "ss ! ?i = Chain (chain_at h k)"
    using chain_at_inv(1) [OF inv ok] ss i by (auto simp: slot_at_def split: slot.splits)
  have "d = int (sum_list (map slot_len (ss[?i := Chain c'])))"
    using sum_list_update_slot [OF _ at, of c'] i ss cnt by simp
  moreover have "slot_ok j (ss[?i := Chain c'] ! j)" if "j < 1024" for j
    using that ss c' by (cases "j = ?i") auto
  ultimately show "hash_inv (Some ((set_slot h (hash_index k) c')\<lparr>hcount := d\<rparr>))"
    using ss by (simp add: hash_inv_def set_slot_def MAX_TABLE_SIZE_def)
  show "chain_at ((set_slot h (hash_index k) c')\<lparr>hcount := d\<rparr>) x =
      (if hash_index x = hash_index k then c' else chain_at h x)"
  proof (cases "0 \<le> hash_index x")
    case True
    then show ?thesis
      using ss i hash_index_bounds [of x]
      by (auto simp: chain_at_def slot_at_def set_slot_def nth_list_update nat_eq_iff)
  next
    case False
    then show ?thesis using ss i by (auto simp: chain_at_def slot_at_def set_slot_def)
  qed
qed

lemma hash_view_Some [simp]: "hash_view (Some h) k = map_of (hpairs (chain_at h k)) k"
  by (simp add: hash_view_def)

lemma set_slot_view:
  assumes "hash_inv (Some h)" "okkey_hash k" "chain_ok (nat (hash_index k)) c'"
    "d = hcount h + int (length c') - int (length (chain_at h k))"
    "map_of (hpairs c') = (map_of (hpairs (chain_at h k)))(k := w)"
  shows "hash_view (Some ((set_slot h (hash_index k) c')\<lparr>hcount := d\<rparr>)) = (hash_view (Some h))(k := w)"
proof
  fix x
  have "chain_at h x = chain_at h k" if "hash_index x = hash_index k"
    using that by (simp add: chain_at_def)
  then show "hash_view (Some ((set_slot h (hash_index k) c')\<lparr>hcount := d\<rparr>)) x = ((hash_view (Some h))(k := w)) x"
    using set_slot_inv(2) [OF assms(1-4)] assms(5) by auto
qed

section \<open>The hash table is a dictionary\<close>

lemma hash_idx_Str [simp]: "hash_idx (Str k) MAX_TABLE_SIZE = Inr (hash_index k)"
  by (simp add: hash_idx_def)

lemma chain_okD: "chain_ok i c \<Longrightarrow> list_all full_node c" "chain_ok i c \<Longrightarrow> distinct (map fst (hpairs c))"
  by (simp_all add: chain_ok_def)

lemma hash_get:
  assumes "hash_inv (Some h)" "okkey_hash k"
  shows "kvs_hash_get (Some h) (Str k) = Inr (cstr_of (hash_view (Some h) k))"
proof -
  note c = chain_at_inv [OF assms]
  from chain_okD(1) [OF c(2)] show ?thesis
  proof (cases rule: chain_find_cases [where k = k])
    case absent
    with c show ?thesis by (simp add: kvs_hash_get_def)
  next
    case (present i v)
    then have "map_of (hpairs (chain_at h k)) k = Some v"
      using map_of_is_SomeI [OF chain_okD(2) [OF c(2)], of k v]
      by (metis length_hpairs nth_mem)
    with present c show ?thesis by (simp add: kvs_hash_get_def)
  qed
qed

lemma hash_set_new:
  assumes "hash_inv (Some h)" "okkey_hash k" "hash_view (Some h) k = None"
  shows "\<exists>hash'. kvs_hash_set malloc_ok (Some h) (Str k) (Str v) = Inr (hash', 0) \<and> hash_inv hash'
    \<and> hash_view hash' = (hash_view (Some h))(k \<mapsto> v)"
proof -
  note c = chain_at_inv [OF assms(1,2)]
  let ?c = "chain_at h k" and ?n = "\<lparr>hkey = Str k, hvalue = Str v\<rparr>"
  have new: "map_of (hpairs ?c) k = None" using assms(3) by simp
  have find: "chain_find ?c (Str k) 0 = Inr None"
    using chain_find_None [OF chain_okD(1) [OF c(2)], of k 0] new by simp
  have ok': "chain_ok (nat (hash_index k)) (?n # ?c)"
    using chain_ok_Cons [OF c(2) new] assms(2) by (simp add: okkey_hash_def)
  have ret: "kvs_hash_set malloc_ok (Some h) (Str k) (Str v) =
      Inr (Some ((set_slot h (hash_index k) (?n # ?c))\<lparr>hcount := hcount h + 1\<rparr>), 0)"
    using c find by (simp add: kvs_hash_set_def create_node_def)
  have d: "hcount h + 1 = hcount h + int (length (?n # ?c)) - int (length ?c)" by simp
  have "map_of (hpairs (?n # ?c)) = (map_of (hpairs ?c))(k := Some v)" by simp
  then show ?thesis
    using ret set_slot_inv(1) [OF assms(1,2) ok' d] set_slot_view [OF assms(1,2) ok' d] by blast
qed

lemma hash_set_old:
  assumes "hash_inv (Some h)" "okkey_hash k" "hash_view (Some h) k = Some w"
  shows "kvs_hash_set m (Some h) (Str k) (Str v) = Inr (Some h, 1)"
proof -
  note c = chain_at_inv [OF assms(1,2)]
  from chain_okD(1) [OF c(2)] show ?thesis
    by (cases rule: chain_find_cases [where k = k]) (use c assms(3) in \<open>simp_all add: kvs_hash_set_def\<close>)
qed

lemma hash_mod_old:
  assumes "hash_inv (Some h)" "okkey_hash k" "hash_view (Some h) k = Some w"
  shows "\<exists>hash'. kvs_hash_mod malloc_ok (Some h) (Str k) (Str v) = Inr (hash', 0) \<and> hash_inv hash'
    \<and> hash_view hash' = (hash_view (Some h))(k \<mapsto> v)"
proof -
  note c = chain_at_inv [OF assms(1,2)]
  let ?c = "chain_at h k"
  from chain_okD(1) [OF c(2)] show ?thesis
  proof (cases rule: chain_find_cases [where k = k])
    case absent
    with assms(3) show ?thesis by simp
  next
    case (present i x)
    let ?c' = "?c[i := (?c ! i)\<lparr>hvalue := Str v\<rparr>]"
    note upd = chain_ok_update [OF c(2) present(2,5), of v]
    have ret: "kvs_hash_mod malloc_ok (Some h) (Str k) (Str v) = Inr (Some (set_slot h (hash_index k) ?c'), 0)"
      using c present by (simp add: kvs_hash_mod_def)
    have d: "hcount h = hcount h + int (length ?c') - int (length ?c)" by simp
    have same: "(set_slot h (hash_index k) ?c')\<lparr>hcount := hcount h\<rparr> = set_slot h (hash_index k) ?c'"
      by (auto simp: set_slot_def split: block.split)
    have "map_of (hpairs ?c') = (map_of (hpairs ?c))(k := Some v)"
      using map_of_update_nth [of i "hpairs ?c" k v] chain_okD(2) [OF c(2)] present(2,3)
      by (simp add: upd(2))
    then show ?thesis
      using ret set_slot_inv(1) [OF assms(1,2) upd(1) d] set_slot_view [OF assms(1,2) upd(1) d]
      unfolding same by blast
  qed
qed

lemma hash_mod_new:
  assumes "hash_inv (Some h)" "okkey_hash k" "hash_view (Some h) k = None"
  shows "kvs_hash_mod m (Some h) (Str k) value = Inr (Some h, 1)"
  using chain_at_inv [OF assms(1,2)] chain_find_None [of "chain_at h k" k 0] assms(3)
  by (simp add: kvs_hash_mod_def chain_okD)

lemma hash_del_new:
  assumes "hash_inv (Some h)" "okkey_hash k" "hash_view (Some h) k = None"
  shows "kvs_hash_del (Some h) (Str k) = Inr (Some h, -1)"
proof -
  note c = chain_at_inv [OF assms(1,2)]
  show ?thesis
  proof (cases "chain_at h k")
    case Nil
    with c show ?thesis by (simp add: kvs_hash_del_def)
  next
    case (Cons n ns)
    with c chain_okD(1) [OF c(2)] assms(3) have "\<exists>a. hkey n = Str a \<and> a \<noteq> k" "list_all full_node ns"
      "map_of (hpairs ns) k = None"
      by (auto elim!: is_StrE split: if_splits)
    with c Cons chain_find_None [of ns k 0] show ?thesis
      by (auto simp: kvs_hash_del_def)
  qed
qed

text \<open>Deleting a present key drops its node, wherever in the chain it is.\<close>

lemma hash_del_node:
  assumes "hash_inv (Some h)" "okkey_hash k" "hash_view (Some h) k = Some w"
  shows "\<exists>l n r. chain_at h k = l @ n # r \<and> hkey n = Str k
    \<and> kvs_hash_del (Some h) (Str k) =
        Inr (Some ((set_slot h (hash_index k) (l @ r))\<lparr>hcount := hcount h - 1\<rparr>), 0)"
proof -
  note c = chain_at_inv [OF assms(1,2)]
  obtain n ns where cs: "chain_at h k = n # ns"
    using assms(3) by (cases "chain_at h k") (auto simp: hpairs_def)
  with chain_okD(1) [OF c(2)] obtain a where a: "hkey n = Str a" "list_all full_node ns"
    by (auto elim!: is_StrE)
  show ?thesis
  proof (cases "a = k")
    case True
    with c cs a have "kvs_hash_del (Some h) (Str k) =
        Inr (Some ((set_slot h (hash_index k) ([] @ ns))\<lparr>hcount := hcount h - 1\<rparr>), 0)"
      by (simp add: kvs_hash_del_def)
    with cs a True show ?thesis by (metis append_Nil)
  next
    case False
    with assms(3) cs a have "map_of (hpairs ns) k \<noteq> None" by simp
    from a(2) obtain i where i: "chain_find ns (Str k) 0 = Inr (Some i)" "i < length ns" "hkey (ns ! i) = Str k"
      by (cases rule: chain_find_cases [where k = k]) (use \<open>map_of (hpairs ns) k \<noteq> None\<close> in auto)
    have "kvs_hash_del (Some h) (Str k) = Inr (Some ((set_slot h (hash_index k)
        ((n # take i ns) @ drop (Suc i) ns))\<lparr>hcount := hcount h - 1\<rparr>), 0)"
      using c cs a False i by (simp add: kvs_hash_del_def)
    moreover have "chain_at h k = (n # take i ns) @ ns ! i # drop (Suc i) ns"
      using cs id_take_nth_drop [OF i(2)] by simp
    ultimately show ?thesis using i(3) by metis
  qed
qed

lemma hash_del_old:
  assumes "hash_inv (Some h)" "okkey_hash k" "hash_view (Some h) k = Some w"
  shows "\<exists>hash'. kvs_hash_del (Some h) (Str k) = Inr (hash', 0) \<and> hash_inv hash'
    \<and> hash_view hash' = (hash_view (Some h))(k := None)"
proof -
  note c = chain_at_inv [OF assms(1,2)]
  obtain l n r where lnr: "chain_at h k = l @ n # r" "hkey n = Str k"
    and ret: "kvs_hash_del (Some h) (Str k) =
        Inr (Some ((set_slot h (hash_index k) (l @ r))\<lparr>hcount := hcount h - 1\<rparr>), 0)"
    using hash_del_node [OF assms] by blast
  note rm = chain_ok_remove [OF c(2) [unfolded lnr(1)] lnr(2)]
  have d: "hcount h - 1 = hcount h + int (length (l @ r)) - int (length (chain_at h k))"
    by (simp add: lnr)
  show ?thesis
    using ret set_slot_inv(1) [OF assms(1,2) rm(1) d] set_slot_view [OF assms(1,2) rm(1) d, of None]
      rm(2) lnr(1) by auto
qed

lemma hash_inv_None [simp]: "\<not> hash_inv None"
  by (simp add: hash_inv_def)

interpretation hsh: kv_engine_del hash_inv "\<lambda>_. True" okkey_hash hash_view
  "\<lambda>s k. kvs_hash_get s (Str k)"
  "\<lambda>s k v. kvs_hash_set malloc_ok s (Str k) (Str v)"
  "\<lambda>s k v. kvs_hash_mod malloc_ok s (Str k) (Str v)"
  "\<lambda>s k. kvs_hash_exist s (Str k)"
  "\<lambda>s k. kvs_hash_del s (Str k)"
proof (unfold_locales, goal_cases)
  case (1 s k)
  then show ?case by (cases s) (auto simp: hash_get)
next
  case (2 s k v)
  then show ?case by (cases s) (auto simp: hash_set_new)
next
  case (3 s k w v)
  then show ?case by (cases s) (auto simp: hash_set_old)
next
  case (4 s k w v)
  then show ?case by (cases s) (auto simp: hash_mod_old)
next
  case (5 s k v)
  then show ?case by (cases s) (auto simp: hash_mod_new)
next
  case (6 s k)
  then show ?case by (cases s) (auto simp: kvs_hash_exist_def hash_get)
next
  case (7 s k w)
  then show ?case by (cases s) (auto simp: hash_del_old)
next
  case (8 s k)
  then show ?case by (cases s) (auto simp: hash_del_new)
qed

section \<open>Creation, counting and the keys the table cannot hold\<close>

text \<open>
  \<^verbatim>\<open>kvs_hash_create\<close> does not clear the table it allocates: the invariant holds after it when the
  allocator happens to hand out zeroed memory.
\<close>

lemma kvs_hash_create_zeroed:
  "\<exists>h'. kvs_hash_create malloc_ok (\<lambda>_. Chain []) (Some h) = (Some h', 0) \<and> hash_inv (Some h')
    \<and> hash_view (Some h') = Map.empty"
proof -
  let ?h = "h\<lparr>nodes := Block (map (\<lambda>_. Chain []) [0..<1024]), max_slots := MAX_TABLE_SIZE, hcount := 0\<rparr>"
  have z: "sum_list (map slot_len (map (\<lambda>_. Chain []) [0..<1024])) = 0"
    by (simp add: comp_def)
  have "hash_inv (Some ?h)"
    using z by (simp add: hash_inv_def MAX_TABLE_SIZE_def chain_ok_def hpairs_def)
  moreover have "chain_at ?h k = []" for k
    by (auto simp: chain_at_def slot_at_def)
  ultimately show ?thesis
    by (auto simp: kvs_hash_create_def MAX_TABLE_SIZE_def hpairs_def)
qed

lemma card_dom_view:
  assumes "hash_inv (Some h)"
  shows "int (card (dom (hash_view (Some h)))) = hcount h"
proof -
  from assms obtain ss where ss: "nodes h = Block ss" "length ss = 1024"
    "\<And>i. i < 1024 \<Longrightarrow> slot_ok i (ss ! i)" "hcount h = int (sum_list (map slot_len ss))"
    by (auto elim!: hash_invE)
  define K where "K i = (case ss ! i of Chain c \<Rightarrow> fst ` set (hpairs c) | WildSlot \<Rightarrow> {})" for i
  have chain: "\<exists>c. ss ! i = Chain c \<and> chain_ok i c" if "i < 1024" for i
    using ss(3) [OF that] by (cases "ss ! i") auto
  have idx: "hash_index k = int i" if "i < 1024" "k \<in> K i" for i k
    using chain [OF that(1)] that(2) by (auto simp: K_def chain_ok_def list_all_iff)
  have at: "chain_at h k = c" if "i < 1024" "hash_index k = int i" "ss ! i = Chain c" for i k c
    using ss(1,2) that by (simp add: chain_at_def slot_at_def)
  have dom: "dom (hash_view (Some h)) = (\<Union>i<1024. K i)"
  proof (intro equalityI subsetI)
    fix k assume "k \<in> dom (hash_view (Some h))"
    then have m: "map_of (hpairs (chain_at h k)) k \<noteq> None" by auto
    then have "okkey_hash k"
      using ss(1) by (auto simp: chain_at_def slot_at_def okkey_hash_def hpairs_def split: if_splits)
    then have i: "nat (hash_index k) < 1024" "hash_index k = int (nat (hash_index k))"
      using hash_index_bounds [of k] by (auto simp: okkey_hash_def)
    with chain obtain c where c: "ss ! nat (hash_index k) = Chain c" by blast
    with at [OF i(1,2)] m have "k \<in> K (nat (hash_index k))"
      by (simp add: K_def map_of_None_fst)
    with i(1) show "k \<in> (\<Union>i<1024. K i)" by blast
  next
    fix k assume "k \<in> (\<Union>i<1024. K i)"
    then obtain i where i: "i < 1024" "k \<in> K i" by blast
    with chain obtain c where c: "ss ! i = Chain c" by blast
    with at [OF i(1) idx [OF i] c] i show "k \<in> dom (hash_view (Some h))"
      by (auto simp: K_def map_of_None_fst dom_def)
  qed
  have "card (K i) = slot_len (ss ! i)" if i: "i < 1024" for i
  proof -
    obtain c where c: "ss ! i = Chain c" "chain_ok i c" using chain [OF i] by blast
    with distinct_card [OF chain_okD(2) [OF c(2)]] show ?thesis by (simp add: K_def)
  qed
  moreover have "card (\<Union>i<1024. K i) = (\<Sum>i<1024. card (K i))"
  proof (rule card_UN_disjoint)
    show "\<forall>i\<in>{..<1024}. finite (K i)" by (auto simp: K_def split: slot.split)
    show "\<forall>i\<in>{..<1024}. \<forall>j\<in>{..<1024}. i \<noteq> j \<longrightarrow> K i \<inter> K j = {}"
      using idx by (metis IntE equals0I lessThan_iff of_nat_eq_iff)
  qed simp
  moreover have "sum_list (map slot_len ss) = (\<Sum>i<1024. slot_len (ss ! i))"
    using ss(2) by (simp add: sum_list_sum_nth atLeast0LessThan)
  ultimately show ?thesis using dom ss(4) by simp
qed

section \<open>Properties\<close>

text \<open>
  C5: the hash engine is a dictionary for every key it can place (byte sum not negative modulo
  1024): lookup, set, mod, exist and delete do on the represented dictionary what their return
  codes say, on both branches, and keep the table's invariant.
\<close>

theorem kvs_hash_dictionary:
  assumes "hash_inv s" "okkey_hash k"
  shows "kvs_hash_get s (Str k) = Inr (cstr_of (hash_view s k))
    \<and> kvs_hash_exist s (Str k) = Inr (if hash_view s k = None then 1 else 0)
    \<and> (hash_view s k = None \<longrightarrow>
         (\<exists>s'. kvs_hash_set malloc_ok s (Str k) (Str v) = Inr (s', 0) \<and> hash_inv s'
            \<and> hash_view s' = (hash_view s)(k \<mapsto> v))
       \<and> kvs_hash_mod malloc_ok s (Str k) (Str v) = Inr (s, 1)
       \<and> kvs_hash_del s (Str k) = Inr (s, -1))
    \<and> (hash_view s k \<noteq> None \<longrightarrow>
         kvs_hash_set malloc_ok s (Str k) (Str v) = Inr (s, 1)
       \<and> (\<exists>s'. kvs_hash_mod malloc_ok s (Str k) (Str v) = Inr (s', 0) \<and> hash_inv s'
            \<and> hash_view s' = (hash_view s)(k \<mapsto> v))
       \<and> (\<exists>s'. kvs_hash_del s (Str k) = Inr (s', 0) \<and> hash_inv s'
            \<and> hash_view s' = (hash_view s)(k := None)))"
proof (cases s)
  case None
  with assms show ?thesis by simp
next
  case (Some h)
  with assms have h: "hash_inv (Some h)" by simp
  show ?thesis
    using hsh.get_view [OF assms] hsh.exist_view [OF assms]
      hsh.set_new [OF assms(1) TrueI assms(2), of v] hsh.mod_old [OF assms, of _ v] hsh.del_old [OF assms]
      hash_set_old [OF h assms(2)] hash_mod_new [OF h assms(2)] hash_del_new [OF h assms(2)] Some
    by auto
qed

definition demo_hash :: hashtable where
  "demo_hash = \<lparr>nodes = Block (replicate 1024 (Chain [])), max_slots = 1024, hcount = 0\<rparr>"

lemma demo_hash_inv: "hash_inv (Some demo_hash)"
  by (simp add: hash_inv_def demo_hash_def MAX_TABLE_SIZE_def chain_ok_def hpairs_def)

theorem kvs_hash_dictionary_witness:
  "hash_inv (Some demo_hash) \<and> okkey_hash ''key''
    \<and> (\<exists>s'. kvs_hash_set malloc_ok (Some demo_hash) (Str ''key'') (Str ''v'') = Inr (s', 0)
          \<and> hash_view s' ''key'' = Some ''v'')"
proof -
  have ok: "okkey_hash ''key''" by (rule okkey_ascii) simp
  have "hash_view (Some demo_hash) ''key'' = None"
    by (auto simp: chain_at_def slot_at_def demo_hash_def hpairs_def)
  with kvs_hash_dictionary [OF demo_hash_inv ok, of "''v''"] ok demo_hash_inv show ?thesis
    by fastforce
qed

text \<open>
  The counter of the hash table is the number of keys stored.
\<close>

theorem kvs_hash_count_card:
  assumes "hash_inv (Some h)"
  shows "kvs_hash_count h = int (card (dom (hash_view (Some h))))"
  using card_dom_view [OF assms] by (simp add: kvs_hash_count_def)

theorem kvs_hash_count_card_witness:
  "hash_inv (Some demo_hash) \<and> kvs_hash_count demo_hash = int (card (dom (hash_view (Some demo_hash))))"
  using kvs_hash_count_card [OF demo_hash_inv] demo_hash_inv by simp

text \<open>
  For a key of 7-bit characters, at most a request buffer (1024 bytes) long, the running byte
  sum never leaves the range of \<^verbatim>\<open>int\<close> and the index lies within the table.
\<close>

theorem kvs_hash_index_ascii:
  assumes "list_all (\<lambda>c. (of_char c :: nat) < 128) k" "length k \<le> 1024"
  shows "(\<forall>n \<le> length k. 0 \<le> hash_sum (take n k) 0 \<and> hash_sum (take n k) 0 < 2 ^ 31)
    \<and> (\<exists>i. hash_idx (Str k) MAX_TABLE_SIZE = Inr i \<and> 0 \<le> i \<and> i < MAX_TABLE_SIZE)"
proof (intro conjI allI impI)
  fix n assume n: "n \<le> length k"
  have "list_all (\<lambda>c. (of_char c :: nat) < 128) (take n k)"
    using assms(1) by (auto simp: list_all_iff dest: in_set_takeD)
  then show "0 \<le> hash_sum (take n k) 0" by (rule hash_sum_ascii)
  show "hash_sum (take n k) 0 < 2 ^ 31"
    using hash_sum_bounds [of "take n k"] n assms(2) by simp
next
  show "\<exists>i. hash_idx (Str k) MAX_TABLE_SIZE = Inr i \<and> 0 \<le> i \<and> i < MAX_TABLE_SIZE"
    using okkey_ascii [OF assms(1)] hash_index_bounds [of k]
    by (auto simp: okkey_hash_def MAX_TABLE_SIZE_def hash_idx_def)
qed

theorem kvs_hash_index_ascii_witness:
  "list_all (\<lambda>c. (of_char c :: nat) < 128) ''Teacher1''
    \<and> (\<exists>i. hash_idx (Str ''Teacher1'') MAX_TABLE_SIZE = Inr i \<and> 0 \<le> i \<and> i < MAX_TABLE_SIZE)"
  using kvs_hash_index_ascii [of "''Teacher1''"] by simp



end
