(* ===== verification/Kvs_Rbtree.thy ===== *)
theory Kvs_Rbtree
  imports C_Prelude
begin

text \<open>
  The red-black tree engine, \<^verbatim>\<open>src/12_1/kvs_rbtree.c\<close>, on an explicit heap. A node is a record of
  its fields, a pointer a natural number (0 is NULL), and the tree structure is kept together with
  the cells it lives in: \<open>cells\<close> maps the addresses of live nodes to their contents, \<open>brk\<close> is the
  next address the allocator hands out. Every read and write through a pointer goes through
  \<open>ld\<close> and \<open>st\<close>, which fault on an address that is not live. Loops take fuel; the operations
  give them \<open>brk\<close>, more than the nodes that exist, and the theory \<open>Kvs_Rbtree_Rep\<close> shows that this is
  always enough on a well-formed tree.
\<close>

section \<open>Data\<close>

type_synonym ptr = nat

definition RED :: nat where
  "RED = 1"

definition BLACK :: nat where
  "BLACK = 2"

lemma RED_BLACK [simp]: "RED \<noteq> BLACK" "BLACK \<noteq> RED"
  by (simp_all add: RED_def BLACK_def)

record rbtree_node =
  ncolor :: nat
  nright :: ptr
  nleft :: ptr
  nparent :: ptr
  nkey :: string
  nvalue :: cstr

record rbtree =
  root :: ptr
  nil :: ptr
  cells :: "ptr \<Rightarrow> rbtree_node option"
  brk :: ptr

definition ld :: "rbtree \<Rightarrow> ptr \<Rightarrow> rbtree_node res" where
  "ld T p = (case cells T p of None \<Rightarrow> Inl Segv | Some n \<Rightarrow> Inr n)"

definition st :: "rbtree \<Rightarrow> ptr \<Rightarrow> (rbtree_node \<Rightarrow> rbtree_node) \<Rightarrow> rbtree res" where
  "st T p f = (case cells T p of None \<Rightarrow> Inl Segv
     | Some n \<Rightarrow> Inr (T\<lparr>cells := (cells T)(p \<mapsto> f n)\<rparr>))"

text \<open>\<^verbatim>\<open>malloc\<close> of a node: NULL, or a fresh cell with arbitrary contents \<open>junk\<close>.\<close>

definition new_node :: "bool \<Rightarrow> rbtree_node \<Rightarrow> rbtree \<Rightarrow> rbtree \<times> ptr" where
  "new_node ok junk T =
     (if ok then (T\<lparr>cells := (cells T)(brk T \<mapsto> junk), brk := Suc (brk T)\<rparr>, brk T) else (T, 0))"

definition free_node :: "rbtree \<Rightarrow> ptr \<Rightarrow> rbtree" where
  "free_node T p = T\<lparr>cells := (cells T)(p := None)\<rparr>"

section \<open>Walking the tree\<close>

fun rbtree_mini :: "nat \<Rightarrow> rbtree \<Rightarrow> ptr \<Rightarrow> ptr res" where
  "rbtree_mini 0 T x = Inl NoFuel"
| "rbtree_mini (Suc fuel) T x =
     andthen (ld T x) (\<lambda>nx. if nleft nx \<noteq> nil T then rbtree_mini fuel T (nleft nx) else Inr x)"

fun rbtree_maxi :: "nat \<Rightarrow> rbtree \<Rightarrow> ptr \<Rightarrow> ptr res" where
  "rbtree_maxi 0 T x = Inl NoFuel"
| "rbtree_maxi (Suc fuel) T x =
     andthen (ld T x) (\<lambda>nx. if nright nx \<noteq> nil T then rbtree_maxi fuel T (nright nx) else Inr x)"

fun successor_up :: "nat \<Rightarrow> rbtree \<Rightarrow> ptr \<Rightarrow> ptr \<Rightarrow> ptr res" where
  "successor_up 0 T x y = Inl NoFuel"
| "successor_up (Suc fuel) T x y =
     (if y \<noteq> nil T
      then andthen (ld T y) (\<lambda>ny.
        if x = nright ny then successor_up fuel T y (nparent ny) else Inr y)
      else Inr y)"

definition rbtree_successor :: "rbtree \<Rightarrow> ptr \<Rightarrow> ptr res" where
  "rbtree_successor T x =
     andthen (ld T x) (\<lambda>nx.
       if nright nx \<noteq> nil T then rbtree_mini (brk T) T (nright nx)
       else successor_up (brk T) T x (nparent nx))"

fun search_loop :: "nat \<Rightarrow> rbtree \<Rightarrow> string \<Rightarrow> ptr \<Rightarrow> ptr res" where
  "search_loop 0 T k node = Inl NoFuel"
| "search_loop (Suc fuel) T k node =
     (if node = nil T then Inr (nil T)
      else andthen (ld T node) (\<lambda>n.
        if strcmp_sign k (nkey n) < 0 then search_loop fuel T k (nleft n)
        else if strcmp_sign k (nkey n) > 0 then search_loop fuel T k (nright n)
        else Inr node))"

definition rbtree_search :: "rbtree \<Rightarrow> string \<Rightarrow> ptr res" where
  "rbtree_search T k = search_loop (brk T) T k (root T)"

text \<open>The pairs \<^verbatim>\<open>rbtree_traversal\<close> prints, in the order it prints them.\<close>

fun rbtree_traversal :: "nat \<Rightarrow> rbtree \<Rightarrow> ptr \<Rightarrow> (string \<times> cstr) list res" where
  "rbtree_traversal 0 T node = Inl NoFuel"
| "rbtree_traversal (Suc fuel) T node =
     (if node \<noteq> nil T
      then andthen (ld T node) (\<lambda>n.
        andthen (rbtree_traversal fuel T (nleft n)) (\<lambda>l.
          andthen (rbtree_traversal fuel T (nright n)) (\<lambda>r.
            Inr (l @ (nkey n, nvalue n) # r))))
      else Inr [])"

section \<open>Rotations\<close>

text \<open>The child of \<open>p\<close> that is \<open>x\<close> becomes \<open>y\<close>; \<open>x\<close> is compared with the left child first.\<close>

definition rbtree_left_rotate :: "rbtree \<Rightarrow> ptr \<Rightarrow> rbtree res" where
  "rbtree_left_rotate T x =
     andthen (ld T x) (\<lambda>nx. let y = nright nx in
     andthen (ld T y) (\<lambda>ny.
     andthen (st T x (\<lambda>n. n\<lparr>nright := nleft ny\<rparr>)) (\<lambda>T.
     andthen (ld T y) (\<lambda>ny.
     andthen (if nleft ny \<noteq> nil T then st T (nleft ny) (\<lambda>n. n\<lparr>nparent := x\<rparr>) else Inr T) (\<lambda>T.
     andthen (ld T x) (\<lambda>nx.
     andthen (st T y (\<lambda>n. n\<lparr>nparent := nparent nx\<rparr>)) (\<lambda>T.
     andthen (ld T x) (\<lambda>nx.
     andthen (if nparent nx = nil T then Inr (T\<lparr>root := y\<rparr>)
              else andthen (ld T (nparent nx)) (\<lambda>np.
                if x = nleft np then st T (nparent nx) (\<lambda>n. n\<lparr>nleft := y\<rparr>)
                else st T (nparent nx) (\<lambda>n. n\<lparr>nright := y\<rparr>))) (\<lambda>T.
     andthen (st T y (\<lambda>n. n\<lparr>nleft := x\<rparr>)) (\<lambda>T.
     st T x (\<lambda>n. n\<lparr>nparent := y\<rparr>)))))))))))"

definition rbtree_right_rotate :: "rbtree \<Rightarrow> ptr \<Rightarrow> rbtree res" where
  "rbtree_right_rotate T y =
     andthen (ld T y) (\<lambda>ny. let x = nleft ny in
     andthen (ld T x) (\<lambda>nx.
     andthen (st T y (\<lambda>n. n\<lparr>nleft := nright nx\<rparr>)) (\<lambda>T.
     andthen (ld T x) (\<lambda>nx.
     andthen (if nright nx \<noteq> nil T then st T (nright nx) (\<lambda>n. n\<lparr>nparent := y\<rparr>) else Inr T) (\<lambda>T.
     andthen (ld T y) (\<lambda>ny.
     andthen (st T x (\<lambda>n. n\<lparr>nparent := nparent ny\<rparr>)) (\<lambda>T.
     andthen (ld T y) (\<lambda>ny.
     andthen (if nparent ny = nil T then Inr (T\<lparr>root := x\<rparr>)
              else andthen (ld T (nparent ny)) (\<lambda>np.
                if y = nright np then st T (nparent ny) (\<lambda>n. n\<lparr>nright := x\<rparr>)
                else st T (nparent ny) (\<lambda>n. n\<lparr>nleft := x\<rparr>))) (\<lambda>T.
     andthen (st T x (\<lambda>n. n\<lparr>nright := y\<rparr>)) (\<lambda>T.
     st T y (\<lambda>n. n\<lparr>nparent := x\<rparr>)))))))))))"

section \<open>Insertion\<close>

abbreviation set_color :: "nat \<Rightarrow> rbtree_node \<Rightarrow> rbtree_node" where
  "set_color c \<equiv> (\<lambda>n. n\<lparr>ncolor := c\<rparr>)"

text \<open>
  The two branches of the loop body, for a parent that is a left and a right child; each gives
  the tree and the next \<open>z\<close>. \<open>insert_recolour_left\<close> and \<open>insert_recolour_right\<close> are their last
  three statements.
\<close>

definition insert_recolour_left :: "rbtree \<Rightarrow> ptr \<Rightarrow> (rbtree \<times> ptr) res" where
  "insert_recolour_left T z =
     andthen (ld T z) (\<lambda>nz.
     andthen (st T (nparent nz) (set_color BLACK)) (\<lambda>T.
     andthen (ld T (nparent nz)) (\<lambda>np.
     andthen (st T (nparent np) (set_color RED)) (\<lambda>T.
     andthen (rbtree_right_rotate T (nparent np)) (\<lambda>T. Inr (T, z))))))"

definition insert_fixup_left :: "rbtree \<Rightarrow> ptr \<Rightarrow> (rbtree \<times> ptr) res" where
  "insert_fixup_left T z =
     andthen (ld T z) (\<lambda>nz.
     andthen (ld T (nparent nz)) (\<lambda>np.
     andthen (ld T (nparent np)) (\<lambda>ng.
     andthen (ld T (nright ng)) (\<lambda>ny.
       if ncolor ny = RED then
         andthen (st T (nparent nz) (set_color BLACK)) (\<lambda>T.
         andthen (st T (nright ng) (set_color BLACK)) (\<lambda>T.
         andthen (st T (nparent np) (set_color RED)) (\<lambda>T. Inr (T, nparent np))))
       else
         andthen (if z = nright np
                  then andthen (rbtree_left_rotate T (nparent nz)) (\<lambda>T. Inr (T, nparent nz))
                  else Inr (T, z)) (\<lambda>(T, z).
           insert_recolour_left T z)))))"

definition insert_recolour_right :: "rbtree \<Rightarrow> ptr \<Rightarrow> (rbtree \<times> ptr) res" where
  "insert_recolour_right T z =
     andthen (ld T z) (\<lambda>nz.
     andthen (st T (nparent nz) (set_color BLACK)) (\<lambda>T.
     andthen (ld T (nparent nz)) (\<lambda>np.
     andthen (st T (nparent np) (set_color RED)) (\<lambda>T.
     andthen (rbtree_left_rotate T (nparent np)) (\<lambda>T. Inr (T, z))))))"

definition insert_fixup_right :: "rbtree \<Rightarrow> ptr \<Rightarrow> (rbtree \<times> ptr) res" where
  "insert_fixup_right T z =
     andthen (ld T z) (\<lambda>nz.
     andthen (ld T (nparent nz)) (\<lambda>np.
     andthen (ld T (nparent np)) (\<lambda>ng.
     andthen (ld T (nleft ng)) (\<lambda>ny.
       if ncolor ny = RED then
         andthen (st T (nparent nz) (set_color BLACK)) (\<lambda>T.
         andthen (st T (nleft ng) (set_color BLACK)) (\<lambda>T.
         andthen (st T (nparent np) (set_color RED)) (\<lambda>T. Inr (T, nparent np))))
       else
         andthen (if z = nleft np
                  then andthen (rbtree_right_rotate T (nparent nz)) (\<lambda>T. Inr (T, nparent nz))
                  else Inr (T, z)) (\<lambda>(T, z).
           insert_recolour_right T z)))))"

fun insert_fixup_loop :: "nat \<Rightarrow> rbtree \<Rightarrow> ptr \<Rightarrow> rbtree res" where
  "insert_fixup_loop 0 T z = Inl NoFuel"
| "insert_fixup_loop (Suc fuel) T z =
     andthen (ld T z) (\<lambda>nz.
     andthen (ld T (nparent nz)) (\<lambda>np.
       if ncolor np = RED then
         andthen (ld T (nparent np)) (\<lambda>ng.
         andthen (if nparent nz = nleft ng then insert_fixup_left T z else insert_fixup_right T z)
           (\<lambda>(T, z). insert_fixup_loop fuel T z))
       else Inr T))"

definition rbtree_insert_fixup :: "rbtree \<Rightarrow> ptr \<Rightarrow> rbtree res" where
  "rbtree_insert_fixup T z =
     andthen (insert_fixup_loop (brk T) T z) (\<lambda>T. st T (root T) (set_color BLACK))"

text \<open>The descent: the leaf's parent, or \<open>None\<close> if the key is met.\<close>

fun insert_descend :: "nat \<Rightarrow> rbtree \<Rightarrow> string \<Rightarrow> ptr \<Rightarrow> ptr \<Rightarrow> ptr option res" where
  "insert_descend 0 T k x y = Inl NoFuel"
| "insert_descend (Suc fuel) T k x y =
     (if x \<noteq> nil T
      then andthen (ld T x) (\<lambda>nx.
        if strcmp_sign k (nkey nx) < 0 then insert_descend fuel T k (nleft nx) x
        else if strcmp_sign k (nkey nx) > 0 then insert_descend fuel T k (nright nx) x
        else Inr None)
      else Inr (Some y))"

text \<open>The new node \<open>z\<close> becomes a red leaf below \<open>y\<close>.\<close>

definition insert_link :: "rbtree \<Rightarrow> ptr \<Rightarrow> ptr \<Rightarrow> rbtree res" where
  "insert_link T z y =
     andthen (st T z (\<lambda>n. n\<lparr>nparent := y\<rparr>)) (\<lambda>T.
     andthen (if y = nil T then Inr (T\<lparr>root := z\<rparr>)
              else andthen (ld T z) (\<lambda>nz. andthen (ld T y) (\<lambda>ny.
                if strcmp_sign (nkey nz) (nkey ny) < 0
                then st T y (\<lambda>n. n\<lparr>nleft := z\<rparr>)
                else st T y (\<lambda>n. n\<lparr>nright := z\<rparr>)))) (\<lambda>T.
     st T z (\<lambda>n. n\<lparr>nleft := nil T, nright := nil T, ncolor := RED\<rparr>)))"

definition rbtree_insert :: "rbtree \<Rightarrow> ptr \<Rightarrow> rbtree res" where
  "rbtree_insert T z =
     andthen (ld T z) (\<lambda>nz.
     andthen (insert_descend (brk T) T (nkey nz) (root T) (nil T)) (\<lambda>r.
       case r of
         None \<Rightarrow> Inr T
       | Some y \<Rightarrow> andthen (insert_link T z y) (\<lambda>T. rbtree_insert_fixup T z)))"

section \<open>Deletion\<close>

text \<open>The two branches of the loop body, for \<open>x\<close> a left and a right child.\<close>

definition delete_fixup_left :: "rbtree \<Rightarrow> ptr \<Rightarrow> (rbtree \<times> ptr) res" where
  "delete_fixup_left T x =
     andthen (ld T x) (\<lambda>nx.
     andthen (ld T (nparent nx)) (\<lambda>np.
     andthen (ld T (nright np)) (\<lambda>nw.
     andthen (if ncolor nw = RED
              then andthen (st T (nright np) (set_color BLACK)) (\<lambda>T.
                   andthen (st T (nparent nx) (set_color RED)) (\<lambda>T.
                   andthen (rbtree_left_rotate T (nparent nx)) (\<lambda>T.
                   andthen (ld T x) (\<lambda>nx.
                   andthen (ld T (nparent nx)) (\<lambda>np. Inr (T, nright np))))))
              else Inr (T, nright np)) (\<lambda>(T, w).
     andthen (ld T w) (\<lambda>nw.
     andthen (ld T (nleft nw)) (\<lambda>nl.
     andthen (ld T (nright nw)) (\<lambda>nr.
       if ncolor nl = BLACK \<and> ncolor nr = BLACK then
         andthen (st T w (set_color RED)) (\<lambda>T.
         andthen (ld T x) (\<lambda>nx. Inr (T, nparent nx)))
       else
         andthen (if ncolor nr = BLACK
                  then andthen (st T (nleft nw) (set_color BLACK)) (\<lambda>T.
                       andthen (st T w (set_color RED)) (\<lambda>T.
                       andthen (rbtree_right_rotate T w) (\<lambda>T.
                       andthen (ld T x) (\<lambda>nx.
                       andthen (ld T (nparent nx)) (\<lambda>np. Inr (T, nright np))))))
                  else Inr (T, w)) (\<lambda>(T, w).
         andthen (ld T x) (\<lambda>nx.
         andthen (ld T (nparent nx)) (\<lambda>np.
         andthen (st T w (set_color (ncolor np))) (\<lambda>T.
         andthen (st T (nparent nx) (set_color BLACK)) (\<lambda>T.
         andthen (ld T w) (\<lambda>nw.
         andthen (st T (nright nw) (set_color BLACK)) (\<lambda>T.
         andthen (rbtree_left_rotate T (nparent nx)) (\<lambda>T. Inr (T, root T))))))))) )))))))"

definition delete_fixup_right :: "rbtree \<Rightarrow> ptr \<Rightarrow> (rbtree \<times> ptr) res" where
  "delete_fixup_right T x =
     andthen (ld T x) (\<lambda>nx.
     andthen (ld T (nparent nx)) (\<lambda>np.
     andthen (ld T (nleft np)) (\<lambda>nw.
     andthen (if ncolor nw = RED
              then andthen (st T (nleft np) (set_color BLACK)) (\<lambda>T.
                   andthen (st T (nparent nx) (set_color RED)) (\<lambda>T.
                   andthen (rbtree_right_rotate T (nparent nx)) (\<lambda>T.
                   andthen (ld T x) (\<lambda>nx.
                   andthen (ld T (nparent nx)) (\<lambda>np. Inr (T, nleft np))))))
              else Inr (T, nleft np)) (\<lambda>(T, w).
     andthen (ld T w) (\<lambda>nw.
     andthen (ld T (nleft nw)) (\<lambda>nl.
     andthen (ld T (nright nw)) (\<lambda>nr.
       if ncolor nl = BLACK \<and> ncolor nr = BLACK then
         andthen (st T w (set_color RED)) (\<lambda>T.
         andthen (ld T x) (\<lambda>nx. Inr (T, nparent nx)))
       else
         andthen (if ncolor nl = BLACK
                  then andthen (st T (nright nw) (set_color BLACK)) (\<lambda>T.
                       andthen (st T w (set_color RED)) (\<lambda>T.
                       andthen (rbtree_left_rotate T w) (\<lambda>T.
                       andthen (ld T x) (\<lambda>nx.
                       andthen (ld T (nparent nx)) (\<lambda>np. Inr (T, nleft np))))))
                  else Inr (T, w)) (\<lambda>(T, w).
         andthen (ld T x) (\<lambda>nx.
         andthen (ld T (nparent nx)) (\<lambda>np.
         andthen (st T w (set_color (ncolor np))) (\<lambda>T.
         andthen (st T (nparent nx) (set_color BLACK)) (\<lambda>T.
         andthen (ld T w) (\<lambda>nw.
         andthen (st T (nleft nw) (set_color BLACK)) (\<lambda>T.
         andthen (rbtree_right_rotate T (nparent nx)) (\<lambda>T. Inr (T, root T))))))))) )))))))"

fun delete_fixup_loop :: "nat \<Rightarrow> rbtree \<Rightarrow> ptr \<Rightarrow> (rbtree \<times> ptr) res" where
  "delete_fixup_loop 0 T x = Inl NoFuel"
| "delete_fixup_loop (Suc fuel) T x =
     (if x = root T then Inr (T, x)
      else andthen (ld T x) (\<lambda>nx.
        if ncolor nx \<noteq> BLACK then Inr (T, x)
        else andthen (ld T (nparent nx)) (\<lambda>np.
          andthen (if x = nleft np then delete_fixup_left T x else delete_fixup_right T x)
            (\<lambda>(T, x). delete_fixup_loop fuel T x))))"

definition rbtree_delete_fixup :: "rbtree \<Rightarrow> ptr \<Rightarrow> rbtree res" where
  "rbtree_delete_fixup T x =
     andthen (delete_fixup_loop (brk T) T x) (\<lambda>(T, x). st T x (set_color BLACK))"

text \<open>
  The deletion in three parts: \<open>y\<close>, the node to unlink; its unlinking, which gives the child \<open>x\<close>
  that takes its place and sets the parent of \<open>x\<close> only if \<open>x\<close> is not the sentinel; the exchange
  of keys and values when \<open>y\<close> is not the node of the key.
\<close>

definition delete_unlink :: "rbtree \<Rightarrow> ptr \<Rightarrow> (rbtree \<times> ptr) res" where
  "delete_unlink T y =
     andthen (ld T y) (\<lambda>ny.
     let x = (if nleft ny \<noteq> nil T then nleft ny
              else if nright ny \<noteq> nil T then nright ny else nil T) in
     andthen (if x \<noteq> nil T then st T x (\<lambda>n. n\<lparr>nparent := nparent ny\<rparr>) else Inr T) (\<lambda>T.
     andthen (if nparent ny = nil T then Inr (T\<lparr>root := x\<rparr>)
              else andthen (ld T (nparent ny)) (\<lambda>np.
                if y = nleft np then st T (nparent ny) (\<lambda>n. n\<lparr>nleft := x\<rparr>)
                else st T (nparent ny) (\<lambda>n. n\<lparr>nright := x\<rparr>))) (\<lambda>T.
     Inr (T, x))))"

definition delete_exchange :: "rbtree \<Rightarrow> ptr \<Rightarrow> ptr \<Rightarrow> rbtree res" where
  "delete_exchange T y z =
     (if y \<noteq> z
      then andthen (ld T z) (\<lambda>nz. andthen (ld T y) (\<lambda>ny.
           andthen (st T z (\<lambda>n. n\<lparr>nkey := nkey ny, nvalue := nvalue ny\<rparr>)) (\<lambda>T.
           st T y (\<lambda>n. n\<lparr>nkey := nkey nz, nvalue := nvalue nz\<rparr>))))
      else Inr T)"

definition rbtree_delete :: "rbtree \<Rightarrow> ptr \<Rightarrow> (rbtree \<times> ptr) res" where
  "rbtree_delete T z =
     andthen (ld T z) (\<lambda>nz.
     andthen (if nleft nz = nil T \<or> nright nz = nil T then Inr z else rbtree_successor T z) (\<lambda>y.
     andthen (delete_unlink T y) (\<lambda>(T, x).
     andthen (delete_exchange T y z) (\<lambda>T.
     andthen (ld T y) (\<lambda>ny.
     andthen (if ncolor ny = BLACK then rbtree_delete_fixup T x else Inr T) (\<lambda>T.
       Inr (T, y)))))))"

section \<open>The engine's operations\<close>

definition kvs_rbtree_create :: "mallocs \<Rightarrow> rbtree_node \<Rightarrow> rbtree option \<Rightarrow> (rbtree option \<times> int) res" where
  "kvs_rbtree_create m junk inst =
     (case inst of None \<Rightarrow> Inr (None, -1)
      | Some T \<Rightarrow>
          (case new_node (m 0) junk T of (T, p) \<Rightarrow>
             andthen (st (T\<lparr>nil := p\<rparr>) p (set_color BLACK)) (\<lambda>T.
               Inr (Some (T\<lparr>root := nil T\<rparr>), 0))))"

text \<open>
  The loop of \<^verbatim>\<open>kvs_rbtree_destory\<close> runs while the root pointer is NULL.
\<close>

fun destory_loop :: "nat \<Rightarrow> rbtree \<Rightarrow> rbtree res" where
  "destory_loop 0 T = Inl NoFuel"
| "destory_loop (Suc fuel) T =
     (if root T = 0
      then andthen (rbtree_mini (brk T) T (root T)) (\<lambda>mini.
           andthen (rbtree_delete T mini) (\<lambda>(T, cur).
             destory_loop fuel (free_node T cur)))
      else Inr T)"

definition kvs_rbtree_destory :: "rbtree option \<Rightarrow> rbtree option res" where
  "kvs_rbtree_destory inst =
     (case inst of None \<Rightarrow> Inr None
      | Some T \<Rightarrow> andthen (destory_loop (Suc (brk T)) T) (\<lambda>T. Inr (Some (free_node T (nil T)))))"

definition kvs_rbtree_set ::
  "mallocs \<Rightarrow> rbtree_node \<Rightarrow> rbtree option \<Rightarrow> cstr \<Rightarrow> cstr \<Rightarrow> (rbtree option \<times> int) res" where
  "kvs_rbtree_set m junk inst key value =
     (case inst of None \<Rightarrow> Inr (None, -1)
      | Some T \<Rightarrow>
          if key = Null \<or> value = Null then Inr (inst, -1)
          else (case new_node (m 0) junk T of (T, node) \<Rightarrow>
            andthen (deref key) (\<lambda>k.
            andthen (rbtree_search T k) (\<lambda>exist.
              if exist \<noteq> nil T then Inr (Some T, 1)
              else andthen (st T node id) (\<lambda>T.
                if \<not> m 1 then Inr (Some T, -2)
                else andthen (st T node (\<lambda>n. n\<lparr>nkey := k\<rparr>)) (\<lambda>T.
                  andthen (deref value) (\<lambda>v.
                  if \<not> m 2 then andthen (st T node (\<lambda>n. n\<lparr>nvalue := Null\<rparr>)) (\<lambda>T. Inr (Some T, -2))
                  else andthen (st T node (\<lambda>n. n\<lparr>nvalue := Str v\<rparr>)) (\<lambda>T.
                    andthen (rbtree_insert T node) (\<lambda>T. Inr (Some T, 0)))))))))) "

definition kvs_rbtree_get :: "rbtree option \<Rightarrow> cstr \<Rightarrow> cstr res" where
  "kvs_rbtree_get inst key =
     (case inst of None \<Rightarrow> Inr Null
      | Some T \<Rightarrow>
          if key = Null then Inr Null
          else andthen (deref key) (\<lambda>k.
            andthen (rbtree_search T k) (\<lambda>node.
              if node = nil T then Inr Null
              else andthen (ld T node) (\<lambda>n. Inr (nvalue n)))))"

definition kvs_rbtree_del :: "rbtree option \<Rightarrow> cstr \<Rightarrow> (rbtree option \<times> int) res" where
  "kvs_rbtree_del inst key =
     (case inst of None \<Rightarrow> Inr (None, -1)
      | Some T \<Rightarrow>
          if key = Null then Inr (inst, -1)
          else andthen (deref key) (\<lambda>k.
            andthen (rbtree_search T k) (\<lambda>node.
              if node = nil T then Inr (inst, 1)
              else andthen (rbtree_delete T node) (\<lambda>(T, cur).
                Inr (Some (free_node T cur), 0)))))"

definition kvs_rbtree_mod ::
  "mallocs \<Rightarrow> rbtree option \<Rightarrow> cstr \<Rightarrow> cstr \<Rightarrow> (rbtree option \<times> int) res" where
  "kvs_rbtree_mod m inst key value =
     (case inst of None \<Rightarrow> Inr (None, -1)
      | Some T \<Rightarrow>
          if key = Null \<or> value = Null then Inr (inst, -1)
          else andthen (deref key) (\<lambda>k.
            andthen (rbtree_search T k) (\<lambda>node.
              if node = nil T then Inr (inst, 1)
              else andthen (deref value) (\<lambda>v.
                if m 0
                then andthen (st T node (\<lambda>n. n\<lparr>nvalue := Str v\<rparr>)) (\<lambda>T. Inr (Some T, 0))
                else andthen (st T node (\<lambda>n. n\<lparr>nvalue := Null\<rparr>)) (\<lambda>T. Inr (Some T, -2))))))"

definition kvs_rbtree_exist :: "rbtree option \<Rightarrow> cstr \<Rightarrow> int res" where
  "kvs_rbtree_exist inst key =
     (case inst of None \<Rightarrow> Inr (-1)
      | Some T \<Rightarrow>
          if key = Null then Inr (-1)
          else andthen (deref key) (\<lambda>k.
            andthen (rbtree_search T k) (\<lambda>node. Inr (if node = nil T then 1 else 0))))"

end
