(* ===== verification/Kvs_Rbtree_Rep.thy ===== *)
theory Kvs_Rbtree_Rep
  imports Kvs_Rbtree
begin

text \<open>
  What a heap represents. A \<open>ptree\<close> is a tree whose nodes carry their addresses; a context (a list
  of frames, innermost first) is a tree with a hole, so that a pointer into the tree is a context
  together with the subtree below the pointer. \<open>srep T ctx t\<close> says that the heap of \<open>T\<close> holds
  the tree \<open>plug ctx t\<close> with every parent link right, at distinct addresses. The lemmas follow the
  code from the bottom: rotations, search, descent, the fix-up loop, insertion.
\<close>

section \<open>Trees, contexts and the heap\<close>

datatype ptree = Lf | Nd ptree ptr nat string cstr ptree

fun rt :: "ptr \<Rightarrow> ptree \<Rightarrow> ptr" where
  "rt nl Lf = nl"
| "rt nl (Nd l a co k v r) = a"

fun ads :: "ptree \<Rightarrow> ptr list" where
  "ads Lf = []"
| "ads (Nd l a co k v r) = a # ads l @ ads r"

fun trep :: "(ptr \<Rightarrow> rbtree_node option) \<Rightarrow> ptr \<Rightarrow> ptr \<Rightarrow> ptree \<Rightarrow> bool" where
  "trep c nl par Lf = True"
| "trep c nl par (Nd l a co k v r) =
     (c a = Some \<lparr>ncolor = co, nright = rt nl r, nleft = rt nl l, nparent = par, nkey = k, nvalue = v\<rparr>
      \<and> trep c nl a l \<and> trep c nl a r)"

datatype frame = FL ptr nat string cstr ptree | FR ptree ptr nat string cstr

fun fptr :: "frame \<Rightarrow> ptr" where
  "fptr (FL a co k v r) = a"
| "fptr (FR l a co k v) = a"

fun fcol :: "frame \<Rightarrow> nat" where
  "fcol (FL a co k v r) = co"
| "fcol (FR l a co k v) = co"

fun cpar :: "ptr \<Rightarrow> frame list \<Rightarrow> ptr" where
  "cpar nl [] = nl"
| "cpar nl (f # fs) = fptr f"

fun croot :: "ptr \<Rightarrow> frame list \<Rightarrow> ptr" where
  "croot p [] = p"
| "croot p (f # fs) = croot (fptr f) fs"

fun fads :: "frame \<Rightarrow> ptr list" where
  "fads (FL a co k v r) = a # ads r"
| "fads (FR l a co k v) = a # ads l"

definition cads :: "frame list \<Rightarrow> ptr list" where
  "cads fs = concat (map fads fs)"

fun crep :: "(ptr \<Rightarrow> rbtree_node option) \<Rightarrow> ptr \<Rightarrow> ptr \<Rightarrow> frame list \<Rightarrow> bool" where
  "crep c nl p [] = True"
| "crep c nl p (FL a co k v r # fs) =
     (c a = Some \<lparr>ncolor = co, nright = rt nl r, nleft = p, nparent = cpar nl fs, nkey = k, nvalue = v\<rparr>
      \<and> trep c nl a r \<and> crep c nl a fs)"
| "crep c nl p (FR l a co k v # fs) =
     (c a = Some \<lparr>ncolor = co, nright = p, nleft = rt nl l, nparent = cpar nl fs, nkey = k, nvalue = v\<rparr>
      \<and> trep c nl a l \<and> crep c nl a fs)"

fun fill :: "frame \<Rightarrow> ptree \<Rightarrow> ptree" where
  "fill (FL a co k v r) t = Nd t a co k v r"
| "fill (FR l a co k v) t = Nd l a co k v t"

fun plug :: "frame list \<Rightarrow> ptree \<Rightarrow> ptree" where
  "plug [] t = t"
| "plug (f # fs) t = plug fs (fill f t)"

definition nil_ok :: "rbtree \<Rightarrow> bool" where
  "nil_ok T \<longleftrightarrow> (case cells T (nil T) of None \<Rightarrow> False | Some n \<Rightarrow> ncolor n = BLACK)"

definition srep :: "rbtree \<Rightarrow> frame list \<Rightarrow> ptree \<Rightarrow> bool" where
  "srep T ctx t \<longleftrightarrow> root T = croot (rt (nil T) t) ctx
     \<and> crep (cells T) (nil T) (rt (nil T) t) ctx \<and> trep (cells T) (nil T) (cpar (nil T) ctx) t
     \<and> distinct (cads ctx @ ads t) \<and> nil T \<notin> set (cads ctx @ ads t) \<and> nil_ok T"

text \<open>What rotations and recolourings keep: the sentinel, and which cells are live.\<close>

definition pres :: "rbtree \<Rightarrow> rbtree \<Rightarrow> bool" where
  "pres T T' \<longleftrightarrow> nil T' = nil T \<and> brk T' = brk T \<and> cells T' (nil T) = cells T (nil T)
     \<and> dom (cells T') = dom (cells T)"

lemma pres_refl [simp]: "pres T T"
  by (simp add: pres_def)

lemma pres_trans: "pres T T' \<Longrightarrow> pres T' T'' \<Longrightarrow> pres T T''"
  by (simp add: pres_def)

lemma cads_simps [simp]: "cads [] = []" "cads (f # fs) = fads f @ cads fs"
  by (simp_all add: cads_def)

lemma rt_neq: "a \<notin> set (ads t) \<Longrightarrow> a \<noteq> nl \<Longrightarrow> rt nl t \<noteq> a"
  by (cases t) auto

lemma trep_upd [simp]: "p \<notin> set (ads t) \<Longrightarrow> trep (c(p := x)) nl par t = trep c nl par t"
  by (induction t arbitrary: par) auto

lemma crep_upd [simp]: "p \<notin> set (cads fs) \<Longrightarrow> crep (c(p := x)) nl q fs = crep c nl q fs"
  by (induction c nl q fs rule: crep.induct) auto

lemma nil_ok_upd [simp]:
  "p \<noteq> nil T \<Longrightarrow> nil_ok (T\<lparr>cells := (cells T)(p := x), root := r\<rparr>) = nil_ok T"
  "p \<noteq> nil T \<Longrightarrow> nil_ok (T\<lparr>cells := (cells T)(p := x)\<rparr>) = nil_ok T"
  "nil_ok (T\<lparr>root := r\<rparr>) = nil_ok T"
  by (simp_all add: nil_ok_def)

lemma ld_Some [simp]: "cells T p = Some n \<Longrightarrow> ld T p = Inr n"
  by (simp add: ld_def)

lemma st_Some [simp]: "cells T p = Some n \<Longrightarrow> st T p f = Inr (T\<lparr>cells := (cells T)(p \<mapsto> f n)\<rparr>)"
  by (simp add: st_def)

lemma rt_neq': "a \<notin> set (ads t) \<Longrightarrow> a \<noteq> nl \<Longrightarrow> a \<noteq> rt nl t"
  by (cases t) auto

lemma frames_cases:
  obtains "ctx = []" | a co k v r fs where "ctx = FL a co k v r # fs"
  | l a co k v fs where "ctx = FR l a co k v # fs"
  by (metis frame.exhaust list.exhaust)

lemma rt_fill [simp]: "rt nl (fill f t) = fptr f"
  by (cases f) auto

lemma srep_fill: "srep T fs (fill f t) \<longleftrightarrow> srep T (f # fs) t"
  by (cases f) (auto simp: srep_def)

lemma srep_plug: "srep T [] (plug ctx t) \<longleftrightarrow> srep T ctx t"
  by (induction ctx t rule: plug.induct) (simp_all add: srep_fill)

lemma srep_node: "srep T ctx (Nd l a co k v r) \<Longrightarrow> cells T a = Some \<lparr>ncolor = co,
    nright = rt (nil T) r, nleft = rt (nil T) l, nparent = cpar (nil T) ctx, nkey = k, nvalue = v\<rparr>"
  by (simp add: srep_def)

fun fnode :: "ptr \<Rightarrow> ptr \<Rightarrow> ptr \<Rightarrow> frame \<Rightarrow> rbtree_node" where
  "fnode nl q par (FL a co k v r) =
     \<lparr>ncolor = co, nright = rt nl r, nleft = q, nparent = par, nkey = k, nvalue = v\<rparr>"
| "fnode nl q par (FR l a co k v) =
     \<lparr>ncolor = co, nright = q, nleft = rt nl l, nparent = par, nkey = k, nvalue = v\<rparr>"

lemma fnode_simps [simp]: "ncolor (fnode nl q par f) = fcol f" "nparent (fnode nl q par f) = par"
  by (cases f; simp)+

lemma srep_frame: "srep T (f # fs) t \<Longrightarrow>
    cells T (fptr f) = Some (fnode (nil T) (rt (nil T) t) (cpar (nil T) fs) f)"
  by (cases f) (auto simp: srep_def)

lemma srep_nil: "srep T ctx t \<Longrightarrow> \<exists>n. cells T (nil T) = Some n \<and> ncolor n = BLACK"
  by (auto simp: srep_def nil_ok_def split: option.splits)

lemma recolour:
  assumes "srep T ctx (Nd l a co k v r)"
  shows "\<exists>T'. st T a (set_color c') = Inr T' \<and> srep T' ctx (Nd l a c' k v r) \<and> pres T T'"
  using assms by (auto simp: srep_def pres_def)

section \<open>Rotations\<close>

lemma left_rotate_rep:
  assumes "srep T ctx (Nd a x cx kx vx (Nd b y cy ky vy c))"
  shows "\<exists>T'. rbtree_left_rotate T x = Inr T' \<and> srep T' ctx (Nd (Nd a x cx kx vx b) y cy ky vy c)
    \<and> pres T T'"
  using assms
  by (cases b; cases ctx rule: frames_cases)
    (auto simp: srep_def rbtree_left_rotate_def Let_def nil_ok_def pres_def rt_neq rt_neq' eq_commute)

lemma right_rotate_rep:
  assumes "srep T ctx (Nd (Nd a x cx kx vx b) y cy ky vy c)"
  shows "\<exists>T'. rbtree_right_rotate T y = Inr T' \<and> srep T' ctx (Nd a x cx kx vx (Nd b y cy ky vy c))
    \<and> pres T T'"
  using assms
  by (cases b; cases ctx rule: frames_cases)
    (auto simp: srep_def rbtree_right_rotate_def Let_def nil_ok_def pres_def rt_neq rt_neq' eq_commute)

section \<open>Search and descent\<close>

fun inorder :: "ptree \<Rightarrow> (string \<times> cstr) list" where
  "inorder Lf = []"
| "inorder (Nd l a co k v r) = inorder l @ (k, v) # inorder r"

fun height :: "ptree \<Rightarrow> nat" where
  "height Lf = 0"
| "height (Nd l a co k v r) = Suc (max (height l) (height r))"

text \<open>The address at which a descent for a key ends.\<close>

fun taddr :: "ptr \<Rightarrow> ptree \<Rightarrow> string \<Rightarrow> ptr" where
  "taddr nl Lf k = nl"
| "taddr nl (Nd l a co k' v r) k = (if k < k' then taddr nl l k else if k > k' then taddr nl r k else a)"

definition bst :: "ptree \<Rightarrow> bool" where
  "bst t \<longleftrightarrow> sorted_wrt (<) (map fst (inorder t))"

lemma bst_Nd: "bst (Nd l a co k v r) \<longleftrightarrow> bst l \<and> bst r
    \<and> (\<forall>x\<in>fst ` set (inorder l). x < k) \<and> (\<forall>x\<in>fst ` set (inorder r). k < x)"
  unfolding bst_def by (fastforce simp: sorted_wrt_append)

lemma height_ads: "height t \<le> length (ads t)"
  by (induction t) auto

lemma search_loop_rep:
  assumes "trep (cells T) (nil T) par t" "nil T \<notin> set (ads t)" "height t < fuel"
  shows "search_loop fuel T k (rt (nil T) t) = Inr (taddr (nil T) t k)"
  using assms
proof (induction t arbitrary: par fuel)
  case Lf
  then show ?case by (cases fuel) auto
next
  case (Nd l a co k' v r)
  then show ?case by (cases fuel) auto
qed

lemma traversal_rep:
  assumes "trep (cells T) (nil T) par t" "nil T \<notin> set (ads t)" "height t < fuel"
  shows "rbtree_traversal fuel T (rt (nil T) t) = Inr (inorder t)"
  using assms
proof (induction t arbitrary: par fuel)
  case Lf
  then show ?case by (cases fuel) auto
next
  case (Nd l a co k' v r)
  then show ?case by (cases fuel) auto
qed

lemma taddr_nil:
  assumes "bst t" "nl \<notin> set (ads t)"
  shows "taddr nl t k = nl \<longleftrightarrow> k \<notin> fst ` set (inorder t)"
  using assms
proof (induction t)
  case Lf
  then show ?case by simp
next
  case (Nd l a co k' v r)
  then have b: "k < k' \<Longrightarrow> k \<notin> fst ` set (inorder r)" "k' < k \<Longrightarrow> k \<notin> fst ` set (inorder l)"
    by (meson bst_Nd less_asym)+
  with Nd show ?case
    by (cases "k < k'"; cases "k' < k") (auto simp add: bst_Nd image_Un)
qed

text \<open>The zipper of a descent: the context and the subtree at which it ends.\<close>

fun zdown :: "string \<Rightarrow> frame list \<Rightarrow> ptree \<Rightarrow> frame list \<times> ptree" where
  "zdown k ctx Lf = (ctx, Lf)"
| "zdown k ctx (Nd l a co k' v r) =
     (if k < k' then zdown k (FL a co k' v r # ctx) l
      else if k > k' then zdown k (FR l a co k' v # ctx) r
      else (ctx, Nd l a co k' v r))"

lemma zdown_plug: "zdown k ctx t = (ctx', t') \<Longrightarrow> plug ctx' t' = plug ctx t"
  by (induction k ctx t rule: zdown.induct) (auto split: if_splits)

lemma zdown_found: "zdown k ctx t = (ctx', Nd l a co k' v r) \<Longrightarrow> k' = k \<and> taddr nl t k = a"
  by (induction k ctx t rule: zdown.induct) (auto split: if_splits)

lemma zdown_missing: "zdown k ctx t = (ctx', Lf) \<Longrightarrow> taddr nl t k = nl"
  by (induction k ctx t rule: zdown.induct) (auto split: if_splits)

lemma insert_descend_rep:
  assumes "srep T ctx t" "height t < fuel" "zdown k ctx t = (ctx', Lf)"
  shows "insert_descend fuel T k (rt (nil T) t) (cpar (nil T) ctx) = Inr (Some (cpar (nil T) ctx'))"
  using assms
proof (induction t arbitrary: ctx fuel)
  case Lf
  then show ?case by (cases fuel) auto
next
  case (Nd l a co k' v r)
  obtain n where n: "fuel = Suc n" using Nd.prems by (cases fuel) auto
  have sl: "srep T (FL a co k' v r # ctx) l" and sr: "srep T (FR l a co k' v # ctx) r"
    using Nd.prems(1) srep_fill [of T ctx "FL a co k' v r" l] srep_fill [of T ctx "FR l a co k' v" r]
    by auto
  have "a \<noteq> nil T" using Nd.prems(1) by (auto simp: srep_def)
  with Nd.IH(1) [OF sl] Nd.IH(2) [OF sr] Nd.prems srep_node [OF Nd.prems(1)] show ?case
    by (auto simp: n split: if_splits)
qed

end
