(* ===== verification/Kvs_Rbtree_Insert.thy ===== *)
theory Kvs_Rbtree_Insert
  imports Kvs_Rbtree_Rep
begin

text \<open>
  Insertion: the fix-up loop on a functional zipper (\<open>zfix\<close>), the heap loop as its refinement, and what
  the result is: the same entries in order, and a tree that satisfies the red-black invariant.
\<close>

section \<open>The fix-up on trees\<close>

fun tcol :: "ptree \<Rightarrow> nat" where
  "tcol Lf = BLACK"
| "tcol (Nd l a co k v r) = co"

fun paint :: "nat \<Rightarrow> ptree \<Rightarrow> ptree" where
  "paint c Lf = Lf"
| "paint c (Nd l a co k v r) = Nd l a c k v r"

fun zfix :: "frame list \<Rightarrow> ptree \<Rightarrow> ptree" where
  "zfix (FL p cp kp vp u # FL g cg kg vg y # gs) t =
     (if cp \<noteq> RED then plug (FL p cp kp vp u # FL g cg kg vg y # gs) t
      else if tcol y = RED then zfix gs (Nd (Nd t p BLACK kp vp u) g RED kg vg (paint BLACK y))
      else plug gs (Nd t p BLACK kp vp (Nd u g RED kg vg y)))"
| "zfix (FR u p cp kp vp # FL g cg kg vg y # gs) (Nd a z cz kz vz b) =
     (if cp \<noteq> RED then plug (FR u p cp kp vp # FL g cg kg vg y # gs) (Nd a z cz kz vz b)
      else if tcol y = RED
      then zfix gs (Nd (Nd u p BLACK kp vp (Nd a z cz kz vz b)) g RED kg vg (paint BLACK y))
      else plug gs (Nd (Nd u p RED kp vp a) z BLACK kz vz (Nd b g RED kg vg y)))"
| "zfix (FR u p cp kp vp # FR y g cg kg vg # gs) t =
     (if cp \<noteq> RED then plug (FR u p cp kp vp # FR y g cg kg vg # gs) t
      else if tcol y = RED then zfix gs (Nd (paint BLACK y) g RED kg vg (Nd u p BLACK kp vp t))
      else plug gs (Nd (Nd y g RED kg vg u) p BLACK kp vp t))"
| "zfix (FL p cp kp vp u # FR y g cg kg vg # gs) (Nd a z cz kz vz b) =
     (if cp \<noteq> RED then plug (FL p cp kp vp u # FR y g cg kg vg # gs) (Nd a z cz kz vz b)
      else if tcol y = RED
      then zfix gs (Nd (paint BLACK y) g RED kg vg (Nd (Nd a z cz kz vz b) p BLACK kp vp u))
      else plug gs (Nd (Nd y g RED kg vg a) z BLACK kz vz (Nd b p RED kp vp u)))"
| "zfix ctx t = plug ctx t"

lemma zfix_black: "(case ctx of [] \<Rightarrow> True | f # _ \<Rightarrow> fcol f \<noteq> RED) \<Longrightarrow> zfix ctx t = plug ctx t"
  by (cases "(ctx, t)" rule: zfix.cases) auto

section \<open>One iteration on the heap\<close>

lemma trep_ld:
  assumes "trep (cells T) (nil T) par t" "nil_ok T"
  shows "\<exists>n. ld T (rt (nil T) t) = Inr n \<and> ncolor n = tcol t"
  using assms by (cases t) (auto simp: nil_ok_def ld_def split: option.splits)

lemma srep_sibling:
  assumes "srep T (f # fs) t"
  shows "f = FL a co k v r \<Longrightarrow> \<exists>n. ld T (rt (nil T) r) = Inr n \<and> ncolor n = tcol r"
    and "f = FR l a co k v \<Longrightarrow> \<exists>n. ld T (rt (nil T) l) = Inr n \<and> ncolor n = tcol l"
  using assms by (auto simp: srep_def intro!: trep_ld)

lemma recolour_sibling:
  assumes "srep T (f # fs) t"
  shows "f = FL a co k v r \<Longrightarrow> tcol r = RED \<Longrightarrow> \<exists>T'. st T (rt (nil T) r) (set_color c') = Inr T'
           \<and> srep T' (FL a co k v (paint c' r) # fs) t \<and> pres T T'"
    and "f = FR l a co k v \<Longrightarrow> tcol l = RED \<Longrightarrow> \<exists>T'. st T (rt (nil T) l) (set_color c') = Inr T'
           \<and> srep T' (FR (paint c' l) a co k v # fs) t \<and> pres T T'"
  using assms recolour [of T "FR t a co k v # fs" _ _ _ _ _ _ c'] 
    recolour [of T "FL a co k v t # fs" _ _ _ _ _ _ c']
  by (cases r; cases l; auto simp flip: srep_fill)+

fun fpaint :: "nat \<Rightarrow> frame \<Rightarrow> frame" where
  "fpaint c (FL a co k v r) = FL a c k v r"
| "fpaint c (FR l a co k v) = FR l a c k v"

lemma recolour_frame:
  assumes "srep T (f # fs) t"
  shows "\<exists>T'. st T (fptr f) (set_color c') = Inr T' \<and> srep T' (fpaint c' f # fs) t \<and> pres T T'"
  using assms recolour [of T fs] by (cases f) (auto simp flip: srep_fill)

text \<open>What the loop reads before it changes anything: the node, its parent, the grandparent.\<close>

lemma reads_up:
  assumes "srep T (f # g # gs) (Nd a z cz kz vz b)"
  shows "ld T z = Inr \<lparr>ncolor = cz, nright = rt (nil T) b, nleft = rt (nil T) a,
      nparent = fptr f, nkey = kz, nvalue = vz\<rparr>"
    and "ld T (fptr f) = Inr (fnode (nil T) z (fptr g) f)"
    and "ld T (fptr g) = Inr (fnode (nil T) (fptr f) (cpar (nil T) gs) g)"
proof -
  have g: "srep T (g # gs) (fill f (Nd a z cz kz vz b))"
    using assms by (simp add: srep_fill)
  show "ld T z = Inr \<lparr>ncolor = cz, nright = rt (nil T) b, nleft = rt (nil T) a,
      nparent = fptr f, nkey = kz, nvalue = vz\<rparr>"
    and "ld T (fptr f) = Inr (fnode (nil T) z (fptr g) f)"
    and "ld T (fptr g) = Inr (fnode (nil T) (fptr f) (cpar (nil T) gs) g)"
    using srep_node [OF assms] srep_frame [OF assms] srep_frame [OF g] by simp_all
qed

lemma fixup_left_red:
  assumes s: "srep T (f # FL g cg kg vg y # gs) (Nd a z cz kz vz b)" and y: "tcol y = RED"
  shows "\<exists>T'. insert_fixup_left T z = Inr (T', g) \<and> pres T T' \<and>
    srep T' gs (Nd (fill (fpaint BLACK f) (Nd a z cz kz vz b)) g RED kg vg (paint BLACK y))"
proof -
  let ?t = "Nd a z cz kz vz b"
  have s': "srep T (FL g cg kg vg y # gs) (fill f ?t)"
    using s by (simp add: srep_fill)
  obtain T1 where 1: "st T (fptr f) (set_color BLACK) = Inr T1" "pres T T1"
      "srep T1 (FL g cg kg vg y # gs) (fill (fpaint BLACK f) ?t)"
    using recolour_frame [OF s] unfolding srep_fill by blast
  obtain T2 where 2: "st T1 (rt (nil T) y) (set_color BLACK) = Inr T2" "pres T1 T2"
      "srep T2 (FL g cg kg vg (paint BLACK y) # gs) (fill (fpaint BLACK f) ?t)"
    using recolour_sibling(1) [OF 1(3) refl y, of BLACK] 1(2) by (auto simp: pres_def)
  obtain T3 where 3: "st T2 g (set_color RED) = Inr T3" "pres T2 T3"
      "srep T3 (FL g RED kg vg (paint BLACK y) # gs) (fill (fpaint BLACK f) ?t)"
    using recolour_frame [OF 2(3), of RED] by auto
  have res: "srep T3 gs (Nd (fill (fpaint BLACK f) ?t) g RED kg vg (paint BLACK y))"
    using 3(3) srep_fill [of T3 gs "FL g RED kg vg (paint BLACK y)"] by simp
  have "pres T T3" using 1 2 3 by (blast intro: pres_trans)
  with res srep_sibling(1) [OF s' refl] y reads_up [OF s] 1(1) 2(1) 3(1) show ?thesis
    by (auto simp: insert_fixup_left_def)
qed

lemma recolour_left_rep:
  assumes s: "srep T (FL p cp kp vp u # FL g cg kg vg y # gs) (Nd a z cz kz vz b)"
  shows "\<exists>T'. insert_recolour_left T z = Inr (T', z) \<and> pres T T' \<and>
    srep T' (FL p BLACK kp vp (Nd u g RED kg vg y) # gs) (Nd a z cz kz vz b)"
proof -
  let ?t = "Nd a z cz kz vz b"
  obtain T1 where 1: "st T p (set_color BLACK) = Inr T1" "pres T T1"
      "srep T1 (FL p BLACK kp vp u # FL g cg kg vg y # gs) ?t"
    using recolour_frame [OF s, of BLACK] by auto
  have s1: "srep T1 (FL g cg kg vg y # gs) (fill (FL p BLACK kp vp u) ?t)"
    using 1(3) by (simp only: srep_fill)
  obtain T2 where 2: "st T1 g (set_color RED) = Inr T2" "pres T1 T2"
      "srep T2 gs (Nd (Nd ?t p BLACK kp vp u) g RED kg vg y)"
    using recolour_frame [OF s1, of RED] srep_fill [of _ gs "FL g RED kg vg y"] by auto
  obtain T3 where 3: "rbtree_right_rotate T2 g = Inr T3" "pres T2 T3"
      "srep T3 gs (Nd ?t p BLACK kp vp (Nd u g RED kg vg y))"
    using right_rotate_rep [OF 2(3)] by auto
  have res: "srep T3 (FL p BLACK kp vp (Nd u g RED kg vg y) # gs) ?t"
    using 3(3) srep_fill [of T3 gs "FL p BLACK kp vp (Nd u g RED kg vg y)" ?t] by simp
  have "pres T T3" using 1 2 3 by (blast intro: pres_trans)
  with res reads_up [OF s] reads_up(2) [OF 1(3)] 1(1) 2(1) 3(1) show ?thesis
    by (auto simp: insert_recolour_left_def)
qed

lemma fixup_left_outer:
  assumes s: "srep T (FL p RED kp vp u # FL g cg kg vg y # gs) (Nd a z cz kz vz b)" and y: "tcol y \<noteq> RED"
  shows "\<exists>T'. insert_fixup_left T z = Inr (T', z) \<and> pres T T' \<and>
    srep T' (FL p BLACK kp vp (Nd u g RED kg vg y) # gs) (Nd a z cz kz vz b)"
proof -
  have s': "srep T (FL g cg kg vg y # gs) (fill (FL p RED kp vp u) (Nd a z cz kz vz b))"
    using s by (simp only: srep_fill)
  have "z \<noteq> rt (nil T) u"
    using s by (intro rt_neq') (auto simp: srep_def)
  with recolour_left_rep [OF s] srep_sibling(1) [OF s' refl] y reads_up [OF s] show ?thesis
    by (auto simp: insert_fixup_left_def)
qed

lemma fixup_left_inner:
  assumes s: "srep T (FR u p RED kp vp # FL g cg kg vg y # gs) (Nd a z cz kz vz b)" and y: "tcol y \<noteq> RED"
  shows "\<exists>T'. insert_fixup_left T z = Inr (T', p) \<and> pres T T' \<and>
    srep T' (FL z BLACK kz vz (Nd b g RED kg vg y) # gs) (Nd u p RED kp vp a)"
proof -
  have s': "srep T (FL g cg kg vg y # gs) (Nd u p RED kp vp (Nd a z cz kz vz b))"
    using s srep_fill [of T _ "FR u p RED kp vp" "Nd a z cz kz vz b"] by simp
  obtain T1 where 1: "rbtree_left_rotate T p = Inr T1" "pres T T1"
      "srep T1 (FL z cz kz vz b # FL g cg kg vg y # gs) (Nd u p RED kp vp a)"
    using left_rotate_rep [OF s'] srep_fill [of _ _ "FL z cz kz vz b" "Nd u p RED kp vp a"] by auto
  show ?thesis
    using 1 recolour_left_rep [OF 1(3)] srep_sibling(1) [OF s' refl] y reads_up [OF s] pres_trans
    by (fastforce simp: insert_fixup_left_def)
qed

lemma fixup_right_red:
  assumes s: "srep T (f # FR y g cg kg vg # gs) (Nd a z cz kz vz b)" and y: "tcol y = RED"
  shows "\<exists>T'. insert_fixup_right T z = Inr (T', g) \<and> pres T T' \<and>
    srep T' gs (Nd (paint BLACK y) g RED kg vg (fill (fpaint BLACK f) (Nd a z cz kz vz b)))"
proof -
  let ?t = "Nd a z cz kz vz b"
  have s': "srep T (FR y g cg kg vg # gs) (fill f ?t)"
    using s by (simp add: srep_fill)
  obtain T1 where 1: "st T (fptr f) (set_color BLACK) = Inr T1" "pres T T1"
      "srep T1 (FR y g cg kg vg # gs) (fill (fpaint BLACK f) ?t)"
    using recolour_frame [OF s] unfolding srep_fill by blast
  obtain T2 where 2: "st T1 (rt (nil T) y) (set_color BLACK) = Inr T2" "pres T1 T2"
      "srep T2 (FR (paint BLACK y) g cg kg vg # gs) (fill (fpaint BLACK f) ?t)"
    using recolour_sibling(2) [OF 1(3) refl y, of BLACK] 1(2) by (auto simp: pres_def)
  obtain T3 where 3: "st T2 g (set_color RED) = Inr T3" "pres T2 T3"
      "srep T3 (FR (paint BLACK y) g RED kg vg # gs) (fill (fpaint BLACK f) ?t)"
    using recolour_frame [OF 2(3), of RED] by auto
  have res: "srep T3 gs (Nd (paint BLACK y) g RED kg vg (fill (fpaint BLACK f) ?t))"
    using 3(3) srep_fill [of T3 gs "FR (paint BLACK y) g RED kg vg"] by simp
  have "pres T T3" using 1 2 3 by (blast intro: pres_trans)
  with res srep_sibling(2) [OF s' refl] y reads_up [OF s] 1(1) 2(1) 3(1) show ?thesis
    by (auto simp: insert_fixup_right_def)
qed

lemma recolour_right_rep:
  assumes s: "srep T (FR u p cp kp vp # FR y g cg kg vg # gs) (Nd a z cz kz vz b)"
  shows "\<exists>T'. insert_recolour_right T z = Inr (T', z) \<and> pres T T' \<and>
    srep T' (FR (Nd y g RED kg vg u) p BLACK kp vp # gs) (Nd a z cz kz vz b)"
proof -
  let ?t = "Nd a z cz kz vz b"
  obtain T1 where 1: "st T p (set_color BLACK) = Inr T1" "pres T T1"
      "srep T1 (FR u p BLACK kp vp # FR y g cg kg vg # gs) ?t"
    using recolour_frame [OF s, of BLACK] by auto
  have s1: "srep T1 (FR y g cg kg vg # gs) (fill (FR u p BLACK kp vp) ?t)"
    using 1(3) by (simp only: srep_fill)
  obtain T2 where 2: "st T1 g (set_color RED) = Inr T2" "pres T1 T2"
      "srep T2 gs (Nd y g RED kg vg (Nd u p BLACK kp vp ?t))"
    using recolour_frame [OF s1, of RED] srep_fill [of _ gs "FR y g RED kg vg"] by auto
  obtain T3 where 3: "rbtree_left_rotate T2 g = Inr T3" "pres T2 T3"
      "srep T3 gs (Nd (Nd y g RED kg vg u) p BLACK kp vp ?t)"
    using left_rotate_rep [OF 2(3)] by auto
  have res: "srep T3 (FR (Nd y g RED kg vg u) p BLACK kp vp # gs) ?t"
    using 3(3) srep_fill [of T3 gs "FR (Nd y g RED kg vg u) p BLACK kp vp" ?t] by simp
  have "pres T T3" using 1 2 3 by (blast intro: pres_trans)
  with res reads_up [OF s] reads_up(2) [OF 1(3)] 1(1) 2(1) 3(1) show ?thesis
    by (auto simp: insert_recolour_right_def)
qed

lemma fixup_right_outer:
  assumes s: "srep T (FR u p RED kp vp # FR y g cg kg vg # gs) (Nd a z cz kz vz b)" and y: "tcol y \<noteq> RED"
  shows "\<exists>T'. insert_fixup_right T z = Inr (T', z) \<and> pres T T' \<and>
    srep T' (FR (Nd y g RED kg vg u) p BLACK kp vp # gs) (Nd a z cz kz vz b)"
proof -
  have s': "srep T (FR y g cg kg vg # gs) (fill (FR u p RED kp vp) (Nd a z cz kz vz b))"
    using s by (simp only: srep_fill)
  have "z \<noteq> rt (nil T) u"
    using s by (intro rt_neq') (auto simp: srep_def)
  with recolour_right_rep [OF s] srep_sibling(2) [OF s' refl] y reads_up [OF s] show ?thesis
    by (auto simp: insert_fixup_right_def)
qed

lemma fixup_right_inner:
  assumes s: "srep T (FL p RED kp vp u # FR y g cg kg vg # gs) (Nd a z cz kz vz b)" and y: "tcol y \<noteq> RED"
  shows "\<exists>T'. insert_fixup_right T z = Inr (T', p) \<and> pres T T' \<and>
    srep T' (FR (Nd y g RED kg vg a) z BLACK kz vz # gs) (Nd b p RED kp vp u)"
proof -
  have s': "srep T (FR y g cg kg vg # gs) (Nd (Nd a z cz kz vz b) p RED kp vp u)"
    using s srep_fill [of T _ "FL p RED kp vp u" "Nd a z cz kz vz b"] by simp
  obtain T1 where 1: "rbtree_right_rotate T p = Inr T1" "pres T T1"
      "srep T1 (FR a z cz kz vz # FR y g cg kg vg # gs) (Nd b p RED kp vp u)"
    using right_rotate_rep [OF s'] srep_fill [of _ _ "FR a z cz kz vz" "Nd b p RED kp vp u"] by auto
  show ?thesis
    using 1 recolour_right_rep [OF 1(3)] srep_sibling(2) [OF s' refl] y reads_up [OF s] pres_trans
    by (fastforce simp: insert_fixup_right_def)
qed

section \<open>The loop refines the fix-up on trees\<close>

lemma loop_stops:
  assumes "srep T ctx (Nd a z cz kz vz b)" "case ctx of [] \<Rightarrow> True | f # _ \<Rightarrow> fcol f \<noteq> RED"
  shows "insert_fixup_loop (Suc n) T z = Inr T"
  using assms srep_node [OF assms(1)] srep_nil [OF assms(1)] srep_frame [of T _ _ "Nd a z cz kz vz b"]
  by (cases ctx) auto

lemma loop_left:
  assumes s: "srep T (f # FL g cg kg vg y # gs) (Nd a z cz kz vz b)" and f: "fcol f = RED"
  shows "insert_fixup_loop (Suc n) T z =
    andthen (insert_fixup_left T z) (\<lambda>(T, z). insert_fixup_loop n T z)"
  using reads_up [OF s] f by simp

lemma loop_right:
  assumes s: "srep T (f # FR y g cg kg vg # gs) (Nd a z cz kz vz b)" and f: "fcol f = RED"
  shows "insert_fixup_loop (Suc n) T z =
    andthen (insert_fixup_right T z) (\<lambda>(T, z). insert_fixup_loop n T z)"
proof -
  have "fptr f \<noteq> rt (nil T) y"
    using s by (intro rt_neq'; cases f) (auto simp: srep_def)
  with reads_up [OF s] f show ?thesis by simp
qed

definition top_ok :: "frame list \<Rightarrow> bool" where
  "top_ok ctx \<longleftrightarrow> ctx \<noteq> [] \<longrightarrow> fcol (last ctx) \<noteq> RED"

lemma top_ok_simps [simp]: "top_ok []" "top_ok [f] \<longleftrightarrow> fcol f \<noteq> RED" "top_ok (f # g # gs) \<longleftrightarrow> top_ok (g # gs)"
  by (simp_all add: top_ok_def)

lemma top_ok_tl: "top_ok (f # fs) \<Longrightarrow> top_ok fs"
  by (simp add: top_ok_def split: if_splits)

definition loop_goal :: "rbtree \<Rightarrow> nat \<Rightarrow> ptr \<Rightarrow> ptree \<Rightarrow> bool" where
  "loop_goal T fuel z t \<longleftrightarrow> (\<exists>T'. insert_fixup_loop fuel T z = Inr T' \<and> srep T' [] t \<and> pres T T')"

lemma loop_goal_stop:
  assumes "srep T ctx (Nd a z cz kz vz b)" "case ctx of [] \<Rightarrow> True | f # _ \<Rightarrow> fcol f \<noteq> RED" "0 < fuel"
  shows "loop_goal T fuel z (plug ctx (Nd a z cz kz vz b))"
  using loop_stops [OF assms(1,2)] assms unfolding loop_goal_def
  by (cases fuel) (auto simp: srep_plug)

lemma loop_goal_step:
  assumes "insert_fixup_loop (Suc n) T z = andthen step (\<lambda>(T, z). insert_fixup_loop n T z)"
    and "step = Inr (T', z')" "pres T T'" "loop_goal T' n z' t"
  shows "loop_goal T (Suc n) z t"
  using assms unfolding loop_goal_def by (fastforce intro: pres_trans)

lemma loop_goal_left:
  assumes s: "srep T (f # FL g cg kg vg y # gs) (Nd a z cz kz vz b)" and n: "1 < n"
    and IH: "\<And>T'. tcol y = RED \<Longrightarrow> srep T' gs (Nd (fill (fpaint BLACK f) (Nd a z cz kz vz b)) g RED kg vg (paint BLACK y))
      \<Longrightarrow> loop_goal T' n g (zfix gs (Nd (fill (fpaint BLACK f) (Nd a z cz kz vz b)) g RED kg vg (paint BLACK y)))"
  shows "loop_goal T (Suc n) z (zfix (f # FL g cg kg vg y # gs) (Nd a z cz kz vz b))"
proof -
  consider "fcol f \<noteq> RED" | "fcol f = RED" "tcol y = RED" | "fcol f = RED" "tcol y \<noteq> RED" by auto
  then show ?thesis
  proof cases
    case 1
    then show ?thesis using loop_goal_stop [OF s, of "Suc n"] by (simp add: zfix_black)
  next
    case 2
    with fixup_left_red [OF s 2(2)] IH loop_goal_step [OF loop_left [OF s 2(1), of n]] show ?thesis
      by (cases f) auto
  next
    case 3
    show ?thesis
    proof (cases f)
      case (FL p cp kp vp u)
      with 3 s have s': "srep T (FL p RED kp vp u # FL g cg kg vg y # gs) (Nd a z cz kz vz b)" by simp
      obtain T' where T': "insert_fixup_left T z = Inr (T', z)" "pres T T'"
          "srep T' (FL p BLACK kp vp (Nd u g RED kg vg y) # gs) (Nd a z cz kz vz b)"
        using fixup_left_outer [OF s' 3(2)] by auto
      from loop_goal_stop [OF T'(3), of n] n FL 3 show ?thesis
        using loop_goal_step [OF loop_left [OF s 3(1), of n] T'(1,2)] by simp
    next
      case (FR u p cp kp vp)
      with 3 s have s': "srep T (FR u p RED kp vp # FL g cg kg vg y # gs) (Nd a z cz kz vz b)" by simp
      obtain T' where T': "insert_fixup_left T z = Inr (T', p)" "pres T T'"
          "srep T' (FL z BLACK kz vz (Nd b g RED kg vg y) # gs) (Nd u p RED kp vp a)"
        using fixup_left_inner [OF s' 3(2)] by auto
      from loop_goal_stop [OF T'(3), of n] n FR 3 show ?thesis
        using loop_goal_step [OF loop_left [OF s 3(1), of n] T'(1,2)] by simp
    qed
  qed
qed

lemma loop_goal_right:
  assumes s: "srep T (f # FR y g cg kg vg # gs) (Nd a z cz kz vz b)" and n: "1 < n"
    and IH: "\<And>T'. tcol y = RED \<Longrightarrow> srep T' gs (Nd (paint BLACK y) g RED kg vg (fill (fpaint BLACK f) (Nd a z cz kz vz b)))
      \<Longrightarrow> loop_goal T' n g (zfix gs (Nd (paint BLACK y) g RED kg vg (fill (fpaint BLACK f) (Nd a z cz kz vz b))))"
  shows "loop_goal T (Suc n) z (zfix (f # FR y g cg kg vg # gs) (Nd a z cz kz vz b))"
proof -
  consider "fcol f \<noteq> RED" | "fcol f = RED" "tcol y = RED" | "fcol f = RED" "tcol y \<noteq> RED" by auto
  then show ?thesis
  proof cases
    case 1
    then show ?thesis using loop_goal_stop [OF s, of "Suc n"] by (simp add: zfix_black)
  next
    case 2
    with fixup_right_red [OF s 2(2)] IH loop_goal_step [OF loop_right [OF s 2(1), of n]] show ?thesis
      by (cases f) auto
  next
    case 3
    show ?thesis
    proof (cases f)
      case (FR u p cp kp vp)
      with 3 s have s': "srep T (FR u p RED kp vp # FR y g cg kg vg # gs) (Nd a z cz kz vz b)" by simp
      obtain T' where T': "insert_fixup_right T z = Inr (T', z)" "pres T T'"
          "srep T' (FR (Nd y g RED kg vg u) p BLACK kp vp # gs) (Nd a z cz kz vz b)"
        using fixup_right_outer [OF s' 3(2)] by auto
      from loop_goal_stop [OF T'(3), of n] n FR 3 show ?thesis
        using loop_goal_step [OF loop_right [OF s 3(1), of n] T'(1,2)] by simp
    next
      case (FL p cp kp vp u)
      with 3 s have s': "srep T (FL p RED kp vp u # FR y g cg kg vg # gs) (Nd a z cz kz vz b)" by simp
      obtain T' where T': "insert_fixup_right T z = Inr (T', p)" "pres T T'"
          "srep T' (FR (Nd y g RED kg vg a) z BLACK kz vz # gs) (Nd b p RED kp vp u)"
        using fixup_right_inner [OF s' 3(2)] by auto
      from loop_goal_stop [OF T'(3), of n] n FL 3 show ?thesis
        using loop_goal_step [OF loop_right [OF s 3(1), of n] T'(1,2)] by simp
    qed
  qed
qed

lemma insert_fixup_loop_rep:
  assumes "srep T ctx t" "t \<noteq> Lf" "length ctx < fuel" "top_ok ctx"
  shows "loop_goal T fuel (rt (nil T) t) (zfix ctx t)"
  using assms
proof (induction "length ctx" arbitrary: T ctx t fuel rule: less_induct)
  case less
  obtain a z cz kz vz b where t: "t = Nd a z cz kz vz b" using less(3) by (cases t) auto
  obtain n where n: "fuel = Suc n" using less(4) by (cases fuel) auto
  have IH: "loop_goal T' n g (zfix gs (Nd l g c k v r))"
    if "srep T' gs (Nd l g c k v r)" "Suc (length gs) < length ctx" "top_ok gs" for T' gs l g c k v r
    using less(1) [OF _ that(1), of n] that less(4) n by simp
  consider "ctx = []" | f where "ctx = [f]" | f g gs where "ctx = f # g # gs"
    by (cases ctx rule: list.exhaust [case_product list.exhaust]) (metis list.exhaust)+
  then show ?case
  proof cases
    case (3 f g gs)
    then show ?thesis
      using loop_goal_left [of T f _ _ _ _ _ gs] loop_goal_right [of T f _ _ _ _ _ gs]
        less(2,4,5) n t IH [of _ gs] by (cases g) (auto dest: top_ok_tl)
  qed (use loop_goal_stop [of T ctx a z cz kz vz b fuel] less n t in \<open>auto simp: zfix_black\<close>)
qed

section \<open>The red-black invariant\<close>

fun bheight :: "ptree \<Rightarrow> nat" where
  "bheight Lf = 0"
| "bheight (Nd l a co k v r) = bheight l + (if co = BLACK then 1 else 0)"

fun invh :: "ptree \<Rightarrow> bool" where
  "invh Lf = True"
| "invh (Nd l a co k v r) = (bheight l = bheight r \<and> invh l \<and> invh r)"

fun invc :: "ptree \<Rightarrow> bool" where
  "invc Lf = True"
| "invc (Nd l a co k v r) = ((co = RED \<or> co = BLACK) \<and> (co = RED \<longrightarrow> tcol l = BLACK \<and> tcol r = BLACK)
     \<and> invc l \<and> invc r)"

definition rbt :: "ptree \<Rightarrow> bool" where
  "rbt t \<longleftrightarrow> invc t \<and> invh t \<and> tcol t = BLACK"

fun fsib :: "frame \<Rightarrow> ptree" where
  "fsib (FL a co k v r) = r"
| "fsib (FR l a co k v) = l"

text \<open>A context whose hole takes a tree of black height \<open>n\<close>, up to the colour of that tree's root.\<close>

fun cinv :: "nat \<Rightarrow> frame list \<Rightarrow> bool" where
  "cinv n [] = True"
| "cinv n (f # fs) = ((fcol f = RED \<or> fcol f = BLACK) \<and> invc (fsib f) \<and> invh (fsib f) \<and> bheight (fsib f) = n
     \<and> (fcol f = RED \<longrightarrow> tcol (fsib f) = BLACK \<and> fs \<noteq> [] \<and> fcol (hd fs) = BLACK)
     \<and> cinv (n + (if fcol f = BLACK then 1 else 0)) fs)"

definition hole_black :: "frame list \<Rightarrow> bool" where
  "hole_black ctx \<longleftrightarrow> ctx \<noteq> [] \<and> fcol (hd ctx) = RED"

lemma tcol_paint [simp]: "tcol (paint BLACK t) = BLACK"
  by (cases t) auto

lemma invc_paint [simp]: "invc t \<Longrightarrow> invc (paint BLACK t)"
  by (cases t) auto

lemma invh_paint [simp]: "invh t \<Longrightarrow> invh (paint c t)"
  by (cases t) auto

lemma bheight_paint_red [simp]: "tcol t = RED \<Longrightarrow> bheight (paint BLACK t) = Suc (bheight t)"
  by (cases t) auto

lemma fill_inv:
  assumes "cinv (bheight t) (f # fs)" "invc t" "invh t" "fcol f = RED \<longrightarrow> tcol t = BLACK"
  shows "invc (fill f t)" "invh (fill f t)" "tcol (fill f t) = fcol f"
    "cinv (bheight (fill f t)) fs"
  using assms by (cases f; auto)+

lemma cinv_plug:
  assumes "cinv (bheight t) ctx" "invc t" "invh t" "hole_black ctx \<longrightarrow> tcol t = BLACK"
  shows "invc (plug ctx t) \<and> invh (plug ctx t) \<and> (ctx \<noteq> [] \<longrightarrow> tcol (plug ctx t) = BLACK)"
  using assms
proof (induction ctx t rule: plug.induct)
  case (2 f fs t)
  have f: "fcol f = RED \<longrightarrow> tcol t = BLACK" using 2(5) by (simp add: hole_black_def)
  note F = fill_inv [OF 2(2-4) f]
  have "hole_black fs \<longrightarrow> tcol (fill f t) = BLACK" using 2(2) F(3) by (auto simp: hole_black_def)
  with 2(1) [OF F(4,1,2)] F(3) 2(2) show ?case by (cases fs) auto
qed simp

lemma plug_inv:
  assumes "invc (plug ctx t)" "invh (plug ctx t)" "tcol (plug ctx t) = BLACK"
  shows "cinv (bheight t) ctx \<and> invc t \<and> invh t \<and> (hole_black ctx \<longrightarrow> tcol t = BLACK)"
  using assms
proof (induction ctx t rule: plug.induct)
  case (2 f fs t)
  then have "cinv (bheight (fill f t)) fs \<and> invc (fill f t) \<and> invh (fill f t)
    \<and> (hole_black fs \<longrightarrow> tcol (fill f t) = BLACK)" by simp
  moreover have "fs = [] \<Longrightarrow> tcol (fill f t) = BLACK" using 2(4) by simp
  ultimately show ?case by (cases f; cases fs) (auto simp: hole_black_def)
qed (simp add: hole_black_def)

lemma zfix_inv_black:
  assumes "cinv (bheight t) ctx" "invc t" "invh t" "\<not> hole_black ctx"
  shows "invc (zfix ctx t) \<and> invh (zfix ctx t)"
proof -
  have "zfix ctx t = plug ctx t"
    using assms(1,4) by (intro zfix_black) (auto simp: hole_black_def split: list.splits)
  with cinv_plug [OF assms(1-3)] assms(4) show ?thesis by simp
qed

lemma cinv_red_parent:
  assumes "cinv n (f # g # gs)" "fcol f = RED"
  shows "fcol g = BLACK" "invc (fsib f)" "invh (fsib f)" "bheight (fsib f) = n" "tcol (fsib f) = BLACK"
    "invc (fsib g)" "invh (fsib g)" "bheight (fsib g) = n" "cinv (Suc n) gs"
  using assms by (cases "fcol g = BLACK"; simp)+

text \<open>A black node put into the place of the grandparent.\<close>

lemma plug_black_inv:
  assumes "cinv (Suc n) gs" "invc l" "invc r" "invh l" "invh r" "bheight l = n" "bheight r = n"
  shows "invc (plug gs (Nd l a BLACK k v r)) \<and> invh (plug gs (Nd l a BLACK k v r))"
  using cinv_plug [of "Nd l a BLACK k v r" gs] assms by simp

lemma red_black_col: "invc t \<Longrightarrow> tcol t \<noteq> RED \<Longrightarrow> tcol t = BLACK"
  by (cases t) auto

lemma zfix_inv:
  assumes "cinv (bheight t) ctx" "invc t" "invh t" "tcol t = RED"
  shows "invc (zfix ctx t) \<and> invh (zfix ctx t)"
  using assms
proof (induction ctx t rule: zfix.induct)
  case (1 p cp kp vp u g cg kg vg y gs t)
  then show ?case
    using cinv_red_parent [OF 1(2)] red_black_col [of y] zfix_inv_black [OF 1(2-4)]
    by (cases "cp = RED"; cases "tcol y = RED") (simp_all add: plug_black_inv hole_black_def)
next
  case (2 u p cp kp vp g cg kg vg y gs a z cz kz vz b)
  then show ?case
    using cinv_red_parent [OF 2(2)] red_black_col [of y] zfix_inv_black [OF 2(2-4)]
    by (cases "cp = RED"; cases "tcol y = RED") (simp_all add: plug_black_inv hole_black_def)
next
  case (3 u p cp kp vp y g cg kg vg gs t)
  then show ?case
    using cinv_red_parent [OF 3(2)] red_black_col [of y] zfix_inv_black [OF 3(2-4)]
    by (cases "cp = RED"; cases "tcol y = RED") (simp_all add: plug_black_inv hole_black_def)
next
  case (4 p cp kp vp u y g cg kg vg gs a z cz kz vz b)
  then show ?case
    using cinv_red_parent [OF 4(2)] red_black_col [of y] zfix_inv_black [OF 4(2-4)]
    by (cases "cp = RED"; cases "tcol y = RED") (simp_all add: plug_black_inv hole_black_def)
qed (use fill_inv [where fs = "[]"] in auto)

lemma inorder_plug: "inorder t = inorder t' \<Longrightarrow> inorder (plug ctx t) = inorder (plug ctx t')"
proof (induction ctx arbitrary: t t')
  case (Cons f fs)
  then show ?case by (cases f) auto
qed simp

lemma inorder_paint [simp]: "inorder (paint c t) = inorder t"
  by (cases t) auto

lemma inorder_zfix: "inorder (zfix ctx t) = inorder (plug ctx t)"
  by (induction ctx t rule: zfix.induct) (auto intro!: inorder_plug)

end
