(* ===== verification/Kvs_Rbtree_Engine.thy ===== *)
theory Kvs_Rbtree_Engine
  imports Kvs_Rbtree_Insert
begin

text \<open>
  The engine's operations on a well-formed tree: lookup, insertion of a new and of a present key,
  modification. The invariant \<open>rb_inv T t\<close> says that the heap of \<open>T\<close> holds the red-black search tree
  \<open>t\<close> and that live addresses lie below the allocator's next address, which is what makes the fuel
  of every loop enough.
\<close>

section \<open>The invariant\<close>

definition heap_ok :: "rbtree \<Rightarrow> bool" where
  "heap_ok T \<longleftrightarrow> (\<forall>p. cells T p \<noteq> None \<longrightarrow> 0 < p \<and> p < brk T)"

definition rb_inv :: "rbtree \<Rightarrow> ptree \<Rightarrow> bool" where
  "rb_inv T t \<longleftrightarrow> srep T [] t \<and> rbt t \<and> bst t \<and> list_all (\<lambda>e. is_Str (snd e)) (inorder t) \<and> heap_ok T"

lemma trep_dom: "trep c nl par t \<Longrightarrow> a \<in> set (ads t) \<Longrightarrow> c a \<noteq> None"
  by (induction t arbitrary: par) auto

lemma fuel_enough:
  assumes "srep T [] t" "heap_ok T"
  shows "length (ads t) < brk T"
proof -
  have "set (nil T # ads t) \<subseteq> {1..<brk T}"
    using assms srep_nil [OF assms(1)] trep_dom [of "cells T" "nil T"]
    by (fastforce simp: srep_def heap_ok_def)
  then have "card (set (nil T # ads t)) \<le> brk T - 1"
    by (metis card_atLeastLessThan card_mono finite_atLeastLessThan)
  moreover have "card (set (nil T # ads t)) = Suc (length (ads t))"
    using assms(1) by (simp add: srep_def distinct_card)
  ultimately show ?thesis by linarith
qed

lemma rbtree_search_rep:
  assumes "srep T [] t" "heap_ok T"
  shows "rbtree_search T k = Inr (taddr (nil T) t k)"
proof -
  have "height t < brk T" using fuel_enough [OF assms] height_ads [of t] by simp
  with assms(1) search_loop_rep [of T "nil T" t "brk T" k] show ?thesis
    by (simp add: rbtree_search_def srep_def)
qed

section \<open>Insertion\<close>

definition fside :: "string \<Rightarrow> frame list \<Rightarrow> bool" where
  "fside k ctx = (case ctx of [] \<Rightarrow> True | FL a co k' v r # fs \<Rightarrow> k < k' | FR l a co k' v # fs \<Rightarrow> k' < k)"

lemma zdown_side: "fside k ctx \<Longrightarrow> zdown k ctx t = (ctx', t') \<Longrightarrow> fside k ctx'"
  by (induction k ctx t rule: zdown.induct) (auto simp: fside_def split: if_splits)

lemma length_ads_plug: "length (ads (plug ctx t)) = length (cads ctx) + length (ads t)"
proof (induction ctx arbitrary: t)
  case (Cons f fs)
  then show ?case by (cases f) auto
qed simp

lemma set_ads_plug: "set (ads (plug ctx t)) = set (cads ctx) \<union> set (ads t)"
proof (induction ctx arbitrary: t)
  case (Cons f fs)
  then show ?case by (cases f) auto
qed simp

lemma length_cads: "length ctx \<le> length (cads ctx)"
proof (induction ctx)
  case (Cons f fs)
  then show ?case by (cases f) auto
qed simp

text \<open>The entries to the left and to the right of the hole of a context.\<close>

fun cleft :: "frame list \<Rightarrow> (string \<times> cstr) list" where
  "cleft [] = []"
| "cleft (FL a co k v r # fs) = cleft fs"
| "cleft (FR l a co k v # fs) = cleft fs @ inorder l @ [(k, v)]"

fun cright :: "frame list \<Rightarrow> (string \<times> cstr) list" where
  "cright [] = []"
| "cright (FL a co k v r # fs) = (k, v) # inorder r @ cright fs"
| "cright (FR l a co k v # fs) = cright fs"

lemma inorder_plug_split: "inorder (plug ctx t) = cleft ctx @ inorder t @ cright ctx"
proof (induction ctx arbitrary: t)
  case (Cons f fs)
  then show ?case by (cases f) auto
qed simp

definition between :: "string \<Rightarrow> frame list \<Rightarrow> bool" where
  "between k ctx \<longleftrightarrow> (\<forall>x\<in>fst ` set (cleft ctx). x < k) \<and> (\<forall>x\<in>fst ` set (cright ctx). k < x)"

lemma zdown_between:
  "bst t \<Longrightarrow> between k ctx \<Longrightarrow> zdown k ctx t = (ctx', t') \<Longrightarrow> between k ctx'"
proof (induction k ctx t rule: zdown.induct)
  case (2 k ctx l a co k' v r)
  have L: "between k (FL a co k' v r # ctx)" if "k < k'"
    using 2(3,4) that by (auto simp: between_def bst_Nd intro: less_trans)
  have R: "between k (FR l a co k' v # ctx)" if "k' < k"
    using 2(3,4) that by (auto simp: between_def bst_Nd intro: less_trans)
  from L R 2 show ?case
    by (cases "k < k'"; cases "k' < k") (auto simp: bst_Nd)
qed simp

lemma bst_insert:
  assumes "bst (plug ctx Lf)" "between k ctx"
  shows "bst (plug ctx (Nd Lf z c k v Lf))"
    "map_of (inorder (plug ctx (Nd Lf z c k v Lf))) = (map_of (inorder (plug ctx Lf)))(k \<mapsto> v)"
proof -
  show "bst (plug ctx (Nd Lf z c k v Lf))"
    using assms by (auto simp: bst_def between_def inorder_plug_split sorted_wrt_append)
  have "map_of (cleft ctx) k = None" using assms(2) by (auto simp: between_def map_of_eq_None_iff)
  then show "map_of (inorder (plug ctx (Nd Lf z c k v Lf))) = (map_of (inorder (plug ctx Lf)))(k \<mapsto> v)"
    by (auto simp: inorder_plug_split map_add_def fun_eq_iff split: option.splits)
qed

text \<open>Linking the new node below the place where the descent ended.\<close>

lemma insert_link_rep:
  assumes s: "srep T ctx Lf" and z: "cells T z = Some nz" "z \<notin> set (cads ctx)" "z \<noteq> nil T"
    and side: "fside (nkey nz) ctx"
  shows "\<exists>T'. insert_link T z (cpar (nil T) ctx) = Inr T'
    \<and> srep T' ctx (Nd Lf z RED (nkey nz) (nvalue nz) Lf) \<and> pres T T'"
  using s z side
  by (cases ctx rule: frames_cases)
    (auto simp: srep_def insert_link_def pres_def fside_def nil_ok_def)

lemma rbt_split:
  assumes "rbt (plug ctx t)"
  shows "cinv (bheight t) ctx" "invc t" "invh t" "top_ok ctx"
proof -
  show c: "cinv (bheight t) ctx" "invc t" "invh t"
    using plug_inv [of ctx t] assms by (auto simp: rbt_def)
  have "top_ok ctx" if "cinv n ctx" for n
    using that by (induction ctx arbitrary: n) (auto simp: top_ok_def)
  with c show "top_ok ctx" by blast
qed

lemma rbtree_insert_rep:
  assumes s: "srep T [] t" and ok: "heap_ok T" and t: "rbt t"
    and z: "cells T z = Some nz" "z \<notin> set (ads t)" "z \<noteq> nil T"
    and d: "zdown (nkey nz) [] t = (ctx, Lf)"
  shows "\<exists>T' t'. rbtree_insert T z = Inr T' \<and> srep T' [] t' \<and> rbt t' \<and> pres T T'
    \<and> inorder t' = inorder (plug ctx (Nd Lf z RED (nkey nz) (nvalue nz) Lf))"
proof -
  let ?n = "Nd Lf z RED (nkey nz) (nvalue nz) Lf"
  have p: "plug ctx Lf = t" using zdown_plug [OF d] by simp
  have sc: "srep T ctx Lf" using s srep_plug [of T ctx Lf] p by simp
  have len: "length (cads ctx) < brk T"
    using fuel_enough [OF s ok] length_ads_plug [of ctx Lf] p by simp
  have zc: "z \<notin> set (cads ctx)"
    using z(2) set_ads_plug [of ctx Lf] p by auto
  have desc: "insert_descend (brk T) T (nkey nz) (root T) (nil T) = Inr (Some (cpar (nil T) ctx))"
    using insert_descend_rep [OF s _ d, of "brk T"] fuel_enough [OF s ok] height_ads [of t] s
    by (simp add: srep_def)
  obtain T1 where 1: "insert_link T z (cpar (nil T) ctx) = Inr T1" "srep T1 ctx ?n" "pres T T1"
    using insert_link_rep [OF sc z(1) zc z(3)] zdown_side [OF _ d] by (auto simp: fside_def)
  note R = rbt_split [of ctx Lf, unfolded p, OF t]
  obtain T2 where 2: "insert_fixup_loop (brk T1) T1 z = Inr T2" "srep T2 [] (zfix ctx ?n)" "pres T1 T2"
    using insert_fixup_loop_rep [OF 1(2), of "brk T1"] len length_cads [of ctx] 1(3) R(4)
    by (auto simp: loop_goal_def pres_def)
  have inv: "invc (zfix ctx ?n) \<and> invh (zfix ctx ?n)"
    using zfix_inv [of ?n ctx] R by simp
  obtain l a co k v r where f: "zfix ctx ?n = Nd l a co k v r"
    using inorder_zfix [of ctx ?n] by (cases "zfix ctx ?n") (auto simp: inorder_plug_split)
  obtain T3 where 3: "st T2 (root T2) (set_color BLACK) = Inr T3" "srep T3 [] (paint BLACK (zfix ctx ?n))"
      "pres T2 T3"
    using recolour [of T2 "[]" l a co k v r BLACK] 2(2) f by (auto simp: srep_def)
  have "rbtree_insert T z = Inr T3"
    using z(1) desc 1(1) 2(1) 3(1) by (simp add: rbtree_insert_def rbtree_insert_fixup_def)
  moreover have "rbt (paint BLACK (zfix ctx ?n))" using inv by (simp add: rbt_def)
  moreover have "pres T T3" using 1 2 3 by (blast intro: pres_trans)
  ultimately show ?thesis using 3(2) inorder_zfix [of ctx ?n] by (metis inorder_paint)
qed

section \<open>The operations on a well-formed tree\<close>

fun str_opt :: "cstr \<Rightarrow> string option" where
  "str_opt (Str s) = Some s"
| "str_opt _ = None"

text \<open>The dictionary: what a traversal prints.\<close>

definition rb_view :: "rbtree option \<Rightarrow> string \<Rightarrow> string option" where
  "rb_view s k = (case s of None \<Rightarrow> None
     | Some T \<Rightarrow> (case rbtree_traversal (brk T) T (root T) of
           Inl e \<Rightarrow> None | Inr xs \<Rightarrow> Option.bind (map_of xs k) str_opt))"

definition rb_ok :: "rbtree option \<Rightarrow> bool" where
  "rb_ok s \<longleftrightarrow> (\<exists>T t. s = Some T \<and> rb_inv T t)"

lemma rb_view_inorder:
  assumes "rb_inv T t"
  shows "rb_view (Some T) k = Option.bind (map_of (inorder t) k) str_opt"
proof -
  have "height t < brk T" using assms fuel_enough [of T t] height_ads [of t] by (simp add: rb_inv_def)
  with assms traversal_rep [of T "nil T" t "brk T"] show ?thesis
    by (simp add: rb_view_def rb_inv_def srep_def)
qed

lemma map_of_inorder_Str:
  "list_all (\<lambda>e. is_Str (snd e)) (inorder t) \<Longrightarrow> map_of (inorder t) k = Some v \<Longrightarrow> is_Str v"
  by (auto simp: list_all_iff dest!: map_of_SomeD)

text \<open>A key that is in the tree, as a zipper; a key that is not.\<close>

lemma zdown_present:
  assumes "rb_inv T t" "rb_view (Some T) k = Some w"
  obtains ctx l a co r where "zdown k [] t = (ctx, Nd l a co k (Str w) r)"
    "srep T ctx (Nd l a co k (Str w) r)" "plug ctx (Nd l a co k (Str w) r) = t"
    "taddr (nil T) t k = a" "between k ctx" "a \<noteq> nil T"
proof -
  obtain ctx t' where d: "zdown k [] t = (ctx, t')" by fastforce
  have b: "between k ctx" using zdown_between [OF _ _ d] assms(1) by (simp add: rb_inv_def between_def)
  have p: "plug ctx t' = t" using zdown_plug [OF d] by simp
  have None: "map_of (cleft ctx) k = None" "map_of (cright ctx) k = None"
    using b by (auto simp: between_def map_of_eq_None_iff)
  have v: "Option.bind (map_of (inorder t) k) str_opt = Some w"
    using rb_view_inorder [OF assms(1)] assms(2) by simp
  obtain l a co k' v r where t': "t' = Nd l a co k' v r"
    using v None p inorder_plug_split [of ctx Lf] by (cases t') (auto simp: map_add_def)
  have k': "k' = k" "taddr (nil T) t k = a" using zdown_found d t' by auto
  have s: "srep T ctx t'" using assms(1) p srep_plug [of T ctx t'] by (simp add: rb_inv_def)
  have "bst t'" using assms(1) p inorder_plug_split [of ctx t']
    by (auto simp: rb_inv_def bst_def sorted_wrt_append)
  then have "map_of (inorder l) k = None"
    unfolding t' k' bst_Nd by (auto simp: map_of_eq_None_iff)
  with v None p inorder_plug_split [of ctx t'] have "v = Str w"
    by (cases v) (auto simp: map_add_def t' k')
  with that d s p b k' show thesis by (auto simp: t' srep_def)
qed

lemma zdown_absent:
  assumes "rb_inv T t" "rb_view (Some T) k = None"
  obtains ctx where "zdown k [] t = (ctx, Lf)" "plug ctx Lf = t" "taddr (nil T) t k = nil T" "between k ctx"
proof -
  obtain ctx t' where d: "zdown k [] t = (ctx, t')" by fastforce
  have b: "between k ctx" using zdown_between [OF _ _ d] assms(1) by (simp add: rb_inv_def between_def)
  have p: "plug ctx t' = t" using zdown_plug [OF d] by simp
  have m: "map_of (inorder t) k = None"
    using rb_view_inorder [OF assms(1)] assms(2) map_of_inorder_Str [of t k] assms(1)
    by (cases "map_of (inorder t) k") (auto simp: rb_inv_def elim: is_StrE)
  have "t' = Lf"
  proof (cases t')
    case (Nd l a co k' v r)
    with zdown_found [of k "[]" t] d have "k' = k" by auto
    with m p inorder_plug_split [of ctx t'] Nd show ?thesis by (auto simp: map_of_eq_None_iff)
  qed
  with that d p b zdown_missing [of k "[]" t ctx "nil T"] show thesis by auto
qed

lemma kvs_rbtree_get_rep:
  assumes "rb_inv T t"
  shows "kvs_rbtree_get (Some T) (Str k) = Inr (cstr_of (rb_view (Some T) k))"
proof (cases "rb_view (Some T) k")
  case None
  then show ?thesis
    using zdown_absent [OF assms None] assms rbtree_search_rep [of T t k]
    by (auto simp: kvs_rbtree_get_def rb_inv_def)
next
  case (Some w)
  obtain ctx l a co r where "srep T ctx (Nd l a co k (Str w) r)" "taddr (nil T) t k = a" "a \<noteq> nil T"
    using zdown_present [OF assms Some] .
  with assms rbtree_search_rep [of T t k] srep_node Some show ?thesis
    by (simp add: kvs_rbtree_get_def rb_inv_def)
qed

lemma kvs_rbtree_exist_rep:
  assumes "rb_inv T t"
  shows "kvs_rbtree_exist (Some T) (Str k) = Inr (if rb_view (Some T) k = None then 1 else 0)"
proof (cases "rb_view (Some T) k")
  case None
  then show ?thesis
    using zdown_absent [OF assms None] assms rbtree_search_rep [of T t k]
    by (auto simp: kvs_rbtree_exist_def rb_inv_def)
next
  case (Some w)
  then show ?thesis
    using zdown_present [OF assms Some] assms rbtree_search_rep [of T t k]
    by (auto simp: kvs_rbtree_exist_def rb_inv_def)
qed

lemma rbt_plug_cong:
  assumes "rbt (plug ctx t)" "bheight t' = bheight t" "invc t'" "invh t'" "tcol t' = tcol t"
  shows "rbt (plug ctx t')"
  using plug_inv [of ctx t] cinv_plug [of t' ctx] assms by (cases ctx) (auto simp: rbt_def)

lemma kvs_rbtree_mod_rep:
  assumes i: "rb_inv T t"
  shows "rb_view (Some T) k = None \<Longrightarrow> kvs_rbtree_mod malloc_ok (Some T) (Str k) (Str v) = Inr (Some T, 1)"
    and "rb_view (Some T) k = Some w \<Longrightarrow> \<exists>T' t'. kvs_rbtree_mod malloc_ok (Some T) (Str k) (Str v) = Inr (Some T', 0)
      \<and> rb_inv T' t' \<and> map_of (inorder t') = (map_of (inorder t))(k \<mapsto> Str v) \<and> dom (cells T') = dom (cells T)
      \<and> brk T' = brk T"
proof -
  assume n: "rb_view (Some T) k = None"
  show "kvs_rbtree_mod malloc_ok (Some T) (Str k) (Str v) = Inr (Some T, 1)"
    using zdown_absent [OF i n] i rbtree_search_rep [of T t k]
    by (auto simp: kvs_rbtree_mod_def rb_inv_def)
next
  assume o: "rb_view (Some T) k = Some w"
  obtain ctx l a co r where z: "srep T ctx (Nd l a co k (Str w) r)" "plug ctx (Nd l a co k (Str w) r) = t"
      "taddr (nil T) t k = a" "between k ctx" "a \<noteq> nil T"
    using zdown_present [OF i o] .
  let ?n = "Nd l a co k (Str v) r" and ?c = "the (cells T a)"
  let ?T = "T\<lparr>cells := (cells T)(a \<mapsto> ?c\<lparr>nvalue := Str v\<rparr>)\<rparr>"
  have ret: "kvs_rbtree_mod malloc_ok (Some T) (Str k) (Str v) = Inr (Some ?T, 0)"
    using i z(3,5) srep_node [OF z(1)] rbtree_search_rep [of T t k]
    by (simp add: kvs_rbtree_mod_def rb_inv_def)
  have "srep ?T ctx ?n" using z(1) by (auto simp: srep_def)
  then have s: "srep ?T [] (plug ctx ?n)" by (simp add: srep_plug)
  have r: "rbt (plug ctx ?n)"
    using rbt_plug_cong [of ctx "Nd l a co k (Str w) r" ?n] i rbt_split [of ctx "Nd l a co k (Str w) r"]
    by (simp add: rb_inv_def z(2))
  have "map_of (cleft ctx) k = None" "map_of (inorder l) k = None"
    using z(2,4) i inorder_plug_split [of ctx "Nd l a co k (Str w) r"]
    by (fastforce simp: rb_inv_def bst_def sorted_wrt_append between_def map_of_eq_None_iff)+
  then have m: "map_of (inorder (plug ctx ?n)) = (map_of (inorder t))(k \<mapsto> Str v)"
    unfolding z(2) [symmetric] inorder_plug_split
    by (auto simp: map_add_def fun_eq_iff split: option.splits)
  have "rb_inv ?T (plug ctx ?n)"
    using s r i srep_node [OF z(1)] inorder_plug_split [of ctx "Nd l a co k (Str w) r"]
      inorder_plug_split [of ctx ?n] by (auto simp: rb_inv_def bst_def z(2) heap_ok_def)
  with ret m srep_node [OF z(1)] show "\<exists>T' t'. kvs_rbtree_mod malloc_ok (Some T) (Str k) (Str v) = Inr (Some T', 0)
      \<and> rb_inv T' t' \<and> map_of (inorder t') = (map_of (inorder t))(k \<mapsto> Str v) \<and> dom (cells T') = dom (cells T)
      \<and> brk T' = brk T"
    by (intro exI [of _ ?T] exI [of _ "plug ctx ?n"]) auto
qed

lemma srep_fresh:
  assumes "p \<notin> set (cads ctx)" "p \<notin> set (ads t)" "p \<noteq> nil T"
  shows "srep (T\<lparr>cells := (cells T)(p := x), brk := b\<rparr>) ctx t = srep T ctx t"
    "srep (T\<lparr>cells := (cells T)(p := x)\<rparr>) ctx t = srep T ctx t"
  using assms by (simp_all add: srep_def nil_ok_def)

lemma fresh_brk:
  assumes "srep T [] t" "heap_ok T"
  shows "cells T (brk T) = None" "brk T \<notin> set (ads t)" "brk T \<noteq> nil T"
proof -
  show n: "cells T (brk T) = None" using assms(2) by (auto simp: heap_ok_def)
  show "brk T \<notin> set (ads t)" using n assms(1) trep_dom [of "cells T"] by (fastforce simp: srep_def)
  show "brk T \<noteq> nil T" using n srep_nil [OF assms(1)] by auto
qed

lemma rb_inv_alloc:
  assumes "rb_inv T t"
  shows "rb_inv (T\<lparr>cells := (cells T)(brk T \<mapsto> n), brk := Suc (brk T)\<rparr>) t"
proof -
  have s: "srep T [] t" and h: "heap_ok T" using assms by (simp_all add: rb_inv_def)
  have "0 < brk T" using srep_nil [OF s] h by (auto simp: heap_ok_def)
  with h have "heap_ok (T\<lparr>cells := (cells T)(brk T \<mapsto> n), brk := Suc (brk T)\<rparr>)"
    by (auto simp: heap_ok_def less_Suc_eq)
  with assms fresh_brk [OF s h] srep_fresh(1) [of "brk T" "[]" t T] show ?thesis
    by (simp add: rb_inv_def)
qed

lemma rb_inv_pres:
  assumes "pres T T'" "heap_ok T" "srep T' [] t" "rbt t" "bst t" "list_all (\<lambda>e. is_Str (snd e)) (inorder t)"
  shows "rb_inv T' t"
proof -
  have "cells T' p \<noteq> None \<Longrightarrow> cells T p \<noteq> None" for p
    using assms(1) by (auto simp: pres_def dom_def set_eq_iff)
  with assms show ?thesis by (auto simp: rb_inv_def heap_ok_def pres_def)
qed

lemma kvs_rbtree_set_present:
  assumes i: "rb_inv T t" and w: "rb_view (Some T) k = Some w"
  shows "\<exists>T'. kvs_rbtree_set malloc_ok junk (Some T) (Str k) (Str v) = Inr (Some T', 1) \<and> rb_inv T' t"
proof -
  let ?T = "T\<lparr>cells := (cells T)(brk T \<mapsto> junk), brk := Suc (brk T)\<rparr>"
  have i': "rb_inv ?T t" using rb_inv_alloc [OF i] .
  have "rb_view (Some ?T) k = Some w" using rb_view_inorder [OF i] rb_view_inorder [OF i'] w by simp
  then have "rbtree_search ?T k = Inr (taddr (nil T) t k)" "taddr (nil T) t k \<noteq> nil T"
    using zdown_present [OF i' ] rbtree_search_rep [of ?T t k] i' by (auto simp: rb_inv_def)
  with i' show ?thesis by (auto simp: kvs_rbtree_set_def new_node_def)
qed

lemma brk_cells_swap: "T\<lparr>brk := b, cells := c\<rparr> = T\<lparr>cells := c, brk := b\<rparr>"
  by simp

lemma kvs_rbtree_set_absent:
  assumes i: "rb_inv T t" and w: "rb_view (Some T) k = None"
  shows "\<exists>T' t'. kvs_rbtree_set malloc_ok junk (Some T) (Str k) (Str v) = Inr (Some T', 0) \<and> rb_inv T' t'
    \<and> map_of (inorder t') = (map_of (inorder t))(k \<mapsto> Str v)"
proof -
  let ?z = "brk T" and ?n = "junk\<lparr>nkey := k, nvalue := Str v\<rparr>"
  let ?T1 = "T\<lparr>cells := (cells T)(?z \<mapsto> junk), brk := Suc ?z\<rparr>"
  let ?T2 = "T\<lparr>cells := (cells T)(?z \<mapsto> ?n), brk := Suc ?z\<rparr>"
  have i1: "rb_inv ?T1 t" and i2: "rb_inv ?T2 t" using rb_inv_alloc [OF i] by blast+
  have v1: "rb_view (Some ?T1) k = None" using rb_view_inorder [OF i] rb_view_inorder [OF i1] w by simp
  obtain ctx where d: "zdown k [] t = (ctx, Lf)" "plug ctx Lf = t" "taddr (nil T) t k = nil T" "between k ctx"
    using zdown_absent [OF i w] .
  have sr: "rbtree_search ?T1 k = Inr (nil T)"
    using rbtree_search_rep [of ?T1 t k] i1 d(3) by (simp add: rb_inv_def)
  note fr = fresh_brk [of T t]
  let ?t = "plug ctx (Nd Lf ?z RED k (Str v) Lf)"
  obtain T' t' where T': "rbtree_insert ?T2 ?z = Inr T'" "srep T' [] t'" "rbt t'" "pres ?T2 T'"
      "inorder t' = inorder ?t"
    using rbtree_insert_rep [of ?T2 t ?z ?n ctx] i2 i d(1) fr by (auto simp: rb_inv_def)
  have ret: "kvs_rbtree_set malloc_ok junk (Some T) (Str k) (Str v) = Inr (Some T', 0)"
    using sr T'(1) by (simp add: kvs_rbtree_set_def new_node_def brk_cells_swap)
  have b: "bst t'" "map_of (inorder t') = (map_of (inorder t))(k \<mapsto> Str v)"
    using bst_insert [of ctx k ?z RED "Str v"] i d(2,4) T'(5) by (simp_all add: rb_inv_def bst_def)
  have "list_all (\<lambda>e. is_Str (snd e)) (inorder t')"
    using i d(2) T'(5) inorder_plug_split [of ctx Lf] inorder_plug_split [of ctx "Nd Lf ?z RED k (Str v) Lf"]
    by (auto simp: rb_inv_def)
  with rb_inv_pres [OF T'(4)] i2 T' b ret show ?thesis by (auto simp: rb_inv_def)
qed

lemma kvs_rbtree_create_rep:
  assumes "heap_ok T" "0 < brk T"
  shows "m 0 \<Longrightarrow> \<exists>T'. kvs_rbtree_create m junk (Some T) = Inr (Some T', 0) \<and> rb_ok (Some T')
      \<and> rb_view (Some T') = Map.empty"
    and "\<not> m 0 \<Longrightarrow> kvs_rbtree_create m junk (Some T) = Inl Segv"
proof -
  assume "m 0"
  let ?T = "T\<lparr>cells := (cells T)(brk T \<mapsto> junk\<lparr>ncolor := BLACK\<rparr>), brk := Suc (brk T), nil := brk T, root := brk T\<rparr>"
  have c: "kvs_rbtree_create m junk (Some T) = Inr (Some ?T, 0)"
    using \<open>m 0\<close> by (simp add: kvs_rbtree_create_def new_node_def)
  have "rb_inv ?T Lf"
    using assms by (auto simp: rb_inv_def srep_def nil_ok_def rbt_def bst_def heap_ok_def less_Suc_eq)
  with c rb_view_inorder [of ?T Lf] show "\<exists>T'. kvs_rbtree_create m junk (Some T) = Inr (Some T', 0)
      \<and> rb_ok (Some T') \<and> rb_view (Some T') = Map.empty"
    by (auto simp: rb_ok_def fun_eq_iff)
next
  assume "\<not> m 0"
  moreover have "cells T 0 = None" using assms(1) by (auto simp: heap_ok_def)
  ultimately show "kvs_rbtree_create m junk (Some T) = Inl Segv"
    by (simp add: kvs_rbtree_create_def new_node_def st_def)
qed

interpretation rbe: kv_engine rb_ok "\<lambda>_. True" "\<lambda>_. True" rb_view
  "\<lambda>s k. kvs_rbtree_get s (Str k)"
  "\<lambda>s k v. kvs_rbtree_set malloc_ok junk s (Str k) (Str v)"
  "\<lambda>s k v. kvs_rbtree_mod malloc_ok s (Str k) (Str v)"
  "\<lambda>s k. kvs_rbtree_exist s (Str k)"
  for junk
proof (unfold_locales, goal_cases)
  case (1 s k)
  then show ?case using kvs_rbtree_get_rep by (auto simp: rb_ok_def)
next
  case (2 s k v)
  then obtain T t where T: "s = Some T" "rb_inv T t" by (auto simp: rb_ok_def)
  with kvs_rbtree_set_absent [of T t k junk v] 2(4) rb_view_inorder show ?case
    by (fastforce simp: rb_ok_def fun_eq_iff)
next
  case (3 s k w v)
  then obtain T t where T: "s = Some T" "rb_inv T t" by (auto simp: rb_ok_def)
  with kvs_rbtree_set_present [of T t k w junk v] 3(4) rb_view_inorder show ?case
    by (fastforce simp: rb_ok_def fun_eq_iff)
next
  case (4 s k w v)
  then obtain T t where T: "s = Some T" "rb_inv T t" by (auto simp: rb_ok_def)
  with kvs_rbtree_mod_rep(2) [of T t k w v] 4(3) rb_view_inorder show ?case
    by (fastforce simp: rb_ok_def fun_eq_iff)
next
  case (5 s k v)
  then show ?case using kvs_rbtree_mod_rep(1) by (fastforce simp: rb_ok_def)
next
  case (6 s k)
  then show ?case using kvs_rbtree_exist_rep by (auto simp: rb_ok_def)
qed

end
