(* ===== verification/Kvs_Rbtree_Delete.thy ===== *)
theory Kvs_Rbtree_Delete
  imports Kvs_Rbtree_Engine
begin

text \<open>
  Deletion. Which node is unlinked is decided on the tree (\<open>splice\<close>). If that node is red, or has a
  child, or is the root, the deletion is right; if it is a black leaf below the root, the fix-up starts
  at the sentinel, whose parent field the code never sets.
\<close>

section \<open>Finding the node to unlink\<close>

fun zleft :: "frame list \<Rightarrow> ptree \<Rightarrow> frame list \<times> ptree" where
  "zleft ctx (Nd (Nd ll la lc lk lv lr) a co k v r) = zleft (FL a co k v r # ctx) (Nd ll la lc lk lv lr)"
| "zleft ctx t = (ctx, t)"

definition splice :: "ptree \<Rightarrow> string \<Rightarrow> frame list \<times> ptree" where
  "splice t k = (case zdown k [] t of
      (ctx, Lf) \<Rightarrow> (ctx, Lf)
    | (ctx, Nd l a co k' v r) \<Rightarrow>
        if l = Lf \<or> r = Lf then (ctx, Nd l a co k' v r) else zleft (FR l a co k' v # ctx) r)"

lemma zleft_plug: "zleft ctx t = (ctx', t') \<Longrightarrow> plug ctx' t' = plug ctx t"
  by (induction ctx t rule: zleft.induct) auto

lemma zleft_ctx:
  "zleft ctx t = (ctx', t') \<Longrightarrow> \<exists>c1. ctx' = c1 @ ctx \<and> (\<forall>fs. cleft (c1 @ fs) = cleft fs)"
proof (induction ctx t rule: zleft.induct)
  case (1 ctx ll la lc lk lv lr a co k v r)
  then obtain c1 where "ctx' = c1 @ FL a co k v r # ctx"
      "\<forall>fs. cleft (c1 @ fs) = cleft fs" by auto
  then show ?case by (intro exI [of _ "c1 @ [FL a co k v r]"]) simp
qed auto

lemma zleft_node:
  assumes "t \<noteq> Lf" "zleft ctx t = (ctx', t')"
  shows "\<exists>y cy ky vy r. t' = Nd Lf y cy ky vy r"
  using assms by (induction ctx t rule: zleft.induct) auto

lemma rbtree_mini_rep:
  assumes "trep (cells T) (nil T) par t" "nil T \<notin> set (ads t)" "height t \<le> fuel" "t \<noteq> Lf"
    "zleft ctx t = (ctx', t')"
  shows "rbtree_mini fuel T (rt (nil T) t) = Inr (rt (nil T) t')"
  using assms
proof (induction ctx t arbitrary: par fuel rule: zleft.induct)
  case (1 ctx ll la lc lk lv lr a co k v r)
  then show ?case by (cases fuel) auto
qed (auto dest!: Suc_le_D)

section \<open>Unlinking and exchanging\<close>

lemma delete_unlink_rep:
  assumes "srep T ctx (Nd l y cy ky vy r)" "l = Lf \<or> r = Lf"
  shows "\<exists>T'. delete_unlink T y = Inr (T', rt (nil T) (if l = Lf then r else l))
    \<and> srep T' ctx (if l = Lf then r else l) \<and> pres T T' \<and> cells T' y = cells T y
    \<and> y \<notin> set (cads ctx) \<and> y \<notin> set (ads l) \<and> y \<notin> set (ads r) \<and> y \<noteq> nil T"
  using assms
  by (cases l; cases r; cases ctx rule: frames_cases)
    (auto simp: srep_def delete_unlink_def Let_def nil_ok_def pres_def rt_neq rt_neq' eq_commute)

lemma srep_plug_app: "srep T fs (plug c1 t) \<longleftrightarrow> srep T (c1 @ fs) t"
  by (induction c1 t rule: plug.induct) (simp_all add: srep_fill)

lemma delete_exchange_rep:
  assumes s: "srep T (c1 @ FR l z cz kz vz # c2) t" and y: "cells T y = Some ny" "y \<noteq> nil T"
    "y \<notin> set (cads (c1 @ FR l z cz kz vz # c2))" "y \<notin> set (ads t)"
  shows "\<exists>T'. delete_exchange T y z = Inr T' \<and> pres T T'
    \<and> srep T' (c1 @ FR l z cz (nkey ny) (nvalue ny) # c2) t
    \<and> cells T' y = Some (ny\<lparr>nkey := kz, nvalue := vz\<rparr>)"
proof -
  have n: "srep T c2 (Nd l z cz kz vz (plug c1 t))"
    using s srep_plug_app [of T "FR l z cz kz vz # c2" c1 t] srep_fill [of T c2 "FR l z cz kz vz"] by simp
  have yz: "y \<noteq> z" using y(3) by (auto simp: cads_def)
  note cz = srep_node [OF n]
  let ?T1 = "T\<lparr>cells := (cells T)(z \<mapsto> (the (cells T z))\<lparr>nkey := nkey ny, nvalue := nvalue ny\<rparr>)\<rparr>"
  let ?T2 = "T\<lparr>cells := (cells ?T1)(y \<mapsto> ny\<lparr>nkey := kz, nvalue := vz\<rparr>)\<rparr>"
  have "srep ?T1 c2 (Nd l z cz (nkey ny) (nvalue ny) (plug c1 t))"
    using n by (auto simp: srep_def)
  then have "srep ?T1 (c1 @ FR l z cz (nkey ny) (nvalue ny) # c2) t"
    using srep_plug_app [of ?T1 "FR l z cz (nkey ny) (nvalue ny) # c2" c1 t]
      srep_fill [of ?T1 c2 "FR l z cz (nkey ny) (nvalue ny)"] by simp
  then have "srep ?T2 (c1 @ FR l z cz (nkey ny) (nvalue ny) # c2) t"
    using srep_fresh(2) [of y "c1 @ FR l z cz (nkey ny) (nvalue ny) # c2" t ?T1] y by (simp add: cads_def)
  moreover have "delete_exchange T y z = Inr ?T2"
    using yz cz y(1) by (auto simp: delete_exchange_def)
  moreover have "pres T ?T2" using yz cz y(1,2) n by (auto simp: pres_def srep_def)
  ultimately show ?thesis by (intro exI [of _ ?T2]) simp
qed

section \<open>The fix-up after unlinking\<close>

lemma srep_root_nil: "srep T ctx Lf \<Longrightarrow> ctx \<noteq> [] \<Longrightarrow> root T \<noteq> nil T"
proof -
  have "croot p ctx \<in> insert p (set (cads ctx))" for p ctx
  proof (induction ctx arbitrary: p)
    case (Cons f fs)
    from Cons [of "fptr f"] show ?case by (cases f) auto
  qed simp
  from this [of "fptr (hd ctx)" "tl ctx"] show "srep T ctx Lf \<Longrightarrow> ctx \<noteq> [] \<Longrightarrow> root T \<noteq> nil T"
    by (cases ctx; cases "hd ctx") (auto simp: srep_def)
qed

lemma fixup_safe:
  assumes s: "srep T ctx x" and b: "0 < brk T" and c: "tcol x = RED \<or> x = Lf \<and> ctx = []"
  shows "\<exists>T'. rbtree_delete_fixup T (rt (nil T) x) = Inr T' \<and> srep T' ctx (paint BLACK x) \<and> pres T T'"
proof (cases x)
  case Lf
  with c s obtain n where n: "cells T (nil T) = Some n" "ncolor n = BLACK" "root T = nil T"
    using srep_nil [OF s] by (auto simp: srep_def)
  then have "n\<lparr>ncolor := BLACK\<rparr> = n" by simp
  with n have "T\<lparr>cells := (cells T)(nil T \<mapsto> n\<lparr>ncolor := BLACK\<rparr>)\<rparr> = T" by (simp add: fun_upd_idem)
  with n b s Lf show ?thesis by (cases "brk T") (simp_all add: rbtree_delete_fixup_def)
next
  case (Nd l a co k v r)
  with c have co: "co = RED" by simp
  have "delete_fixup_loop (brk T) T a = Inr (T, a)"
    using srep_node [OF s [unfolded Nd]] b co by (cases "brk T") auto
  with recolour [OF s [unfolded Nd], of BLACK] Nd show ?thesis
    by (auto simp: rbtree_delete_fixup_def)
qed

lemma fixup_stuck:
  assumes s: "srep T ctx Lf" and b: "0 < brk T" and c: "ctx \<noteq> []"
    and n: "cells T (nil T) = Some n" "cells T (nparent n) = None"
  shows "rbtree_delete_fixup T (nil T) = Inl Segv"
proof -
  have "ncolor n = BLACK" using srep_nil [OF s] n by simp
  moreover have "ld T (nparent n) = Inl Segv" using n by (simp add: ld_def)
  ultimately show ?thesis
    using srep_root_nil [OF s c] n b
    by (cases "brk T") (auto simp: rbtree_delete_fixup_def)
qed

text \<open>The subtree that takes the place of the unlinked node, with the colour the fix-up leaves it.\<close>

definition child :: "ptree \<Rightarrow> ptree \<Rightarrow> ptree" where
  "child l r = (if l = Lf then r else l)"

definition promoted :: "nat \<Rightarrow> ptree \<Rightarrow> ptree" where
  "promoted c x = (if c = BLACK then paint BLACK x else x)"

definition del_safe :: "frame list \<Rightarrow> nat \<Rightarrow> ptree \<Rightarrow> bool" where
  "del_safe ctx c x \<longleftrightarrow> c \<noteq> BLACK \<or> x \<noteq> Lf \<or> ctx = []"

lemma child_red:
  assumes "rbt (plug ctx (Nd l y c k v r))" "l = Lf \<or> r = Lf" "child l r \<noteq> Lf"
  shows "c = BLACK" "tcol (child l r) = RED" "bheight (child l r) = 0"
proof -
  have "invc (Nd l y c k v r)" "invh (Nd l y c k v r)" using rbt_split [OF assms(1)] by auto
  moreover have "bheight t = 0 \<Longrightarrow> invc t \<Longrightarrow> t \<noteq> Lf \<Longrightarrow> tcol t = RED" for t by (cases t) (auto split: if_splits)
  ultimately show "c = BLACK" "tcol (child l r) = RED" "bheight (child l r) = 0"
    using assms(2,3) by (cases l; cases r; auto simp: child_def split: if_splits)+
qed

lemma promoted_rbt:
  assumes r: "rbt (plug ctx (Nd l y c k v r))" "l = Lf \<or> r = Lf" and safe: "del_safe ctx c (child l r)"
  shows "rbt (plug ctx (promoted c (child l r)))"
proof (cases "child l r = Lf")
  case False
  note R = child_red [OF r False]
  have "invc (child l r)" "invh (child l r)" "l = Lf \<Longrightarrow> bheight r = 0"
    using rbt_split [OF r(1)] r(2) by (auto simp: child_def split: if_splits)
  with R rbt_plug_cong [OF r(1), of "promoted c (child l r)"] r(2) False show ?thesis
    by (auto simp: promoted_def child_def split: if_splits)
next
  case True
  then have lr: "l = Lf" "r = Lf" using r(2) by (auto simp: child_def split: if_splits)
  show ?thesis
  proof (cases "ctx = []")
    case True
    with lr show ?thesis by (simp add: child_def promoted_def rbt_def)
  next
    case False
    with safe True have c: "c \<noteq> BLACK" by (simp add: del_safe_def)
    have "cinv 0 ctx" "invc (Nd l y c k v r)" using rbt_split [OF r(1)] c lr by simp_all
    with cinv_plug [of Lf ctx] False lr c show ?thesis by (simp add: child_def promoted_def rbt_def)
  qed
qed

section \<open>Deleting a node\<close>

lemma presD:
  assumes "pres T T'"
  shows "nil T' = nil T" "brk T' = brk T" "cells T' (nil T) = cells T (nil T)"
    "cells T' p = None \<longleftrightarrow> cells T p = None"
  using assms by (auto simp: pres_def simp flip: domIff)

definition delete_tail :: "rbtree \<Rightarrow> ptr \<Rightarrow> ptr \<Rightarrow> (rbtree \<times> ptr) res" where
  "delete_tail T y x = andthen (ld T y) (\<lambda>ny.
     andthen (if ncolor ny = BLACK then rbtree_delete_fixup T x else Inr T) (\<lambda>T. Inr (T, y)))"

lemma rbtree_delete_eq:
  "rbtree_delete T z = andthen (ld T z) (\<lambda>nz.
     andthen (if nleft nz = nil T \<or> nright nz = nil T then Inr z else rbtree_successor T z) (\<lambda>y.
     andthen (delete_unlink T y) (\<lambda>(T, x). andthen (delete_exchange T y z) (\<lambda>T. delete_tail T y x))))"
  by (simp add: rbtree_delete_def delete_tail_def)

lemma delete_tail_rep:
  assumes "srep T ctx x" "cells T y = Some ny" "0 < brk T"
    and "ncolor ny = BLACK \<longrightarrow> tcol x = RED \<or> x = Lf \<and> ctx = []"
  shows "\<exists>T'. delete_tail T y (rt (nil T) x) = Inr (T', y) \<and> srep T' ctx (promoted (ncolor ny) x) \<and> pres T T'"
  using fixup_safe [OF assms(1,3)] assms by (auto simp: delete_tail_def promoted_def)

lemma tail_cond:
  assumes "rbt (plug ctx (Nd l y c k v r))" "l = Lf \<or> r = Lf" "del_safe ctx c (child l r)" "c = BLACK"
  shows "tcol (child l r) = RED \<or> child l r = Lf \<and> ctx = []"
  using assms child_red(2) [OF assms(1,2)] by (cases "child l r = Lf") (auto simp: del_safe_def)

lemma rt_Lf: "nl \<notin> set (ads t) \<Longrightarrow> rt nl t = nl \<longleftrightarrow> t = Lf"
  by (cases t) auto

lemma delete_direct:
  assumes s: "srep T ctx (Nd l z c k v r)" and b: "0 < brk T" and lr: "l = Lf \<or> r = Lf"
  shows "rbt (plug ctx (Nd l z c k v r)) \<Longrightarrow> del_safe ctx c (child l r) \<Longrightarrow>
      \<exists>T'. rbtree_delete T z = Inr (T', z) \<and> srep T' ctx (promoted c (child l r)) \<and> pres T T'"
    and "\<not> del_safe ctx c (child l r) \<Longrightarrow> cells T (nil T) = Some n \<Longrightarrow> cells T (nparent n) = None \<Longrightarrow>
      rbtree_delete T z = Inl Segv"
proof -
  obtain T1 where 1: "delete_unlink T z = Inr (T1, rt (nil T) (child l r))" "srep T1 ctx (child l r)"
      "pres T T1" "cells T1 z = cells T z"
    using delete_unlink_rep [OF s lr] by (auto simp: child_def)
  note z = srep_node [OF s]
  have nl: "nil T1 = nil T" "brk T1 = brk T" "cells T1 (nil T) = cells T (nil T)"
    "cells T1 p = None \<longleftrightarrow> cells T p = None" for p
    by (rule presD [OF 1(3)])+
  have eq: "rbtree_delete T z = delete_tail T1 z (rt (nil T) (child l r))"
    using z lr 1(1) by (auto simp: rbtree_delete_eq delete_exchange_def)
  show "\<exists>T'. rbtree_delete T z = Inr (T', z) \<and> srep T' ctx (promoted c (child l r)) \<and> pres T T'"
    if "rbt (plug ctx (Nd l z c k v r))" "del_safe ctx c (child l r)"
    using delete_tail_rep [OF 1(2), of z] tail_cond [OF that(1) lr that(2)] 1 z b nl(1,2)
      pres_trans [OF 1(3)] by (fastforce simp: eq)
  show "rbtree_delete T z = Inl Segv"
    if "\<not> del_safe ctx c (child l r)" "cells T (nil T) = Some n" "cells T (nparent n) = None"
    using that fixup_stuck [of T1 ctx n] 1 z b nl by (auto simp: eq delete_tail_def del_safe_def)
qed

lemma successor_rep:
  assumes s: "srep T ctx (Nd l z c k v r)" and ok: "heap_ok T" and r: "r \<noteq> Lf"
    and d: "zleft (FR l z c k v # ctx) r = (ctx', Nd Lf y cy ky vy x)"
  shows "rbtree_successor T z = Inr y"
proof -
  have "length (ads r) < brk T"
    using fuel_enough [of T "plug ctx (Nd l z c k v r)"] ok s length_ads_plug [of ctx] by (simp add: srep_plug)
  then have "height r \<le> brk T" using height_ads [of r] by simp
  with rbtree_mini_rep [of T z r "brk T", OF _ _ _ r d] s have "rbtree_mini (brk T) T (rt (nil T) r) = Inr y"
    by (simp add: srep_def)
  moreover have "rt (nil T) r \<noteq> nil T" using s r by (simp add: srep_def rt_Lf)
  ultimately show ?thesis using srep_node [OF s] by (simp add: rbtree_successor_def)
qed

lemma delete_succ:
  assumes s: "srep T ctx (Nd l z c k v r)" and ok: "heap_ok T" "0 < brk T" and lr: "l \<noteq> Lf" "r \<noteq> Lf"
    and d: "zleft (FR l z c k v # ctx) r = (c1 @ FR l z c k v # ctx, Nd Lf y cy ky vy x)"
  shows "rbt (plug ctx (Nd l z c k v r)) \<Longrightarrow> cy \<noteq> BLACK \<or> x \<noteq> Lf \<Longrightarrow>
      \<exists>T'. rbtree_delete T z = Inr (T', y) \<and> srep T' (c1 @ FR l z c ky vy # ctx) (promoted cy x) \<and> pres T T'"
    and "cy = BLACK \<Longrightarrow> x = Lf \<Longrightarrow> cells T (nil T) = Some n \<Longrightarrow> cells T (nparent n) = None \<Longrightarrow>
      rbtree_delete T z = Inl Segv"
proof -
  let ?c = "c1 @ FR l z c k v # ctx" and ?c' = "c1 @ FR l z c ky vy # ctx"
  have p: "plug ?c (Nd Lf y cy ky vy x) = plug ctx (Nd l z c k v r)" using zleft_plug [OF d] by simp
  have sy: "srep T ?c (Nd Lf y cy ky vy x)" using s p srep_plug by metis
  obtain T1 where 1: "delete_unlink T y = Inr (T1, rt (nil T) x)" "srep T1 ?c x"
      "pres T T1" "cells T1 y = cells T y" "y \<notin> set (cads ?c)" "y \<notin> set (ads x)" "y \<noteq> nil T"
    using delete_unlink_rep [OF sy] by auto
  note y = srep_node [OF sy]
  obtain T2 where 2: "delete_exchange T1 y z = Inr T2" "pres T1 T2" "srep T2 ?c' x"
      "\<exists>ny. cells T2 y = Some ny \<and> ncolor ny = cy"
    using delete_exchange_rep [OF 1(2), of y] 1 y by (auto simp: pres_def)
  have nl: "nil T2 = nil T" "brk T2 = brk T" "cells T2 (nil T) = cells T (nil T)"
    "cells T2 p = None \<longleftrightarrow> cells T p = None" for p
    by (rule presD [OF pres_trans [OF 1(3) 2(2)]])+
  have "rt (nil T) l \<noteq> nil T" "rt (nil T) r \<noteq> nil T" using s lr by (simp_all add: srep_def rt_Lf)
  then have eq: "rbtree_delete T z = delete_tail T2 y (rt (nil T) x)"
    using srep_node [OF s] successor_rep [OF s ok(1) lr(2) d] 1(1) 2(1) by (simp add: rbtree_delete_eq)
  show "\<exists>T'. rbtree_delete T z = Inr (T', y) \<and> srep T' ?c' (promoted cy x) \<and> pres T T'"
    if "rbt (plug ctx (Nd l z c k v r))" "cy \<noteq> BLACK \<or> x \<noteq> Lf"
  proof -
    have "cy = BLACK \<Longrightarrow> tcol x = RED \<or> x = Lf \<and> ?c' = []"
      using tail_cond [of ?c Lf y cy ky vy x] that p by (auto simp: child_def del_safe_def)
    with delete_tail_rep [OF 2(3), of y] 2(4) ok nl(1,2) pres_trans [OF pres_trans [OF 1(3) 2(2)]]
    show ?thesis by (fastforce simp: eq)
  qed
  show "rbtree_delete T z = Inl Segv"
    if "cy = BLACK" "x = Lf" "cells T (nil T) = Some n" "cells T (nparent n) = None"
    using that fixup_stuck [of T2 ?c' n] 2 ok nl by (auto simp: eq delete_tail_def)
qed

lemma ads_promoted [simp]: "ads (promoted c x) = ads x"
  by (cases x) (auto simp: promoted_def)

lemma inorder_promoted [simp]: "inorder (promoted c x) = inorder x"
  by (simp add: promoted_def)

lemma rb_inv_free:
  assumes "pres T T'" "heap_ok T" "srep T' ctx t" "y \<notin> set (cads ctx)" "y \<notin> set (ads t)" "y \<noteq> nil T"
    and "rbt (plug ctx t)" "bst (plug ctx t)" "list_all (\<lambda>e. is_Str (snd e)) (inorder (plug ctx t))"
  shows "rb_inv (free_node T' y) (plug ctx t)"
proof -
  have "srep (free_node T' y) ctx t"
    using srep_fresh(2) [of y ctx t T'] assms presD(1) [OF assms(1)] by (simp add: free_node_def)
  then have "srep (free_node T' y) [] (plug ctx t)" by (simp add: srep_plug)
  moreover have "heap_ok (free_node T' y)"
    using assms(2) presD [OF assms(1)] by (simp add: heap_ok_def free_node_def del: not_None_eq)
  ultimately show ?thesis using assms by (simp add: rb_inv_def)
qed

lemma map_of_remove:
  fixes k :: string
  assumes "sorted_wrt (<) (map fst (xs @ (k, v) # ys))"
  shows "map_of (xs @ ys) = (map_of (xs @ (k, v) # ys))(k := None)"
proof -
  have "\<forall>x\<in>fst ` set xs. x < k" "\<forall>x\<in>fst ` set ys. k < x"
    using assms by (auto simp: sorted_wrt_append)
  then have "k \<notin> fst ` set xs" "k \<notin> fst ` set ys" by (metis less_irrefl)+
  then have "map_of xs k = None" "map_of ys k = None" by (simp_all add: map_of_eq_None_iff)
  then show ?thesis by (auto simp: map_add_def fun_eq_iff split: option.splits)
qed

lemma sorted_remove:
  fixes k :: string
  shows "sorted_wrt (<) (map fst (xs @ (k, v) # ys)) \<Longrightarrow> sorted_wrt (<) (map fst (xs @ ys))"
  by (auto simp: sorted_wrt_append)

lemma del_entry:
  assumes "rb_inv T t" "inorder t = xs @ (k, v) # ys" "inorder t' = xs @ ys"
  shows "bst t'" "list_all (\<lambda>e. is_Str (snd e)) (inorder t')"
    "map_of (inorder t') = (map_of (inorder t))(k := None)"
  using assms sorted_remove [of xs k v ys] map_of_remove [of xs k v ys]
  by (auto simp: rb_inv_def bst_def)

lemma cinv_rename: "cinv n (c1 @ FR l z c k v # c2) = cinv n (c1 @ FR l z c k' v' # c2)"
proof (induction c1 arbitrary: n)
  case (Cons f fs)
  then show ?case by (cases fs) auto
qed simp

lemma rbt_rename:
  assumes "rbt (plug (c1 @ FR l z c k v # c2) t)"
  shows "rbt (plug (c1 @ FR l z c k' v' # c2) t)"
proof -
  have h: "hole_black (c1 @ FR l z c k v # c2) = hole_black (c1 @ FR l z c k' v' # c2)"
    by (cases c1) (auto simp: hole_black_def)
  have "cinv (bheight t) (c1 @ FR l z c k' v' # c2)" "invc t" "invh t"
      "hole_black (c1 @ FR l z c k' v' # c2) \<longrightarrow> tcol t = BLACK"
    using plug_inv [of "c1 @ FR l z c k v # c2" t] cinv_rename [of _ c1 l z c k v c2 k' v'] assms
    unfolding rbt_def h by auto
  from cinv_plug [OF this] show ?thesis by (simp add: rbt_def)
qed

lemma cright_rename: "cright (c1 @ FR l z c k v # c2) = cright (c1 @ FR l z c k' v' # c2)"
proof (induction c1)
  case (Cons f fs)
  then show ?case by (cases f) auto
qed simp

section \<open>The delete operation\<close>

lemma srep_of_plug: "srep T [] t \<Longrightarrow> plug ctx t' = t \<Longrightarrow> srep T ctx t'"
  using srep_plug by blast

lemma kvs_rbtree_del_eq:
  assumes "rb_inv T t" "zdown k [] t = (ctx, Nd l a co k v r)" "a \<noteq> nil T"
  shows "kvs_rbtree_del (Some T) (Str k) =
    andthen (rbtree_delete T a) (\<lambda>(T, cur). Inr (Some (free_node T cur), 0))"
proof -
  have "taddr (nil T) t k = a" using zdown_found [OF assms(2)] by blast
  with assms rbtree_search_rep [of T t k] show ?thesis by (simp add: kvs_rbtree_del_def rb_inv_def)
qed

lemma del_direct_ok:
  assumes i: "rb_inv T t" and d: "zdown k [] t = (ctx, Nd l a co k v r)" and lr: "l = Lf \<or> r = Lf"
    and safe: "del_safe ctx co (child l r)"
  shows "\<exists>T' t'. kvs_rbtree_del (Some T) (Str k) = Inr (Some T', 0) \<and> rb_inv T' t'
    \<and> map_of (inorder t') = (map_of (inorder t))(k := None)"
proof -
  have p: "plug ctx (Nd l a co k v r) = t" using zdown_plug [OF d] by simp
  have s: "srep T ctx (Nd l a co k v r)" using i srep_of_plug [OF _ p] by (simp add: rb_inv_def)
  have rb: "rbt (plug ctx (Nd l a co k v r))" and b: "0 < brk T" and ok: "heap_ok T"
    using i p fuel_enough [of T t] by (auto simp: rb_inv_def)
  have a: "a \<noteq> nil T" "a \<notin> set (cads ctx)" "a \<notin> set (ads (child l r))"
    using s lr by (auto simp: srep_def child_def)
  let ?t = "plug ctx (promoted co (child l r))"
  have E: "inorder t = cleft ctx @ inorder l @ (k, v) # inorder r @ cright ctx"
    "inorder ?t = cleft ctx @ inorder l @ inorder r @ cright ctx"
    using inorder_plug_split [of ctx] p lr by (auto simp: child_def)
  obtain T' where T': "rbtree_delete T a = Inr (T', a)" "srep T' ctx (promoted co (child l r))" "pres T T'"
    using delete_direct(1) [OF s b lr rb safe] by auto
  have "rb_inv (free_node T' a) ?t"
    using rb_inv_free [OF T'(3) ok T'(2) a(2)] a promoted_rbt [OF rb lr safe]
      del_entry [OF i, of "cleft ctx @ inorder l" k v "inorder r @ cright ctx" ?t] E by simp
  moreover have "map_of (inorder ?t) = (map_of (inorder t))(k := None)"
    using del_entry(3) [OF i, of "cleft ctx @ inorder l" k v "inorder r @ cright ctx" ?t] E by simp
  ultimately show ?thesis using kvs_rbtree_del_eq [OF i d a(1)] T'(1) by auto
qed

lemma del_succ_ok:
  assumes i: "rb_inv T t" and d: "zdown k [] t = (ctx, Nd l a co k v r)" and lr: "l \<noteq> Lf" "r \<noteq> Lf"
    and z: "zleft (FR l a co k v # ctx) r = (c1 @ FR l a co k v # ctx, Nd Lf y cy ky vy x)"
    and cl: "cleft (c1 @ FR l a co k v # ctx) = cleft (FR l a co k v # ctx)"
      "cleft (c1 @ FR l a co ky vy # ctx) = cleft (FR l a co ky vy # ctx)"
    and safe: "cy \<noteq> BLACK \<or> x \<noteq> Lf"
  shows "\<exists>T' t'. kvs_rbtree_del (Some T) (Str k) = Inr (Some T', 0) \<and> rb_inv T' t'
    \<and> map_of (inorder t') = (map_of (inorder t))(k := None)"
proof -
  let ?c = "c1 @ FR l a co k v # ctx" and ?c' = "c1 @ FR l a co ky vy # ctx"
  have p: "plug ctx (Nd l a co k v r) = t" using zdown_plug [OF d] by simp
  have py: "plug ?c (Nd Lf y cy ky vy x) = t" using zleft_plug [OF z] p by simp
  have s: "srep T ctx (Nd l a co k v r)" using i srep_of_plug [OF _ p] by (simp add: rb_inv_def)
  have sy: "srep T ?c (Nd Lf y cy ky vy x)" using i srep_of_plug [OF _ py] by (simp add: rb_inv_def)
  have rb: "rbt t" and b: "0 < brk T" and ok: "heap_ok T"
    using i fuel_enough [of T t] by (auto simp: rb_inv_def)
  have y: "y \<noteq> nil T" "y \<notin> set (cads ?c')" "y \<notin> set (ads x)"
    using sy by (auto simp: srep_def cads_def)
  let ?t = "plug ?c' (promoted cy x)"
  have E: "inorder t = (cleft ctx @ inorder l) @ (k, v) # (ky, vy) # inorder x @ cright ?c"
    "inorder ?t = (cleft ctx @ inorder l) @ (ky, vy) # inorder x @ cright ?c"
    using inorder_plug_split [of ?c "Nd Lf y cy ky vy x"] inorder_plug_split [of ?c' "promoted cy x"]
      py cl cright_rename [of c1 l a co k v ctx ky vy] by simp_all
  obtain T' where T': "rbtree_delete T a = Inr (T', y)" "srep T' ?c' (promoted cy x)" "pres T T'"
    using delete_succ(1) [OF s ok b lr z] rb p safe by auto
  have rb': "rbt ?t"
    using promoted_rbt [of ?c Lf y cy ky vy x] rb py safe rbt_rename [of c1 l a co k v ctx _ ky vy]
    by (simp add: child_def del_safe_def)
  note D = del_entry [OF i E]
  have "a \<noteq> nil T" using s by (auto simp: srep_def)
  then show ?thesis
    using kvs_rbtree_del_eq [OF i d] T'(1) rb_inv_free [OF T'(3) ok T'(2) y(2) _ y(1) rb' D(1,2)] y(3) D(3)
    by auto
qed

lemma kvs_rbtree_del_absent:
  assumes "rb_inv T t" "rb_view (Some T) k = None"
  shows "kvs_rbtree_del (Some T) (Str k) = Inr (Some T, 1)"
  using zdown_absent [OF assms] assms(1) rbtree_search_rep [of T t k]
  by (auto simp: kvs_rbtree_del_def rb_inv_def)

lemma rb_view_removed:
  assumes "rb_inv T t" "rb_inv T' t'" "map_of (inorder t') = (map_of (inorder t))(k := None)"
  shows "rb_view (Some T') = (rb_view (Some T))(k := None)"
  using rb_view_inorder [OF assms(1)] rb_view_inorder [OF assms(2)] assms(3) by (auto simp: fun_eq_iff)

text \<open>The node that \<open>splice\<close> finds, seen from the key's node.\<close>

lemma splice_cases:
  assumes "zdown k [] t = (ctx0, Nd l a co k v r)" "splice t k = (ctx, Nd yl y c ky vy yr)"
  obtains "l = Lf \<or> r = Lf" "ctx = ctx0" "yl = l" "y = a" "c = co" "yr = r"
  | c1 where "l \<noteq> Lf" "r \<noteq> Lf" "ctx = c1 @ FR l a co k v # ctx0" "yl = Lf"
    "zleft (FR l a co k v # ctx0) r = (c1 @ FR l a co k v # ctx0, Nd Lf y c ky vy yr)"
    "\<And>k' v'. cleft (c1 @ FR l a co k' v' # ctx0) = cleft (FR l a co k' v' # ctx0)"
proof (cases "l = Lf \<or> r = Lf")
  case True
  with that(1) assms show thesis by (simp add: splice_def)
next
  case False
  with assms have z: "zleft (FR l a co k v # ctx0) r = (ctx, Nd yl y c ky vy yr)" by (simp add: splice_def)
  obtain c1 where c1: "ctx = c1 @ FR l a co k v # ctx0" "\<And>fs. cleft (c1 @ fs) = cleft fs"
    using zleft_ctx [OF z] by blast
  have "yl = Lf" using zleft_node [OF _ z] False by auto
  with that(2) [of c1] False z c1 show thesis by auto
qed

definition del_done :: "rbtree \<Rightarrow> ptree \<Rightarrow> string \<Rightarrow> bool" where
  "del_done T t k \<longleftrightarrow> (\<exists>T' t'. kvs_rbtree_del (Some T) (Str k) = Inr (Some T', 0) \<and> rb_inv T' t'
    \<and> map_of (inorder t') = (map_of (inorder t))(k := None))"

lemma del_done_view:
  assumes "rb_inv T t" "del_done T t k"
  shows "\<exists>T'. kvs_rbtree_del (Some T) (Str k) = Inr (Some T', 0) \<and> rb_ok (Some T')
    \<and> rb_view (Some T') = (rb_view (Some T))(k := None)"
  using assms rb_view_removed [OF assms(1)] by (auto simp: rb_ok_def del_done_def)

lemma kvs_rbtree_del_present:
  assumes i: "rb_inv T t" and k: "rb_view (Some T) k \<noteq> None"
    and sp: "splice t k = (ctx, Nd yl y c ky vy yr)"
  shows "c = RED \<or> yl \<noteq> Lf \<or> yr \<noteq> Lf \<or> ctx = [] \<Longrightarrow>
      \<exists>T'. kvs_rbtree_del (Some T) (Str k) = Inr (Some T', 0) \<and> rb_ok (Some T')
        \<and> rb_view (Some T') = (rb_view (Some T))(k := None)"
    and "yl = Lf \<Longrightarrow> yr = Lf \<Longrightarrow> c = BLACK \<Longrightarrow> ctx \<noteq> [] \<Longrightarrow> cells T (nil T) = Some n \<Longrightarrow> cells T (nparent n) = None \<Longrightarrow>
      kvs_rbtree_del (Some T) (Str k) = Inl Segv"
proof -
  obtain w where w: "rb_view (Some T) k = Some w" using k by auto
  obtain ctx0 l a co r where z: "zdown k [] t = (ctx0, Nd l a co k (Str w) r)"
      "srep T ctx0 (Nd l a co k (Str w) r)" "a \<noteq> nil T"
    using zdown_present [OF i w] by metis
  have b: "0 < brk T" "heap_ok T" using i fuel_enough [of T t] by (auto simp: rb_inv_def)
  have "del_done T t k" if safe: "c = RED \<or> yl \<noteq> Lf \<or> yr \<noteq> Lf \<or> ctx = []"
  proof (cases rule: splice_cases [OF z(1) sp])
    case 1
    with del_direct_ok [OF i z(1)] safe show ?thesis by (auto simp: del_done_def del_safe_def child_def)
  next
    case (2 c1)
    with del_succ_ok [OF i z(1) 2(1,2,5)] safe show ?thesis by (auto simp: del_done_def)
  qed
  with del_done_view [OF i] show "\<exists>T'. kvs_rbtree_del (Some T) (Str k) = Inr (Some T', 0) \<and> rb_ok (Some T')
        \<and> rb_view (Some T') = (rb_view (Some T))(k := None)"
    if "c = RED \<or> yl \<noteq> Lf \<or> yr \<noteq> Lf \<or> ctx = []" using that by blast
  show "kvs_rbtree_del (Some T) (Str k) = Inl Segv"
    if "yl = Lf" "yr = Lf" "c = BLACK" "ctx \<noteq> []" "cells T (nil T) = Some n" "cells T (nparent n) = None"
  proof (cases rule: splice_cases [OF z(1) sp])
    case 1
    with delete_direct(2) [OF z(2) b(1)] that show ?thesis
      by (simp add: kvs_rbtree_del_eq [OF i z(1,3)] del_safe_def child_def)
  next
    case (2 c1)
    with delete_succ(2) [OF z(2) b(2,1) 2(1,2,5)] that show ?thesis
      by (simp add: kvs_rbtree_del_eq [OF i z(1,3)])
  qed
qed

end
