(* ===== verification/Kvs_Protocol.thy ===== *)
theory Kvs_Protocol
  imports Kvs_Array Kvs_Hash Kvs_Rbtree_Delete
begin

text \<open>
  The protocol layer, \<^verbatim>\<open>src/12_1/kvstore.c\<close>: a request is split at blanks (\<open>kvs_split_token\<close>), its first
  word selects one of fifteen commands on the three engines and the answer is printed into the response
  buffer (\<open>kvs_filter_protocol\<close>). The three global engines are one state, \<open>engines\<close>. The response buffer
  has a capacity: printing more than it holds is an access out of bounds.
\<close>

section \<open>State and buffers\<close>

record engines =
  global_array :: "kvs_array option"
  global_rbtree :: "rbtree option"
  global_hash :: "hashtable option"

definition KVS_MAX_TOKENS :: nat where
  "KVS_MAX_TOKENS = 128"

definition crlf :: string where
  "crlf = [CHR 0x0D, CHR 0x0A]"

text \<open>\<^verbatim>\<open>sprintf\<close>: the text and a terminating NUL go into a buffer of \<open>cap\<close> bytes; the length is returned.\<close>

definition sprintf :: "nat \<Rightarrow> string \<Rightarrow> (string \<times> int) res" where
  "sprintf cap s = (if length s < cap then Inr (s, int (length s)) else Inl OutOfBounds)"

section \<open>Splitting a request\<close>

text \<open>One call of \<^verbatim>\<open>strtok(., " ")\<close>: the next token and what follows its delimiter.\<close>

definition strtok_blank :: "string \<Rightarrow> (string \<times> string) option" where
  "strtok_blank s =
     (let s' = dropWhile (\<lambda>c. c = CHR '' '') s
      in if s' = [] then None
         else Some (takeWhile (\<lambda>c. c \<noteq> CHR '' '') s', drop 1 (dropWhile (\<lambda>c. c \<noteq> CHR '' '') s')))"

lemma strtok_blank_shorter: "strtok_blank s = Some (t, r) \<Longrightarrow> length r < length s"
proof -
  assume a: "strtok_blank s = Some (t, r)"
  let ?d = "dropWhile (\<lambda>c. c = CHR '' '') s"
  have "?d \<noteq> []" "r = drop 1 (dropWhile (\<lambda>c. c \<noteq> CHR '' '') ?d)"
    using a by (auto simp: strtok_blank_def Let_def split: if_splits)
  moreover have "length (dropWhile (\<lambda>c. c \<noteq> CHR '' '') ?d) \<le> length ?d" "length ?d \<le> length s"
    by (simp_all add: length_dropWhile_le)
  ultimately show ?thesis by (cases ?d) auto
qed

text \<open>The loop stores every token at the next index of an array of \<^verbatim>\<open>KVS_MAX_TOKENS\<close> pointers.\<close>

function split_loop :: "string \<Rightarrow> cstr list \<Rightarrow> nat \<Rightarrow> (cstr list \<times> nat) res" where
  "split_loop s tokens n =
     (case strtok_blank s of
        None \<Rightarrow> Inr (tokens, n)
      | Some (t, r) \<Rightarrow>
          if n < length tokens then split_loop r (tokens[n := Str t]) (Suc n)
          else Inl OutOfBounds)"
  by pat_completeness auto
termination
  by (relation "measure (\<lambda>(s, _, _). length s)") (auto dest: strtok_blank_shorter)

declare split_loop.simps [simp del]

definition kvs_split_token :: "string option \<Rightarrow> cstr list option \<Rightarrow> (cstr list option \<times> int) res" where
  "kvs_split_token msg tokens =
     (case (msg, tokens) of
        (Some s, Some ts) \<Rightarrow> andthen (split_loop s ts 0) (\<lambda>(ts, n). Inr (Some ts, int n))
      | _ \<Rightarrow> Inr (tokens, -1))"

section \<open>Commands\<close>

definition command :: "string list" where
  "command = [''SET'', ''GET'', ''DEL'', ''MOD'', ''EXIST'',
     ''RSET'', ''RGET'', ''RDEL'', ''RMOD'', ''REXIST'',
     ''HSET'', ''HGET'', ''HDEL'', ''HMOD'', ''HEXIST'']"

datatype kvs_cmd = KVS_CMD_SET | KVS_CMD_GET | KVS_CMD_DEL | KVS_CMD_MOD | KVS_CMD_EXIST
  | KVS_CMD_RSET | KVS_CMD_RGET | KVS_CMD_RDEL | KVS_CMD_RMOD | KVS_CMD_REXIST
  | KVS_CMD_HSET | KVS_CMD_HGET | KVS_CMD_HDEL | KVS_CMD_HMOD | KVS_CMD_HEXIST | KVS_CMD_COUNT

definition cmd_enum :: "kvs_cmd list" where
  "cmd_enum = [KVS_CMD_SET, KVS_CMD_GET, KVS_CMD_DEL, KVS_CMD_MOD, KVS_CMD_EXIST,
     KVS_CMD_RSET, KVS_CMD_RGET, KVS_CMD_RDEL, KVS_CMD_RMOD, KVS_CMD_REXIST,
     KVS_CMD_HSET, KVS_CMD_HGET, KVS_CMD_HDEL, KVS_CMD_HMOD, KVS_CMD_HEXIST]"

text \<open>The search loop over the table of command names.\<close>

fun find_cmd :: "cstr \<Rightarrow> (string \<times> kvs_cmd) list \<Rightarrow> kvs_cmd res" where
  "find_cmd t [] = Inr KVS_CMD_COUNT"
| "find_cmd t ((n, c) # cs) = andthen (strcmp t (Str n)) (\<lambda>r. if r = 0 then Inr c else find_cmd t cs)"

section \<open>Answers\<close>

definition reply_set :: "nat \<Rightarrow> string \<Rightarrow> ('s \<times> int) res \<Rightarrow> ('s \<times> string \<times> int) res" where
  "reply_set cap err r = andthen r (\<lambda>(s, ret).
     andthen (sprintf cap ((if ret < 0 then err else if ret = 0 then ''ok'' else ''exist'') @ crlf)) (\<lambda>(resp, len).
     Inr (s, resp, len)))"

definition reply_get :: "nat \<Rightarrow> cstr res \<Rightarrow> (string \<times> int) res" where
  "reply_get cap r = andthen r (\<lambda>result.
     if result = Null then sprintf cap (''no exist'' @ crlf)
     else andthen (deref result) (\<lambda>v. sprintf cap (v @ crlf)))"

definition reply_mod :: "nat \<Rightarrow> ('s \<times> int) res \<Rightarrow> ('s \<times> string \<times> int) res" where
  "reply_mod cap r = andthen r (\<lambda>(s, ret).
     andthen (sprintf cap ((if ret < 0 then ''error'' else if ret = 0 then ''ok'' else ''no exist'') @ crlf)) (\<lambda>(resp, len).
     Inr (s, resp, len)))"

definition reply_exist :: "nat \<Rightarrow> int res \<Rightarrow> (string \<times> int) res" where
  "reply_exist cap r = andthen r (\<lambda>ret.
     sprintf cap ((if ret = 0 then ''exist'' else ''no exist'') @ crlf))"

definition put_array :: "engines \<Rightarrow> (kvs_array option \<times> string \<times> int) res \<Rightarrow> (engines \<times> string \<times> int) res" where
  "put_array E r = andthen r (\<lambda>(s, a). Inr (E\<lparr>global_array := s\<rparr>, a))"

definition put_rbtree :: "engines \<Rightarrow> (rbtree option \<times> string \<times> int) res \<Rightarrow> (engines \<times> string \<times> int) res" where
  "put_rbtree E r = andthen r (\<lambda>(s, a). Inr (E\<lparr>global_rbtree := s\<rparr>, a))"

definition put_hash :: "engines \<Rightarrow> (hashtable option \<times> string \<times> int) res \<Rightarrow> (engines \<times> string \<times> int) res" where
  "put_hash E r = andthen r (\<lambda>(s, a). Inr (E\<lparr>global_hash := s\<rparr>, a))"

definition keep :: "engines \<Rightarrow> (string \<times> int) res \<Rightarrow> (engines \<times> string \<times> int) res" where
  "keep E r = andthen r (\<lambda>a. Inr (E, a))"

text \<open>
  The switch. \<open>m\<close> and \<open>junk\<close> are the outcome of the allocations the command makes and the contents of
  the memory they give.
\<close>

fun exec_cmd :: "mallocs \<Rightarrow> rbtree_node \<Rightarrow> nat \<Rightarrow> engines \<Rightarrow> kvs_cmd \<Rightarrow> cstr \<Rightarrow> cstr \<Rightarrow> (engines \<times> string \<times> int) res" where
  "exec_cmd m junk cap E KVS_CMD_SET key value =
     put_array E (reply_set cap ''set error'' (kvs_array_set m (global_array E) key value))"
| "exec_cmd m junk cap E KVS_CMD_GET key value = keep E (reply_get cap (kvs_array_get (global_array E) key))"
| "exec_cmd m junk cap E KVS_CMD_DEL key value =
     put_array E (reply_mod cap (kvs_array_del (global_array E) key))"
| "exec_cmd m junk cap E KVS_CMD_MOD key value =
     put_array E (reply_mod cap (kvs_array_mod m (global_array E) key value))"
| "exec_cmd m junk cap E KVS_CMD_EXIST key value = keep E (reply_exist cap (kvs_array_exist (global_array E) key))"
| "exec_cmd m junk cap E KVS_CMD_RSET key value =
     put_rbtree E (reply_set cap ''set error'' (kvs_rbtree_set m junk (global_rbtree E) key value))"
| "exec_cmd m junk cap E KVS_CMD_RGET key value = keep E (reply_get cap (kvs_rbtree_get (global_rbtree E) key))"
| "exec_cmd m junk cap E KVS_CMD_RDEL key value =
     put_rbtree E (reply_mod cap (kvs_rbtree_del (global_rbtree E) key))"
| "exec_cmd m junk cap E KVS_CMD_RMOD key value =
     put_rbtree E (reply_mod cap (kvs_rbtree_mod m (global_rbtree E) key value))"
| "exec_cmd m junk cap E KVS_CMD_REXIST key value = keep E (reply_exist cap (kvs_rbtree_exist (global_rbtree E) key))"
| "exec_cmd m junk cap E KVS_CMD_HSET key value =
     put_hash E (reply_set cap ''error'' (kvs_hash_set m (global_hash E) key value))"
| "exec_cmd m junk cap E KVS_CMD_HGET key value = keep E (reply_get cap (kvs_hash_get (global_hash E) key))"
| "exec_cmd m junk cap E KVS_CMD_HDEL key value =
     put_hash E (reply_mod cap (kvs_hash_del (global_hash E) key))"
| "exec_cmd m junk cap E KVS_CMD_HMOD key value =
     put_hash E (reply_mod cap (kvs_hash_mod m (global_hash E) key value))"
| "exec_cmd m junk cap E KVS_CMD_HEXIST key value = keep E (reply_exist cap (kvs_hash_exist (global_hash E) key))"
| "exec_cmd m junk cap E KVS_CMD_COUNT key value = Inl AssertFail"

text \<open>\<open>None\<close> stands for a NULL argument; the response is the text left in the buffer.\<close>

definition kvs_filter_protocol ::
  "mallocs \<Rightarrow> rbtree_node \<Rightarrow> engines \<Rightarrow> cstr list option \<Rightarrow> int \<Rightarrow> nat option \<Rightarrow> (engines \<times> string \<times> int) res" where
  "kvs_filter_protocol m junk E tokens count response =
     (case (tokens, response) of
        (Some ts, Some cap) \<Rightarrow>
          if count = 0 then Inr (E, [], -1)
          else andthen (find_cmd (ts ! 0) (zip command cmd_enum)) (\<lambda>cmd.
            exec_cmd m junk cap E cmd (ts ! 1) (ts ! 2))
      | _ \<Rightarrow> Inr (E, [], -1))"

definition kvs_protocol ::
  "mallocs \<Rightarrow> rbtree_node \<Rightarrow> engines \<Rightarrow> string option \<Rightarrow> int \<Rightarrow> nat option \<Rightarrow> (engines \<times> string \<times> int) res" where
  "kvs_protocol m junk E msg len response =
     (if msg = None \<or> len \<le> 0 \<or> response = None then Inr (E, [], -1)
      else andthen (kvs_split_token msg (Some (replicate KVS_MAX_TOKENS Null))) (\<lambda>(tokens, count).
        if count = -1 then Inr (E, [], -1)
        else kvs_filter_protocol m junk E tokens count response))"

section \<open>Start and stop\<close>

text \<open>
  The allocations and the contents of fresh memory per engine. The \<^verbatim>\<open>memset\<close> calls clear the three structures.
\<close>

record boot =
  boot_array :: "mallocs \<times> (nat \<Rightarrow> kvs_array_item)"
  boot_rbtree :: "mallocs \<times> rbtree_node"
  boot_hash :: "mallocs \<times> (nat \<Rightarrow> slot)"

definition init_kvengine :: "boot \<Rightarrow> rbtree \<Rightarrow> (engines \<times> int) res" where
  "init_kvengine b heap =
     (let a = \<lparr>table = NullP, idx = 0, total = 0\<rparr>;
          h = \<lparr>nodes = NullP, max_slots = 0, hcount = 0\<rparr>
      in andthen (kvs_rbtree_create (fst (boot_rbtree b)) (snd (boot_rbtree b)) (Some (heap\<lparr>root := 0, nil := 0\<rparr>))) (\<lambda>(t, _).
         Inr (\<lparr>global_array = fst (kvs_array_create (fst (boot_array b)) (snd (boot_array b)) (Some a)),
               global_rbtree = t,
               global_hash = fst (kvs_hash_create (fst (boot_hash b)) (snd (boot_hash b)) (Some h))\<rparr>, 0)))"

definition dest_kvengine :: "engines \<Rightarrow> engines res" where
  "dest_kvengine E =
     andthen (kvs_rbtree_destory (global_rbtree E)) (\<lambda>t.
     andthen (kvs_hash_destory (global_hash E)) (\<lambda>h.
     Inr \<lparr>global_array = kvs_array_destory (global_array E), global_rbtree = t, global_hash = h\<rparr>))"

section \<open>Splitting, by reference\<close>

text \<open>The words of a text: its maximal blank-free pieces.\<close>

fun words :: "string \<Rightarrow> string list" where
  "words [] = []"
| "words (c # cs) =
     (if c = CHR '' '' then words cs
      else if cs = [] \<or> hd cs = CHR '' '' then [c] # words cs
      else (c # hd (words cs)) # tl (words cs))"

lemma words_dropWhile: "words (dropWhile (\<lambda>c. c = CHR '' '') s) = words s"
  by (induction s) auto

lemma words_token:
  assumes "s \<noteq> []" "hd s \<noteq> CHR '' ''"
  shows "words s = takeWhile (\<lambda>c. c \<noteq> CHR '' '') s # words (drop 1 (dropWhile (\<lambda>c. c \<noteq> CHR '' '') s))"
  using assms
proof (induction s)
  case (Cons c cs)
  show ?case
  proof (cases "cs = [] \<or> hd cs = CHR '' ''")
    case True
    with Cons.prems show ?thesis by (cases cs) auto
  next
    case False
    with Cons show ?thesis by simp
  qed
qed simp

lemma strtok_words:
  "strtok_blank s = None \<Longrightarrow> words s = []"
  "strtok_blank s = Some (t, r) \<Longrightarrow> words s = t # words r"
proof -
  let ?d = "dropWhile (\<lambda>c. c = CHR '' '') s"
  have w: "words s = words ?d" by (simp add: words_dropWhile)
  show "words s = []" if "strtok_blank s = None"
  proof -
    have "?d = []" using that by (simp add: strtok_blank_def Let_def split: if_splits)
    then show ?thesis by (simp only: w words.simps(1))
  qed
  have "hd ?d \<noteq> CHR '' ''" if "?d \<noteq> []"
    using hd_dropWhile [of "\<lambda>c. c = CHR '' ''" s] that by (auto simp: dropWhile_eq_Nil_conv)
  then show "words s = t # words r" if "strtok_blank s = Some (t, r)"
    using that words_token [of ?d] unfolding w by (auto simp: strtok_blank_def Let_def split: if_splits)
qed

lemma split_loop_words:
  "split_loop s (ps @ replicate m Null) (length ps) =
     (if length (words s) \<le> m
      then Inr (ps @ map Str (words s) @ replicate (m - length (words s)) Null, length ps + length (words s))
      else Inl OutOfBounds)"
proof (induction "length s" arbitrary: s ps m rule: less_induct)
  case less
  show ?case
  proof (cases "strtok_blank s")
    case None
    then show ?thesis using strtok_words(1) [OF None] by (simp add: split_loop.simps)
  next
    case (Some tr)
    obtain t r where tr: "tr = (t, r)" by (cases tr)
    note w = strtok_words(2) [OF Some [unfolded tr]]
    show ?thesis
    proof (cases m)
      case 0
      then show ?thesis using Some tr w by (simp add: split_loop.simps)
    next
      case (Suc m')
      have "split_loop r ((ps @ [Str t]) @ replicate m' Null) (length (ps @ [Str t])) =
        (if length (words r) \<le> m'
         then Inr ((ps @ [Str t]) @ map Str (words r) @ replicate (m' - length (words r)) Null,
            length (ps @ [Str t]) + length (words r)) else Inl OutOfBounds)"
        by (rule less) (use strtok_blank_shorter Some tr in simp)
      then show ?thesis using Some tr w Suc by (simp add: split_loop.simps [of s])
    qed
  qed
qed

lemma kvs_split_token_words:
  "kvs_split_token (Some s) (Some (replicate m Null)) =
     (if length (words s) \<le> m
      then Inr (Some (map Str (words s) @ replicate (m - length (words s)) Null), int (length (words s)))
      else Inl OutOfBounds)"
  using split_loop_words [of s "[]" m] by (simp add: kvs_split_token_def)

lemma words_nonempty: "w \<in> set (words s) \<Longrightarrow> w \<noteq> []"
proof (induction s arbitrary: w)
  case (Cons c cs)
  then show ?case
    by (cases "words cs") (auto split: if_splits)
qed simp

lemma words_length: "sum_list (map length (words s)) + length (words s) \<le> length s + 1"
proof (induction "length s" arbitrary: s rule: less_induct)
  case less
  let ?d = "dropWhile (\<lambda>c. c = CHR '' '') s"
  show ?case
  proof (cases "strtok_blank s")
    case (Some tr)
    obtain t r where tr: "strtok_blank s = Some (t, r)" using Some by (cases tr) auto
    have r: "sum_list (map length (words r)) + length (words r) \<le> length r + 1"
      by (rule less) (rule strtok_blank_shorter [OF tr])
    have d: "?d \<noteq> []" "t = takeWhile (\<lambda>c. c \<noteq> CHR '' '') ?d" "r = drop 1 (dropWhile (\<lambda>c. c \<noteq> CHR '' '') ?d)"
      using tr by (auto simp: strtok_blank_def Let_def split: if_splits)
    have "length t + length (dropWhile (\<lambda>c. c \<noteq> CHR '' '') ?d) = length ?d"
      using takeWhile_dropWhile_id [of "\<lambda>c. c \<noteq> CHR '' ''" ?d] length_append d(2) by metis
    then have "r \<noteq> [] \<Longrightarrow> length t + 1 + length r \<le> length s" "length t \<le> length s"
      using d(3) length_dropWhile_le [of "\<lambda>c. c = CHR '' ''" s] by auto
    then show ?thesis using r strtok_words(2) [OF tr] by (cases "r = []") auto
  qed (use strtok_words(1) in simp)
qed

section \<open>Answers of a lawful engine\<close>

fun dict_set :: "(string \<rightharpoonup> string) \<Rightarrow> string \<Rightarrow> string \<Rightarrow> (string \<rightharpoonup> string) \<times> string" where
  "dict_set d k v = (if d k = None then (d(k \<mapsto> v), ''ok'' @ crlf) else (d, ''exist'' @ crlf))"

fun dict_get :: "(string \<rightharpoonup> string) \<Rightarrow> string \<Rightarrow> string" where
  "dict_get d k = (case d k of None \<Rightarrow> ''no exist'' @ crlf | Some v \<Rightarrow> v @ crlf)"

fun dict_mod :: "(string \<rightharpoonup> string) \<Rightarrow> string \<Rightarrow> string \<Rightarrow> (string \<rightharpoonup> string) \<times> string" where
  "dict_mod d k v = (if d k = None then (d, ''no exist'' @ crlf) else (d(k \<mapsto> v), ''ok'' @ crlf))"

fun dict_exist :: "(string \<rightharpoonup> string) \<Rightarrow> string \<Rightarrow> string" where
  "dict_exist d k = (if d k = None then ''no exist'' @ crlf else ''exist'' @ crlf)"

lemma sprintf_fits: "length s < cap \<Longrightarrow> sprintf cap s = Inr (s, int (length s))"
  by (simp add: sprintf_def)

lemma length_crlf [simp]: "length crlf = 2"
  by (simp add: crlf_def)

context kv_engine
begin

lemma serve_set:
  assumes "inv s" "room s" "okkey k" "10 < cap"
  shows "\<exists>s'. reply_set cap err (set_op s k v) =
      Inr (s', snd (dict_set (view s) k v), int (length (snd (dict_set (view s) k v))))
    \<and> inv s' \<and> view s' = fst (dict_set (view s) k v)"
proof (cases "view s k")
  case None
  with set_new [OF assms(1-3), of v] assms(4) show ?thesis
    by (auto simp: reply_set_def sprintf_fits)
next
  case (Some w)
  with set_old [OF assms(1-3), of w v] assms(4) show ?thesis
    by (auto simp: reply_set_def sprintf_fits)
qed

lemma serve_mod:
  assumes "inv s" "okkey k" "10 < cap"
  shows "\<exists>s'. reply_mod cap (mod_op s k v) =
      Inr (s', snd (dict_mod (view s) k v), int (length (snd (dict_mod (view s) k v))))
    \<and> inv s' \<and> view s' = fst (dict_mod (view s) k v)"
proof (cases "view s k")
  case None
  with mod_new [OF assms(1,2), of v] assms show ?thesis
    by (auto simp: reply_mod_def sprintf_fits)
next
  case (Some w)
  with mod_old [OF assms(1,2), of w v] assms(3) show ?thesis
    by (auto simp: reply_mod_def sprintf_fits)
qed

lemma serve_get:
  assumes "inv s" "okkey k" "length (dict_get (view s) k) < cap"
  shows "reply_get cap (get s k) = Inr (dict_get (view s) k, int (length (dict_get (view s) k)))"
  using get_view [OF assms(1,2)] assms(3)
  by (cases "view s k") (simp_all add: reply_get_def sprintf_fits)

lemma serve_exist:
  assumes "inv s" "okkey k" "10 < cap"
  shows "reply_exist cap (exist s k) = Inr (dict_exist (view s) k, int (length (dict_exist (view s) k)))"
  using exist_view [OF assms(1,2)] assms(3) by (simp add: reply_exist_def sprintf_fits)

end

text \<open>The hash engine reports the deletion of an absent key as an error.\<close>

fun dict_del :: "(string \<rightharpoonup> string) \<Rightarrow> string \<Rightarrow> (string \<rightharpoonup> string) \<times> string" where
  "dict_del d k = (if d k = None then (d, ''error'' @ crlf) else (d(k := None), ''ok'' @ crlf))"

lemma hash_serve_del:
  assumes "hash_inv s" "okkey_hash k" "10 < cap"
  shows "\<exists>s'. reply_mod cap (kvs_hash_del s (Str k)) =
      Inr (s', snd (dict_del (hash_view s) k), int (length (snd (dict_del (hash_view s) k))))
    \<and> hash_inv s' \<and> hash_view s' = fst (dict_del (hash_view s) k)"
proof (cases "hash_view s k")
  case None
  obtain h where h: "s = Some h" using assms(1) by (cases s) (auto simp: hash_inv_def)
  show ?thesis
    using hash_del_new [of h k] None assms by (auto simp: h reply_mod_def sprintf_fits)
next
  case (Some w)
  with hsh.del_old [OF assms(1,2) Some] assms(3) show ?thesis
    by (auto simp: reply_mod_def sprintf_fits)
qed

section \<open>The abstract server\<close>

text \<open>Three dictionaries, one per engine, and the effect and answer of each verb.\<close>

datatype engine = EArray | ERbtree | EHash

datatype verb = VSet | VGet | VDel | VMod | VExist

fun dict_serve :: "verb \<Rightarrow> (string \<rightharpoonup> string) \<Rightarrow> string \<Rightarrow> string \<Rightarrow> (string \<rightharpoonup> string) \<times> string" where
  "dict_serve VSet d k v = dict_set d k v"
| "dict_serve VGet d k v = (d, dict_get d k)"
| "dict_serve VDel d k v = dict_del d k"
| "dict_serve VMod d k v = dict_mod d k v"
| "dict_serve VExist d k v = (d, dict_exist d k)"

fun cmd_of :: "engine \<Rightarrow> verb \<Rightarrow> kvs_cmd" where
  "cmd_of EArray VSet = KVS_CMD_SET" | "cmd_of EArray VGet = KVS_CMD_GET" | "cmd_of EArray VDel = KVS_CMD_DEL"
| "cmd_of EArray VMod = KVS_CMD_MOD" | "cmd_of EArray VExist = KVS_CMD_EXIST"
| "cmd_of ERbtree VSet = KVS_CMD_RSET" | "cmd_of ERbtree VGet = KVS_CMD_RGET" | "cmd_of ERbtree VDel = KVS_CMD_RDEL"
| "cmd_of ERbtree VMod = KVS_CMD_RMOD" | "cmd_of ERbtree VExist = KVS_CMD_REXIST"
| "cmd_of EHash VSet = KVS_CMD_HSET" | "cmd_of EHash VGet = KVS_CMD_HGET" | "cmd_of EHash VDel = KVS_CMD_HDEL"
| "cmd_of EHash VMod = KVS_CMD_HMOD" | "cmd_of EHash VExist = KVS_CMD_HEXIST"

definition requests :: "(string \<times> engine \<times> verb) list" where
  "requests = [(''SET'', EArray, VSet), (''GET'', EArray, VGet), (''DEL'', EArray, VDel), (''MOD'', EArray, VMod),
     (''EXIST'', EArray, VExist), (''RSET'', ERbtree, VSet), (''RGET'', ERbtree, VGet), (''RDEL'', ERbtree, VDel),
     (''RMOD'', ERbtree, VMod), (''REXIST'', ERbtree, VExist), (''HSET'', EHash, VSet), (''HGET'', EHash, VGet),
     (''HDEL'', EHash, VDel), (''HMOD'', EHash, VMod), (''HEXIST'', EHash, VExist)]"

lemma find_cmd_lookup:
  "find_cmd (Str c) cs = Inr (case map_of cs c of None \<Rightarrow> KVS_CMD_COUNT | Some x \<Rightarrow> x)"
  by (induction cs) auto

lemma commands_requests:
  "map_of (zip command cmd_enum) c = map_option (\<lambda>(e, vb). cmd_of e vb) (map_of requests c)"
  by (simp add: command_def cmd_enum_def requests_def)

lemma find_request:
  "map_of requests c = Some (e, vb) \<Longrightarrow> find_cmd (Str c) (zip command cmd_enum) = Inr (cmd_of e vb)"
  "map_of requests c = None \<Longrightarrow> find_cmd (Str c) (zip command cmd_enum) = Inr KVS_CMD_COUNT"
  by (simp_all add: find_cmd_lookup commands_requests)

section \<open>The engines implement the abstract server\<close>

definition store_ok :: "engines \<Rightarrow> bool" where
  "store_ok E \<longleftrightarrow> dense (global_array E) \<and> rb_ok (global_rbtree E) \<and> hash_inv (global_hash E)"

fun views :: "engines \<Rightarrow> engine \<Rightarrow> string \<Rightarrow> string option" where
  "views E EArray = array_view (global_array E)"
| "views E ERbtree = rb_view (global_rbtree E)"
| "views E EHash = hash_view (global_hash E)"

text \<open>
  The requests served as a dictionary would: no deletion in the array (it loses an entry) or in the tree
  (it can fault), room in the array for a new key, a key the hash function can place.
\<close>

fun servable :: "(engine \<Rightarrow> string \<Rightarrow> string option) \<Rightarrow> engine \<Rightarrow> verb \<Rightarrow> string \<Rightarrow> bool" where
  "servable D EArray vb k = (vb \<noteq> VDel \<and> (vb = VSet \<longrightarrow> card (dom (D EArray)) < KVS_ARRAY_SIZE))"
| "servable D ERbtree vb k = (vb \<noteq> VDel)"
| "servable D EHash vb k = okkey_hash k"

lemma str_of_inj: "is_Str a \<Longrightarrow> is_Str b \<Longrightarrow> str_of a = str_of b \<Longrightarrow> a = b"
  by (cases a; cases b) auto

lemma dense_card:
  assumes "dense s"
  shows "array_room s \<longleftrightarrow> card (dom (array_view s)) < KVS_ARRAY_SIZE"
proof -
  obtain a t where a: "s = Some a" "table a = Block t" using assms
    by (auto simp: dense_def split: option.splits block.splits)
  with assms have t: "length t = KVS_ARRAY_SIZE" "total a \<le> KVS_ARRAY_SIZE"
    "list_all (\<lambda>it. is_Str (akey it) \<and> is_Str (avalue it)) (items a)" "distinct (map akey (items a))"
    by (auto simp: dense_def)
  have "inj_on str_of (set (map akey (items a)))"
    using t(3) by (auto simp: inj_on_def list_all_iff intro: str_of_inj)
  with t(4) have "distinct (map (str_of \<circ> akey) (items a))" by (metis distinct_map map_map)
  then have d: "distinct (map fst (pairs (items a)))" by (simp add: pairs_def comp_def)
  have "dom (array_view s) = set (map fst (pairs (items a)))"
    by (simp add: a array_view_def dom_map_of_conv_image_fst)
  then have "card (dom (array_view s)) = length (items a)"
    using distinct_card [OF d] by (simp add: pairs_def)
  with a t show ?thesis by (simp add: items_def array_room_def)
qed

lemma exec_array:
  assumes "store_ok E" "servable (views E) EArray vb k" "dict_serve vb (views E EArray) k v = (d, resp)"
    and "10 < cap" "length resp < cap"
  shows "\<exists>E'. exec_cmd malloc_ok junk cap E (cmd_of EArray vb) (Str k) (Str v) = Inr (E', resp, int (length resp))
    \<and> store_ok E' \<and> views E' = (views E)(EArray := d)"
proof -
  note ok = assms(1) [unfolded store_ok_def]
  have v: "views (E\<lparr>global_array := s\<rparr>) = (views E)(EArray := array_view s)" for s
    by (rule ext, rename_tac e, case_tac e) auto
  from assms ok dense_card [of "global_array E"] show ?thesis
    using arr.serve_set [where s = "global_array E" and k = k and cap = cap and v = v and err = "''set error''"]
      arr.serve_mod [where s = "global_array E" and k = k and cap = cap and v = v]
      arr.serve_get [where s = "global_array E" and k = k and cap = cap]
      arr.serve_exist [where s = "global_array E" and k = k and cap = cap]
    by (cases vb) (fastforce simp: put_array_def keep_def v store_ok_def)+
qed

lemma exec_rbtree:
  assumes "store_ok E" "servable (views E) ERbtree vb k" "dict_serve vb (views E ERbtree) k v = (d, resp)"
    and "10 < cap" "length resp < cap"
  shows "\<exists>E'. exec_cmd malloc_ok junk cap E (cmd_of ERbtree vb) (Str k) (Str v) = Inr (E', resp, int (length resp))
    \<and> store_ok E' \<and> views E' = (views E)(ERbtree := d)"
proof -
  note ok = assms(1) [unfolded store_ok_def]
  have v: "views (E\<lparr>global_rbtree := s\<rparr>) = (views E)(ERbtree := rb_view s)" for s
    by (rule ext, rename_tac e, case_tac e) auto
  from assms ok show ?thesis
    using rbe.serve_set [where junk = junk and s = "global_rbtree E" and k = k and cap = cap and v = v and err = "''set error''"]
      rbe.serve_mod [where s = "global_rbtree E" and k = k and cap = cap and v = v]
      rbe.serve_get [where s = "global_rbtree E" and k = k and cap = cap]
      rbe.serve_exist [where s = "global_rbtree E" and k = k and cap = cap]
    by (cases vb) (fastforce simp: put_rbtree_def keep_def v store_ok_def)+
qed

lemma exec_hash:
  assumes "store_ok E" "servable (views E) EHash vb k" "dict_serve vb (views E EHash) k v = (d, resp)"
    and "10 < cap" "length resp < cap"
  shows "\<exists>E'. exec_cmd malloc_ok junk cap E (cmd_of EHash vb) (Str k) (Str v) = Inr (E', resp, int (length resp))
    \<and> store_ok E' \<and> views E' = (views E)(EHash := d)"
proof -
  note ok = assms(1) [unfolded store_ok_def]
  have v: "views (E\<lparr>global_hash := s\<rparr>) = (views E)(EHash := hash_view s)" for s
    by (rule ext, rename_tac e, case_tac e) auto
  from assms ok show ?thesis
    using hsh.serve_set [where s = "global_hash E" and k = k and cap = cap and v = v and err = "''error''"]
      hsh.serve_mod [where s = "global_hash E" and k = k and cap = cap and v = v]
      hsh.serve_get [where s = "global_hash E" and k = k and cap = cap]
      hsh.serve_exist [where s = "global_hash E" and k = k and cap = cap]
      hash_serve_del [where s = "global_hash E" and k = k and cap = cap]
    by (cases vb) (fastforce simp: put_hash_def keep_def v store_ok_def)+
qed

lemma exec_serves:
  assumes "store_ok E" "servable (views E) e vb k" "dict_serve vb (views E e) k v = (d, resp)"
    and "10 < cap" "length resp < cap"
  shows "\<exists>E'. exec_cmd malloc_ok junk cap E (cmd_of e vb) (Str k) (Str v) = Inr (E', resp, int (length resp))
    \<and> store_ok E' \<and> views E' = (views E)(e := d)"
  using exec_array exec_rbtree exec_hash assms by (cases e) auto

text \<open>A request without a value: the verbs that need none do not look at it.\<close>

lemma exec_no_value:
  assumes "vb \<noteq> VSet" "vb \<noteq> VMod"
  shows "exec_cmd m junk cap E (cmd_of e vb) (Str k) value = exec_cmd m junk cap E (cmd_of e vb) (Str k) value'"
  using assms by (cases e; cases vb) auto

text \<open>What a request asks for, if it is well formed.\<close>

definition parse_request :: "string \<Rightarrow> (engine \<times> verb \<times> string \<times> string) option" where
  "parse_request msg = (case words msg of
      c # k # rest \<Rightarrow> (case map_of requests c of
         Some (e, vb) \<Rightarrow> if (vb = VSet \<or> vb = VMod) \<and> rest = [] then None
                         else Some (e, vb, k, if rest = [] then [] else hd rest)
       | None \<Rightarrow> None)
    | _ \<Rightarrow> None)"

lemma protocol_exec:
  assumes "0 < len" "length (words msg) \<le> KVS_MAX_TOKENS" "words msg = c # k # rest"
  shows "kvs_protocol m junk E (Some msg) len (Some cap) =
    andthen (find_cmd (Str c) (zip command cmd_enum)) (\<lambda>cmd.
      exec_cmd m junk cap E cmd (Str k) (if rest = [] then Null else Str (hd rest)))"
proof -
  let ?ts = "map Str (words msg) @ replicate (KVS_MAX_TOKENS - length (words msg)) Null"
  have "?ts ! 2 = (if rest = [] then Null else Str (hd rest))"
    using assms(2,3) by (cases rest) (auto simp: KVS_MAX_TOKENS_def nth_Cons')
  with assms show ?thesis
    by (simp add: kvs_protocol_def kvs_split_token_words kvs_filter_protocol_def)
qed

lemma parse_exec:
  assumes "0 < len" "length (words msg) \<le> KVS_MAX_TOKENS" "parse_request msg = Some (e, vb, k, v)"
  shows "kvs_protocol m junk E (Some msg) len (Some cap) = exec_cmd m junk cap E (cmd_of e vb) (Str k) (Str v)"
proof -
  obtain c rest where w: "words msg = c # k # rest" "map_of requests c = Some (e, vb)"
      "rest = [] \<longrightarrow> vb \<noteq> VSet \<and> vb \<noteq> VMod" "v = (if rest = [] then [] else hd rest)"
    using assms(3) by (auto simp: parse_request_def split: list.splits option.splits if_splits)
  show ?thesis
    using protocol_exec [OF assms(1,2) w(1)] find_request(1) [OF w(2)] exec_no_value [of vb m junk cap E e k] w(3,4)
    by (cases rest) auto
qed

lemma parse_value_short:
  assumes "parse_request msg = Some (e, vb, k, v)" "length msg \<le> 1024"
  shows "length v \<le> 1018"
proof -
  obtain c rest where w: "words msg = c # k # rest" "map_of requests c = Some (e, vb)"
      "v = (if rest = [] then [] else hd rest)"
    using assms(1) by (auto simp: parse_request_def split: list.splits option.splits if_splits)
  have "3 \<le> length c" using w(2) by (auto simp: requests_def split: if_splits)
  moreover have "k \<noteq> []" using words_nonempty [of k msg] w(1) by simp
  ultimately show ?thesis
    using words_length [of msg] w assms(2) by (cases rest; cases k) auto
qed

lemma exec_values:
  assumes "dict_serve vb d k v = (d', resp)" "\<forall>x w. d x = Some w \<longrightarrow> length w \<le> n" "length v \<le> n"
  shows "\<forall>x w. d' x = Some w \<longrightarrow> length w \<le> n"
  using assms by (cases vb) (auto split: if_splits option.splits)

lemma resp_length:
  assumes "dict_serve vb d k v = (d', resp)" "\<forall>x w. d x = Some w \<longrightarrow> length w \<le> n" "8 \<le> n"
  shows "length resp \<le> n + 2"
  using assms by (cases vb) (auto split: if_splits option.splits)

end
