(* ===== verification/Kvs_Rbtree_Props.thy ===== *)
theory Kvs_Rbtree_Props
  imports Kvs_Rbtree_Delete
begin

text \<open>
  What the red-black tree engine guarantees, and where it fails: the properties of
  \<^verbatim>\<open>src/12_1/kvs_rbtree.c\<close> with a concrete tree as their witness.
\<close>

section \<open>Balance\<close>

lemma bheight_size: "invh t \<Longrightarrow> 2 ^ bheight t \<le> length (inorder t) + 1"
  by (induction t) auto

lemma height_bheight: "invc t \<Longrightarrow> invh t \<Longrightarrow> height t \<le> 2 * bheight t + (if tcol t = RED then 1 else 0)"
  by (induction t) (auto split: if_splits)

lemma rbt_height:
  assumes "rbt t" "length (inorder t) < 2 ^ n"
  shows "height t \<le> 2 * n"
proof -
  have "2 ^ bheight t \<le> length (inorder t) + 1" using bheight_size assms(1) by (simp add: rbt_def)
  with assms(2) have "2 ^ bheight t \<le> (2 :: nat) ^ n" by linarith
  then have "bheight t \<le> n" by (rule power_le_imp_le_exp [rotated]) simp
  with height_bheight [of t] assms(1) show ?thesis by (simp add: rbt_def)
qed

section \<open>A tree to evaluate on\<close>

definition demo_cells :: "ptr \<Rightarrow> rbtree_node option" where
  "demo_cells = Map.empty(
     1 \<mapsto> \<lparr>ncolor = BLACK, nright = 0, nleft = 0, nparent = 0, nkey = '''', nvalue = Wild\<rparr>,
     2 \<mapsto> \<lparr>ncolor = BLACK, nright = 4, nleft = 3, nparent = 1, nkey = ''b'', nvalue = Str ''2''\<rparr>,
     3 \<mapsto> \<lparr>ncolor = BLACK, nright = 1, nleft = 1, nparent = 2, nkey = ''a'', nvalue = Str ''1''\<rparr>,
     4 \<mapsto> \<lparr>ncolor = BLACK, nright = 5, nleft = 1, nparent = 2, nkey = ''c'', nvalue = Str ''3''\<rparr>,
     5 \<mapsto> \<lparr>ncolor = RED, nright = 1, nleft = 1, nparent = 4, nkey = ''d'', nvalue = Str ''4''\<rparr>)"

definition demo_rb :: rbtree where
  "demo_rb = \<lparr>root = 2, nil = 1, cells = demo_cells, brk = 6\<rparr>"

definition demo_tree :: ptree where
  "demo_tree = Nd (Nd Lf 3 BLACK ''a'' (Str ''1'') Lf) 2 BLACK ''b'' (Str ''2'')
     (Nd Lf 4 BLACK ''c'' (Str ''3'') (Nd Lf 5 RED ''d'' (Str ''4'') Lf))"

lemma letters: "''a'' < ''b''" "''b'' < ''c''" "''c'' < ''d''" "''a'' < ''c''" "''a'' < ''d''" "''b'' < ''d''"
  by code_simp+

lemma demo_inv: "rb_inv demo_rb demo_tree"
  unfolding rb_inv_def
proof (intro conjI)
  show "srep demo_rb [] demo_tree"
    by (simp add: srep_def demo_rb_def demo_tree_def demo_cells_def nil_ok_def)
  show "rbt demo_tree" by (simp add: rbt_def demo_tree_def)
  show "bst demo_tree" using letters by (simp add: bst_def demo_tree_def)
  show "list_all (\<lambda>e. is_Str (snd e)) (inorder demo_tree)" by (simp add: demo_tree_def)
  show "heap_ok demo_rb" by (auto simp: heap_ok_def demo_rb_def demo_cells_def split: if_splits)
qed

lemma demo_ok: "rb_ok (Some demo_rb)"
  using demo_inv by (auto simp: rb_ok_def)

definition demo_junk :: rbtree_node where
  "demo_junk = \<lparr>ncolor = 0, nright = 0, nleft = 0, nparent = 0, nkey = '''', nvalue = Wild\<rparr>"

lemma demo_view:
  "rb_view (Some demo_rb) ''a'' = Some ''1''" "rb_view (Some demo_rb) ''d'' = Some ''4''"
  "rb_view (Some demo_rb) ''e'' = None" "rb_view (Some demo_rb) ''c'' = Some ''3''"
  using rb_view_inorder [OF demo_inv] by (simp_all add: demo_tree_def)

lemma demo_splice:
  "splice demo_tree ''a'' = ([FL 2 BLACK ''b'' (Str ''2'') (Nd Lf 4 BLACK ''c'' (Str ''3'') (Nd Lf 5 RED ''d'' (Str ''4'') Lf))],
     Nd Lf 3 BLACK ''a'' (Str ''1'') Lf)"
  "splice demo_tree ''c'' = ([FR (Nd Lf 3 BLACK ''a'' (Str ''1'') Lf) 2 BLACK ''b'' (Str ''2'')],
     Nd Lf 4 BLACK ''c'' (Str ''3'') (Nd Lf 5 RED ''d'' (Str ''4'') Lf))"
  using letters less_asym [OF letters(2)] by (simp_all add: splice_def demo_tree_def)

section \<open>Properties\<close>

text \<open>
  C2: on a well-formed tree the engine is a dictionary for every key: lookup and existence test
  answer from the entries; setting an absent key adds the entry, setting a present one changes no entry
  and returns 1; mod replaces a present entry and returns 1 for an absent key. Every operation returns
  (no fault, fuel never runs out) and leaves a well-formed red-black search tree.
\<close>

theorem kvs_rbtree_dictionary:
  assumes "rb_ok s"
  shows "kvs_rbtree_get s (Str k) = Inr (cstr_of (rb_view s k))
    \<and> kvs_rbtree_exist s (Str k) = Inr (if rb_view s k = None then 1 else 0)
    \<and> (\<exists>s'. kvs_rbtree_set malloc_ok junk s (Str k) (Str v) = Inr (s', if rb_view s k = None then 0 else 1)
         \<and> rb_ok s' \<and> rb_view s' = (if rb_view s k = None then (rb_view s)(k \<mapsto> v) else rb_view s))
    \<and> (\<exists>s' r. kvs_rbtree_mod malloc_ok s (Str k) (Str v) = Inr (s', r) \<and> (r = 0 \<longleftrightarrow> rb_view s k \<noteq> None)
         \<and> rb_ok s' \<and> rb_view s' = (if rb_view s k = None then rb_view s else (rb_view s)(k \<mapsto> v)))"
proof (cases "rb_view s k")
  case None
  obtain r where r: "kvs_rbtree_mod malloc_ok s (Str k) (Str v) = Inr (s, r)" "0 < r"
    using rbe.mod_new [OF assms TrueI None] by blast
  show ?thesis
    using rbe.get_view [OF assms TrueI] rbe.exist_view [OF assms TrueI]
      rbe.set_new [OF assms TrueI TrueI None, of junk v] r None assms by auto
next
  case (Some w)
  show ?thesis
    using rbe.get_view [OF assms TrueI] rbe.exist_view [OF assms TrueI]
      rbe.set_old [OF assms TrueI TrueI Some, of junk v] rbe.mod_old [OF assms TrueI Some, of v] Some by auto
qed

theorem kvs_rbtree_dictionary_witness:
  "kvs_rbtree_get (Some demo_rb) (Str ''d'') = Inr (Str ''4'')
    \<and> (\<exists>s'. kvs_rbtree_set malloc_ok demo_junk (Some demo_rb) (Str ''e'') (Str ''5'') = Inr (s', 0)
         \<and> rb_ok s' \<and> rb_view s' = (rb_view (Some demo_rb))(''e'' \<mapsto> ''5''))"
  using kvs_rbtree_dictionary [OF demo_ok, of "''d''" demo_junk "''5''"]
    kvs_rbtree_dictionary [OF demo_ok, of "''e''" demo_junk "''5''"] demo_view by simp

text \<open>
  C21: a well-formed tree is balanced: a traversal gives the entries in strictly increasing order of
  their keys, and with fewer than \<^term>\<open>2 ^ n\<close> entries the search loop ends within \<^term>\<open>2 * n + 1\<close> tests,
  at the sentinel exactly for the keys that are not there.
\<close>

theorem kvs_rbtree_balanced:
  assumes "rb_ok (Some T)"
  shows "\<exists>xs. rbtree_traversal (brk T) T (root T) = Inr xs \<and> sorted_wrt (<) (map fst xs)
    \<and> (\<forall>n k. length xs < 2 ^ n \<longrightarrow>
         (\<exists>p. search_loop (2 * n + 1) T k (root T) = Inr p \<and> (p = nil T \<longleftrightarrow> k \<notin> fst ` set xs)))"
proof -
  obtain t where i: "rb_inv T t" using assms by (auto simp: rb_ok_def)
  then have h: "height t < brk T" using fuel_enough [of T t] height_ads [of t] by (simp add: rb_inv_def)
  have "search_loop (2 * n + 1) T k (root T) = Inr (taddr (nil T) t k)" if "length (inorder t) < 2 ^ n" for n k
    using search_loop_rep [of T "nil T" t "2 * n + 1" k] rbt_height [OF _ that] i
    by (simp add: rb_inv_def srep_def)
  with h i taddr_nil [of t "nil T"] traversal_rep [of T "nil T" t "brk T"] show ?thesis
    by (auto simp: rb_inv_def srep_def bst_def)
qed

theorem kvs_rbtree_balanced_witness:
  "\<exists>xs. rbtree_traversal 6 demo_rb 2 = Inr xs \<and> sorted_wrt (<) (map fst xs)"
  using kvs_rbtree_balanced [OF demo_ok] by (auto simp: demo_rb_def)

text \<open>
  Creating the tree in a heap whose live cells lie below the next free address gives the empty
  dictionary when the sentinel can be allocated, and dereferences NULL when it cannot.
\<close>

theorem kvs_rbtree_create_empty:
  assumes "heap_ok T" "0 < brk T"
  shows "(m 0 \<longrightarrow> (\<exists>T'. kvs_rbtree_create m junk (Some T) = Inr (Some T', 0) \<and> rb_ok (Some T')
         \<and> rb_view (Some T') = Map.empty))
    \<and> (\<not> m 0 \<longrightarrow> kvs_rbtree_create m junk (Some T) = Inl Segv)"
  using kvs_rbtree_create_rep [OF assms] by auto

theorem kvs_rbtree_create_empty_witness:
  "kvs_rbtree_create (\<lambda>_. False) demo_junk (Some demo_rb) = Inl Segv
    \<and> (\<exists>T'. kvs_rbtree_create malloc_ok demo_junk (Some demo_rb) = Inr (Some T', 0) \<and> rb_ok (Some T'))"
proof -
  have "heap_ok demo_rb" "0 < brk demo_rb" using demo_inv by (simp_all add: rb_inv_def demo_rb_def)
  from kvs_rbtree_create_empty [OF this, of "\<lambda>_. False" demo_junk]
    kvs_rbtree_create_empty [OF this, of malloc_ok demo_junk] show ?thesis by auto
qed

text \<open>
  C24: deleting a key. Let \<^term>\<open>splice t k\<close> be the node that is unlinked, the key's own node or its
  successor. If that node is red, or has a child, or is the root, the deletion returns 0, removes the entry of
  the key and no other, and leaves a well-formed tree; for an absent key it returns 1.
\<close>

theorem kvs_rbtree_del_ok:
  assumes "rb_inv T t"
  shows "(rb_view (Some T) k = None \<longrightarrow> kvs_rbtree_del (Some T) (Str k) = Inr (Some T, 1))
    \<and> (\<forall>ctx l y c ky vy r. rb_view (Some T) k \<noteq> None \<longrightarrow> splice t k = (ctx, Nd l y c ky vy r) \<longrightarrow>
         c = RED \<or> l \<noteq> Lf \<or> r \<noteq> Lf \<or> ctx = [] \<longrightarrow>
         (\<exists>T'. kvs_rbtree_del (Some T) (Str k) = Inr (Some T', 0) \<and> rb_ok (Some T')
            \<and> rb_view (Some T') = (rb_view (Some T))(k := None)))"
  using kvs_rbtree_del_absent [OF assms, of k] kvs_rbtree_del_present(1) [OF assms, of k]
  by blast

theorem kvs_rbtree_del_ok_witness:
  "\<exists>T'. kvs_rbtree_del (Some demo_rb) (Str ''c'') = Inr (Some T', 0) \<and> rb_ok (Some T')
    \<and> rb_view (Some T') = (rb_view (Some demo_rb))(''c'' := None)"
  using kvs_rbtree_del_ok [OF demo_inv, of "''c''"] demo_splice(2) demo_view(4) by simp

text \<open>
  C25: if the unlinked node is a black leaf below the root, the fix-up starts at the sentinel, follows
  the parent field that nothing ever set, and faults unless that field happens to hold the address of a live
  node.
\<close>

theorem kvs_rbtree_del_stuck:
  assumes "rb_inv T t" "rb_view (Some T) k \<noteq> None" "splice t k = (ctx, Nd Lf y BLACK ky vy Lf)" "ctx \<noteq> []"
    and "cells T (nil T) = Some n" "cells T (nparent n) = None"
  shows "kvs_rbtree_del (Some T) (Str k) = Inl Segv"
  using kvs_rbtree_del_present(2) [OF assms(1-3) refl refl refl assms(4-6)] .

theorem kvs_rbtree_del_stuck_witness:
  "kvs_rbtree_del (Some demo_rb) (Str ''a'') = Inl Segv"
  using kvs_rbtree_del_stuck [OF demo_inv _ demo_splice(1), of "the (cells demo_rb 1)"] demo_view
  by (simp add: demo_rb_def demo_cells_def)

text \<open>
  Destroying a tree frees its sentinel and none of its nodes: the loop that should free them tests
  for a NULL root, and the root pointer of a well-formed tree is never NULL.
\<close>

theorem kvs_rbtree_destory_leaks:
  assumes "rb_ok (Some T)"
  shows "kvs_rbtree_destory (Some T) = Inr (Some (free_node T (nil T)))
    \<and> (\<forall>p. p \<noteq> nil T \<longrightarrow> cells (free_node T (nil T)) p = cells T p)"
proof -
  obtain t where i: "rb_inv T t" using assms by (auto simp: rb_ok_def)
  have "root T \<in> insert (nil T) (set (ads t))"
    using i by (cases t) (auto simp: rb_inv_def srep_def)
  then have "cells T (root T) \<noteq> None"
    using i srep_nil [of T "[]" t] trep_dom [of "cells T" "nil T" "nil T" t] by (auto simp: rb_inv_def srep_def)
  then have "root T \<noteq> 0" using i by (fastforce simp: rb_inv_def heap_ok_def)
  then show ?thesis by (simp add: kvs_rbtree_destory_def free_node_def)
qed

theorem kvs_rbtree_destory_leaks_witness:
  "\<exists>T. kvs_rbtree_destory (Some demo_rb) = Inr (Some T) \<and> cells T 2 \<noteq> None"
  using kvs_rbtree_destory_leaks [OF demo_ok] by (auto simp: demo_rb_def demo_cells_def)

end
