(* ===== verification/Kvs_Protocol_Props.thy ===== *)
theory Kvs_Protocol_Props
  imports Kvs_Protocol Kvs_Rbtree_Props
begin

text \<open>
  What the protocol layer guarantees: a whole conversation answered as three abstract dictionaries
  would answer it, and the answers, or the faults, of malformed requests.
\<close>

section \<open>Conversations\<close>

text \<open>
  Requests served one after the other, each read into the request buffer and answered into a response buffer
  of \<open>BUFFER_LENGTH\<close> bytes.
\<close>

definition BUFFER_LENGTH :: nat where
  "BUFFER_LENGTH = 1024"

fun kvs_run :: "rbtree_node \<Rightarrow> engines \<Rightarrow> string list \<Rightarrow> (engines \<times> string list) res" where
  "kvs_run junk E [] = Inr (E, [])"
| "kvs_run junk E (msg # ms) =
     andthen (kvs_protocol malloc_ok junk E (Some msg) (int (length msg)) (Some BUFFER_LENGTH)) (\<lambda>(E, resp, _).
     andthen (kvs_run junk E ms) (\<lambda>(E, rs). Inr (E, resp # rs)))"

text \<open>The same conversation with the dictionaries; \<open>None\<close> if a request is not one they serve.\<close>

fun dict_run :: "(engine \<Rightarrow> string \<Rightarrow> string option) \<Rightarrow> string list
    \<Rightarrow> ((engine \<Rightarrow> string \<Rightarrow> string option) \<times> string list) option" where
  "dict_run D [] = Some (D, [])"
| "dict_run D (msg # ms) = (case parse_request msg of None \<Rightarrow> None
     | Some (e, vb, k, v) \<Rightarrow>
         if length msg \<le> BUFFER_LENGTH \<and> length (words msg) \<le> KVS_MAX_TOKENS \<and> servable D e vb k
         then (case dict_serve vb (D e) k v of (d, resp) \<Rightarrow>
                map_option (\<lambda>(D', rs). (D', resp # rs)) (dict_run (D(e := d)) ms))
         else None)"

definition short_values :: "(engine \<Rightarrow> string \<Rightarrow> string option) \<Rightarrow> bool" where
  "short_values D \<longleftrightarrow> (\<forall>e x w. D e x = Some w \<longrightarrow> length w \<le> 1018)"

lemma kvs_run_dict:
  assumes "store_ok E" "short_values (views E)" "dict_run (views E) ms = Some (D, rs)"
  shows "\<exists>E'. kvs_run junk E ms = Inr (E', rs) \<and> store_ok E' \<and> views E' = D \<and> short_values D"
  using assms
proof (induction ms arbitrary: E rs)
  case (Cons msg ms)
  obtain e vb k v where q: "parse_request msg = Some (e, vb, k, v)" "length msg \<le> 1024"
      "length (words msg) \<le> KVS_MAX_TOKENS" "servable (views E) e vb k"
    using Cons.prems(3) by (auto simp: BUFFER_LENGTH_def split: option.splits if_splits)
  obtain d resp where d: "dict_serve vb (views E e) k v = (d, resp)" by fastforce
  obtain rs' where rs: "dict_run ((views E)(e := d)) ms = Some (D, rs')" "rs = resp # rs'"
    using Cons.prems(3) q d by (auto simp: BUFFER_LENGTH_def)
  have v: "length v \<le> 1018" using parse_value_short [OF q(1,2)] .
  have short: "\<forall>x w. views E e x = Some w \<longrightarrow> length w \<le> 1018" using Cons.prems(2) by (auto simp: short_values_def)
  have r: "length resp < 1024" using resp_length [OF d short] by simp
  have "0 < int (length msg)" using q(1) by (cases msg) (auto simp: parse_request_def)
  from parse_exec [OF this q(3,1)] exec_serves [OF Cons.prems(1) q(4) d _ r, of junk] obtain E1 where
    E1: "kvs_protocol malloc_ok junk E (Some msg) (int (length msg)) (Some 1024) = Inr (E1, resp, int (length resp))"
      "store_ok E1" "views E1 = (views E)(e := d)" by auto
  have "short_values ((views E)(e := d))"
    using Cons.prems(2) exec_values [OF d short v] by (auto simp: short_values_def)
  from Cons.IH [OF E1(2), unfolded E1(3), OF this rs(1)] rs(2) E1(1) show ?case
    by (auto simp: BUFFER_LENGTH_def)
qed auto

section \<open>Malformed requests\<close>

lemma protocol_first:
  assumes "0 < len" "length (words msg) \<le> KVS_MAX_TOKENS" "words msg = c # ws"
  shows "kvs_protocol m junk E (Some msg) len (Some cap) =
    andthen (find_cmd (Str c) (zip command cmd_enum)) (\<lambda>cmd.
      exec_cmd m junk cap E cmd (if ws = [] then Null else Str (hd ws))
        ((map Str (words msg) @ replicate (KVS_MAX_TOKENS - length (words msg)) Null) ! 2))"
proof -
  have "(map Str (words msg) @ replicate (KVS_MAX_TOKENS - length (words msg)) Null) ! 1 =
      (if ws = [] then Null else Str (hd ws))"
    using assms(2,3) by (cases ws) (auto simp: KVS_MAX_TOKENS_def nth_Cons')
  with assms show ?thesis
    by (simp add: kvs_protocol_def kvs_split_token_words kvs_filter_protocol_def)
qed

lemma store_ok_Some:
  assumes "store_ok E"
  obtains a T h where "global_array E = Some a" "global_rbtree E = Some T" "global_hash E = Some h"
  using assms by (auto simp: store_ok_def dense_def rb_ok_def hash_inv_def split: option.splits)

fun no_key_answer :: "engine \<Rightarrow> verb \<Rightarrow> string" where
  "no_key_answer e VSet = (if e = EHash then ''error'' else ''set error'') @ crlf"
| "no_key_answer e VGet = ''no exist'' @ crlf"
| "no_key_answer e VDel = ''error'' @ crlf"
| "no_key_answer e VMod = ''error'' @ crlf"
| "no_key_answer e VExist = ''no exist'' @ crlf"

lemma exec_no_key:
  assumes "store_ok E" "11 < cap"
  shows "exec_cmd m junk cap E (cmd_of e vb) Null value =
    Inr (E, no_key_answer e vb, int (length (no_key_answer e vb)))"
proof -
  obtain a T h where s: "global_array E = Some a" "global_rbtree E = Some T" "global_hash E = Some h"
    using store_ok_Some [OF assms(1)] .
  then have E: "E = \<lparr>global_array = Some a, global_rbtree = Some T, global_hash = Some h\<rparr>"
    by (intro engines.equality) simp_all
  note replies = reply_set_def reply_get_def reply_mod_def reply_exist_def sprintf_def
  note puts = put_array_def put_rbtree_def put_hash_def keep_def
  show ?thesis
  proof (cases e)
    case EArray
    then show ?thesis using assms(2)
      by (cases vb; simp add: E replies puts kvs_array_set_def kvs_array_get_def kvs_array_del_def
          kvs_array_mod_def kvs_array_exist_def)
  next
    case ERbtree
    then show ?thesis using assms(2)
      by (cases vb; simp add: E replies puts kvs_rbtree_set_def kvs_rbtree_get_def kvs_rbtree_del_def
          kvs_rbtree_mod_def kvs_rbtree_exist_def)
  next
    case EHash
    then show ?thesis using assms(2)
      by (cases vb; simp add: E replies puts kvs_hash_set_def kvs_hash_get_def kvs_hash_del_def
          kvs_hash_mod_def kvs_hash_exist_def)
  qed
qed

lemma hmod_no_value:
  assumes "store_ok E" "okkey_hash k" "views E EHash k \<noteq> None"
  shows "exec_cmd m junk cap E KVS_CMD_HMOD (Str k) Null = Inl Segv"
proof -
  obtain h where h: "global_hash E = Some h" "hash_inv (Some h)"
    using assms(1) by (auto simp: store_ok_def hash_inv_def split: option.splits)
  note c = chain_at_inv [OF h(2) assms(2)]
  have n: "map_of (hpairs (chain_at h k)) k \<noteq> None" using assms(3) h(1) by (simp add: hash_view_def)
  have l: "list_all full_node (chain_at h k)" using c by (simp add: chain_ok_def)
  obtain i where "chain_find (chain_at h k) (Str k) 0 = Inr (Some i)"
    using chain_find_total [OF l, of k 0] chain_find_None [OF l, of k 0] n by auto
  with c h(1) show ?thesis
    by (simp add: kvs_hash_mod_def hash_idx_def put_hash_def reply_mod_def)
qed

section \<open>A store to evaluate on\<close>

definition demo_hash0 :: hashtable where
  "demo_hash0 = the (fst (kvs_hash_create malloc_ok (\<lambda>_. Chain []) (Some \<lparr>nodes = NullP, max_slots = 0, hcount = 0\<rparr>)))"

definition demo_store :: engines where
  "demo_store = \<lparr>global_array = fst (kvs_array_create malloc_ok (\<lambda>_. \<lparr>akey = Wild, avalue = Wild\<rparr>)
        (Some \<lparr>table = NullP, idx = 0, total = 0\<rparr>)),
     global_rbtree = Some demo_rb, global_hash = Some demo_hash0\<rparr>"

lemma fresh_array:
  "dense (fst (kvs_array_create malloc_ok junk (Some \<lparr>table = NullP, idx = i, total = n\<rparr>)))"
  "array_view (fst (kvs_array_create malloc_ok junk (Some \<lparr>table = NullP, idx = i, total = n\<rparr>))) = Map.empty"
  by (simp_all add: kvs_array_create_def dense_def items_def array_view_def pairs_def)

lemma demo_hash0: "hash_inv (Some demo_hash0)" "hash_view (Some demo_hash0) = Map.empty"
  using kvs_hash_create_zeroed [of "\<lparr>nodes = NullP, max_slots = 0, hcount = 0\<rparr>"] by (auto simp: demo_hash0_def)

lemma demo_store_ok: "store_ok demo_store"
  using demo_hash0 demo_ok fresh_array by (simp add: store_ok_def demo_store_def)

lemma demo_store_views: "views demo_store = (\<lambda>e. case e of ERbtree \<Rightarrow> rb_view (Some demo_rb) | _ \<Rightarrow> Map.empty)"
  using demo_hash0 fresh_array(2) by (intro ext, rename_tac e k, case_tac e) (simp_all add: demo_store_def)

lemma demo_store_short: "short_values (views demo_store)"
  unfolding short_values_def demo_store_views
  by (auto simp: rb_view_inorder [OF demo_inv] demo_tree_def split: engine.splits if_splits option.splits)

section \<open>Properties\<close>



text \<open>
  C28: splitting stores the words of the request in order, followed by NULL pointers, and returns their
  number, if they are at most as many as the array has room for; with more words it writes behind the array.
\<close>

theorem kvs_split_token_spec:
  "kvs_split_token (Some s) (Some (replicate m Null)) =
     (if length (words s) \<le> m
      then Inr (Some (map Str (words s) @ replicate (m - length (words s)) Null), int (length (words s)))
      else Inl OutOfBounds)"
  by (rule kvs_split_token_words)

text \<open>
  A request of more than 128 words writes behind the token array; 129 words fit in 257 bytes, a
  quarter of the request buffer.
\<close>

theorem kvs_protocol_token_overflow:
  assumes "KVS_MAX_TOKENS < length (words msg)" "0 < len"
  shows "kvs_protocol m junk E (Some msg) len (Some cap) = Inl OutOfBounds"
  using assms by (simp add: kvs_protocol_def kvs_split_token_words)

theorem kvs_protocol_token_overflow_witness:
  "kvs_protocol malloc_ok demo_junk demo_store (Some (concat (replicate 129 ''a ''))) 258 (Some 1024) = Inl OutOfBounds"
proof -
  have w: "words (concat (replicate n ''a '')) = replicate n ''a''" for n by (induction n) auto
  have "KVS_MAX_TOKENS < length (words (concat (replicate 129 ''a '')))"
    unfolding w length_replicate KVS_MAX_TOKENS_def by simp
  then show ?thesis by (rule kvs_protocol_token_overflow) simp
qed

text \<open>
  A request that is one command name and nothing else changes no engine and gets the answer for an
  invalid key, whatever the allocations do.
\<close>

theorem kvs_protocol_no_key:
  assumes "store_ok E" "words msg = [c]" "map_of requests c = Some (e, vb)" "0 < len" "11 < cap"
  shows "kvs_protocol m junk E (Some msg) len (Some cap) =
    Inr (E, no_key_answer e vb, int (length (no_key_answer e vb)))"
  using protocol_first [OF assms(4) _ assms(2)] find_request(1) [OF assms(3)] assms(2)
    exec_no_key [OF assms(1,5)] by (simp add: KVS_MAX_TOKENS_def)

theorem kvs_protocol_no_key_witness:
  "kvs_protocol malloc_ok demo_junk demo_store (Some ''RDEL'') 4 (Some 1024) = Inr (demo_store, ''error'' @ crlf, 7)"
  using kvs_protocol_no_key [OF demo_store_ok, of "''RDEL''" "''RDEL''" ERbtree VDel 4 1024 malloc_ok demo_junk]
  by (simp add: requests_def)

text \<open>
  A request whose first word is none of the fifteen commands ends the server at \<^verbatim>\<open>assert(0)\<close>.
\<close>

theorem kvs_protocol_unknown_aborts:
  assumes "words msg = c # ws" "length (words msg) \<le> KVS_MAX_TOKENS" "c \<notin> set command" "0 < len"
  shows "kvs_protocol m junk E (Some msg) len (Some cap) = Inl AssertFail"
proof -
  have "map_of requests c = None"
    using assms(3) by (simp add: map_of_eq_None_iff requests_def command_def)
  from find_request(2) [OF this] protocol_first [OF assms(4,2,1)] show ?thesis by simp
qed

theorem kvs_protocol_unknown_aborts_witness:
  "kvs_protocol malloc_ok demo_junk demo_store (Some ''set a 1'') 7 (Some 1024) = Inl AssertFail"
  by (rule kvs_protocol_unknown_aborts [of _ "''set''" "[''a'', ''1'']"])
    (simp_all add: KVS_MAX_TOKENS_def command_def)

text \<open>
  Modifying a present key of the hash engine without giving a value dereferences NULL; the other two
  engines answer such a request with an error.
\<close>

theorem kvs_protocol_hmod_no_value:
  assumes "store_ok E" "words msg = [''HMOD'', k]" "okkey_hash k" "views E EHash k \<noteq> None" "0 < len"
  shows "kvs_protocol m junk E (Some msg) len (Some cap) = Inl Segv"
proof -
  have "map_of requests ''HMOD'' = Some (EHash, VMod)" by (simp add: requests_def)
  from protocol_exec [OF assms(5) _ assms(2)] find_request(1) [OF this] hmod_no_value [OF assms(1,3,4)] assms(2)
  show ?thesis by (simp add: KVS_MAX_TOKENS_def)
qed

theorem kvs_protocol_hmod_no_value_witness:
  "\<exists>h. kvs_hash_set malloc_ok (Some demo_hash) (Str ''a'') (Str ''1'') = Inr (h, 0)
    \<and> kvs_protocol malloc_ok demo_junk (demo_store\<lparr>global_hash := h\<rparr>) (Some ''HMOD a'') 6 (Some 1024) = Inl Segv"
proof -
  have a: "okkey_hash ''a''" by code_simp
  have "hash_view (Some demo_hash) ''a'' = None"
    by (auto simp: hash_view_def chain_at_def slot_at_def demo_hash_def hpairs_def)
  from hsh.set_new [OF demo_hash_inv TrueI a this, of "''1''"] obtain h where
    h: "kvs_hash_set malloc_ok (Some demo_hash) (Str ''a'') (Str ''1'') = Inr (h, 0)" "hash_inv h"
      "hash_view h = (hash_view (Some demo_hash))(''a'' \<mapsto> ''1'')" by blast
  have "store_ok (demo_store\<lparr>global_hash := h\<rparr>)" using demo_store_ok h(2) by (simp add: store_ok_def)
  from kvs_protocol_hmod_no_value [OF this _ a, of "''HMOD a''" 6 malloc_ok demo_junk 1024] h show ?thesis by auto
qed

text \<open>
  With every allocation succeeding and the memory of the hash table zero, starting the engines in a
  well-formed heap gives three empty dictionaries. Nothing in the code clears that memory: it is what the
  allocator returns for a block of this size at the start of the process.
\<close>

theorem init_kvengine_empty:
  assumes "heap_ok heap" "0 < brk heap"
  shows "\<exists>E. init_kvengine \<lparr>boot_array = (malloc_ok, ja), boot_rbtree = (malloc_ok, jr),
      boot_hash = (malloc_ok, \<lambda>_. Chain [])\<rparr> heap = Inr (E, 0) \<and> store_ok E \<and> views E = (\<lambda>_. Map.empty)"
proof -
  let ?h = "heap\<lparr>root := 0, nil := 0\<rparr>"
  have "heap_ok ?h" "0 < brk ?h" using assms by (simp_all add: heap_ok_def)
  from kvs_rbtree_create_rep(1) [OF this, of malloc_ok jr] obtain T where
    T: "kvs_rbtree_create malloc_ok jr (Some ?h) = Inr (Some T, 0)" "rb_ok (Some T)" "rb_view (Some T) = Map.empty"
    by auto
  obtain h where h: "kvs_hash_create malloc_ok (\<lambda>_. Chain []) (Some \<lparr>nodes = NullP, max_slots = 0, hcount = 0\<rparr>) = (Some h, 0)"
      "hash_inv (Some h)" "hash_view (Some h) = Map.empty"
    using kvs_hash_create_zeroed by blast
  let ?E = "\<lparr>global_array = fst (kvs_array_create malloc_ok ja (Some \<lparr>table = NullP, idx = 0, total = 0\<rparr>)),
     global_rbtree = Some T, global_hash = Some h\<rparr>"
  have "init_kvengine \<lparr>boot_array = (malloc_ok, ja), boot_rbtree = (malloc_ok, jr),
      boot_hash = (malloc_ok, \<lambda>_. Chain [])\<rparr> heap = Inr (?E, 0)"
    using T(1) h(1) by (simp add: init_kvengine_def Let_def)
  moreover have "store_ok ?E" using T(2) h(2) fresh_array(1) by (simp add: store_ok_def)
  moreover have "views ?E = (\<lambda>_. Map.empty)"
    using T(3) h(3) fresh_array(2) by (intro ext, rename_tac e k, case_tac e) simp_all
  ultimately show ?thesis by blast
qed

theorem init_kvengine_empty_witness:
  "\<exists>E. init_kvengine \<lparr>boot_array = (malloc_ok, \<lambda>_. \<lparr>akey = Wild, avalue = Wild\<rparr>), boot_rbtree = (malloc_ok, demo_junk),
      boot_hash = (malloc_ok, \<lambda>_. Chain [])\<rparr> \<lparr>root = 0, nil = 0, cells = Map.empty, brk = 1\<rparr> = Inr (E, 0) \<and> store_ok E"
  using init_kvengine_empty [of "\<lparr>root = 0, nil = 0, cells = Map.empty, brk = 1\<rparr>"] by (auto simp: heap_ok_def)

end
