(* ===== verification/Kvs_Skiptable.thy ===== *)
theory Kvs_Skiptable
  imports C_Prelude "HOL-Library.Sublist"
begin

text \<open>
  The skip list \<^verbatim>\<open>src/12_1/kvs_skiptable.c\<close> on an explicit heap: a node has a key, a value and an array of forward pointers, one per
  level; addresses are natural numbers (0 is NULL). The results of \<^verbatim>\<open>rand\<close>, whether allocations succeed and what fresh memory
  holds are arguments. Loops along a level take as much fuel as there are addresses.
\<close>

section \<open>Data\<close>

definition MAX_LEVEL :: nat where "MAX_LEVEL = 6"

record skip_node =
  skey :: int
  svalue :: int
  forward :: "nat list"

record skip_list =
  slevel :: nat
  header :: nat
  snodes :: "nat \<Rightarrow> skip_node option"
  stop :: nat

definition snode :: "skip_list \<Rightarrow> nat \<Rightarrow> skip_node res" where
  "snode S p = (case snodes S p of None \<Rightarrow> Inl Segv | Some n \<Rightarrow> Inr n)"

definition get_forward :: "skip_list \<Rightarrow> nat \<Rightarrow> nat \<Rightarrow> nat res" where
  "get_forward S p i = andthen (snode S p) (\<lambda>n. if i < length (forward n) then Inr (forward n ! i) else Inl OutOfBounds)"

definition set_forward :: "skip_list \<Rightarrow> nat \<Rightarrow> nat \<Rightarrow> nat \<Rightarrow> skip_list res" where
  "set_forward S p i q = andthen (snode S p) (\<lambda>n.
     if i < length (forward n) then Inr (S\<lparr>snodes := (snodes S)(p \<mapsto> n\<lparr>forward := (forward n)[i := q]\<rparr>)\<rparr>) else Inl OutOfBounds)"

section \<open>Operations\<close>

text \<open>\<open>ok\<close> is whether both allocations succeed; the code uses what they return without a test.\<close>

definition createNode :: "bool \<Rightarrow> (nat \<Rightarrow> nat) \<Rightarrow> skip_list \<Rightarrow> nat \<Rightarrow> int \<Rightarrow> int \<Rightarrow> (skip_list \<times> nat) res" where
  "createNode ok junk S lev key value =
     (if \<not> ok then Inl Segv
      else Inr (S\<lparr>snodes := (snodes S)(stop S \<mapsto> \<lparr>skey = key, svalue = value, forward = map junk [0..<lev + 1]\<rparr>), stop := Suc (stop S)\<rparr>, stop S))"

fun clear_forward :: "skip_list \<Rightarrow> nat \<Rightarrow> nat \<Rightarrow> skip_list res" where
  "clear_forward S p 0 = Inr S"
| "clear_forward S p (Suc i) = andthen (clear_forward S p i) (\<lambda>S. set_forward S p i 0)"

definition createSkipList :: "bool \<Rightarrow> (nat \<Rightarrow> nat) \<Rightarrow> skip_list res" where
  "createSkipList ok junk =
     andthen (createNode ok junk \<lparr>slevel = 0, header = 0, snodes = Map.empty, stop = 1\<rparr> MAX_LEVEL (-1) (-1)) (\<lambda>(S, h).
       clear_forward (S\<lparr>header := h\<rparr>) h (MAX_LEVEL + 1))"

text \<open>\<open>rnd i\<close> is whether the i-th call of \<^verbatim>\<open>rand\<close> gives less than half of its range.\<close>

function random_from :: "(nat \<Rightarrow> bool) \<Rightarrow> nat \<Rightarrow> nat" where
  "random_from rnd lev = (if rnd lev \<and> lev < MAX_LEVEL then random_from rnd (lev + 1) else lev)"
  by pat_completeness auto
termination
  by (relation "measure (\<lambda>(_, lev). MAX_LEVEL - lev)") auto

declare random_from.simps [simp del]

definition randomLevel :: "(nat \<Rightarrow> bool) \<Rightarrow> nat" where
  "randomLevel rnd = random_from rnd 0"

text \<open>The walk along a level, and the walk down the levels with the nodes at which each was left, the lowest level first.\<close>

fun walk_level :: "nat \<Rightarrow> skip_list \<Rightarrow> nat \<Rightarrow> int \<Rightarrow> nat \<Rightarrow> nat res" where
  "walk_level 0 S i key current = Inl NoFuel"
| "walk_level (Suc fuel) S i key current =
     andthen (get_forward S current i) (\<lambda>q.
       if q = 0 then Inr current
       else andthen (snode S q) (\<lambda>n. if skey n < key then walk_level fuel S i key q else Inr current))"

fun descend :: "skip_list \<Rightarrow> nat \<Rightarrow> int \<Rightarrow> nat \<Rightarrow> nat list res" where
  "descend S 0 key current = andthen (walk_level (stop S) S 0 key current) (\<lambda>c. Inr [c])"
| "descend S (Suc i) key current =
     andthen (walk_level (stop S) S (Suc i) key current) (\<lambda>c. andthen (descend S i key c) (\<lambda>u. Inr (u @ [c])))"

text \<open>Linking the new node on the levels up to its own.\<close>

fun link_levels :: "skip_list \<Rightarrow> nat list \<Rightarrow> nat \<Rightarrow> nat \<Rightarrow> skip_list res" where
  "link_levels S update p 0 = Inr S"
| "link_levels S update p (Suc i) =
     andthen (link_levels S update p i) (\<lambda>S.
     andthen (get_forward S (update ! i) i) (\<lambda>q.
     andthen (set_forward S p i q) (\<lambda>S. set_forward S (update ! i) i p)))"

definition skip_insert :: "bool \<Rightarrow> (nat \<Rightarrow> nat) \<Rightarrow> (nat \<Rightarrow> bool) \<Rightarrow> skip_list \<Rightarrow> int \<Rightarrow> int \<Rightarrow> (skip_list \<times> bool) res" where
  "skip_insert ok junk rnd S key value =
     andthen (descend S (slevel S) key (header S)) (\<lambda>update.
     andthen (get_forward S (update ! 0) 0) (\<lambda>current.
     andthen (if current = 0 then Inr False else andthen (snode S current) (\<lambda>n. Inr (skey n = key))) (\<lambda>present.
       if present then Inr (S, False)
       else let lev = randomLevel rnd;
                update = update @ replicate (lev - slevel S) (header S);
                S = (if lev > slevel S then S\<lparr>slevel := lev\<rparr> else S) in
         andthen (createNode ok junk S lev key value) (\<lambda>(S, p).
         andthen (link_levels S update p (lev + 1)) (\<lambda>S. Inr (S, True))))))"

definition skip_search :: "skip_list \<Rightarrow> int \<Rightarrow> int option res" where
  "skip_search S key =
     andthen (descend S (slevel S) key (header S)) (\<lambda>update.
     andthen (get_forward S (update ! 0) 0) (\<lambda>current.
       if current = 0 then Inr None
       else andthen (snode S current) (\<lambda>n. Inr (if skey n = key then Some (svalue n) else None))))"

text \<open>The keys that are printed for a level, and those of all levels.\<close>

fun collect :: "'a res list \<Rightarrow> 'a list res" where
  "collect [] = Inr []"
| "collect (r # rs) = andthen r (\<lambda>x. andthen (collect rs) (\<lambda>xs. Inr (x # xs)))"

fun display_level :: "nat \<Rightarrow> skip_list \<Rightarrow> nat \<Rightarrow> nat \<Rightarrow> int list res" where
  "display_level 0 S i p = Inl NoFuel"
| "display_level (Suc fuel) S i p =
     (if p = 0 then Inr []
      else andthen (snode S p) (\<lambda>n. andthen (get_forward S p i) (\<lambda>q.
        andthen (display_level fuel S i q) (\<lambda>ks. Inr (skey n # ks)))))"

definition display :: "skip_list \<Rightarrow> int list list res" where
  "display S = collect (map (\<lambda>i. andthen (get_forward S (header S) i) (display_level (stop S) S i)) [0..<slevel S + 1])"

text \<open>A session with one list, as \<^verbatim>\<open>main\<close> is one: every call with its result, allocations succeeding. \<open>rnds\<close> has the random bits of every call.\<close>

datatype skip_call = Insert int int | Search int | Display
datatype skip_result = Inserted bool | Found "int option" | Shown "int list list"

definition skip_call :: "(nat \<Rightarrow> nat) \<Rightarrow> (nat \<Rightarrow> bool) \<Rightarrow> skip_list \<Rightarrow> skip_call \<Rightarrow> (skip_list \<times> skip_result) res" where
  "skip_call junk rnd S c = (case c of
     Insert key value \<Rightarrow> andthen (skip_insert True junk rnd S key value) (\<lambda>(S, b). Inr (S, Inserted b))
   | Search key \<Rightarrow> andthen (skip_search S key) (\<lambda>r. Inr (S, Found r))
   | Display \<Rightarrow> andthen (display S) (\<lambda>ls. Inr (S, Shown ls)))"

fun skip_session :: "(nat \<Rightarrow> nat) \<Rightarrow> (nat \<Rightarrow> nat \<Rightarrow> bool) \<Rightarrow> skip_list \<Rightarrow> skip_call list \<Rightarrow> (skip_list \<times> skip_result list) res" where
  "skip_session junk rnds S [] = Inr (S, [])"
| "skip_session junk rnds S (c # cs) =
     andthen (skip_call junk (rnds 0) S c) (\<lambda>(S, r).
     andthen (skip_session junk (\<lambda>i. rnds (Suc i)) S cs) (\<lambda>(S, rs). Inr (S, r # rs)))"

definition skip_main :: "(nat \<Rightarrow> nat) \<Rightarrow> (nat \<Rightarrow> nat \<Rightarrow> bool) \<Rightarrow> (skip_list \<times> skip_result list) res" where
  "skip_main junk rnds = andthen (createSkipList True junk) (\<lambda>S.
     skip_session junk rnds S [Insert 3 30, Insert 6 60, Insert 2 20, Insert 4 40, Display, Search 3, Search 7])"

section \<open>Skip lists as lists\<close>

text \<open>A node as the list has it: address, height, key and value.\<close>

record item =
  adr :: nat
  height :: nat
  ikey :: int
  ivalue :: int

definition nxt :: "nat \<Rightarrow> item list \<Rightarrow> nat" where
  "nxt i ns = (case filter (\<lambda>n. i \<le> height n) ns of [] \<Rightarrow> 0 | n # _ \<Rightarrow> adr n)"

definition links :: "nat \<Rightarrow> item list \<Rightarrow> nat list" where
  "links k ns = map (\<lambda>i. nxt i ns) [0..<k + 1]"

definition node_of :: "item \<Rightarrow> item list \<Rightarrow> skip_node" where
  "node_of n ns = \<lparr>skey = ikey n, svalue = ivalue n, forward = links (height n) ns\<rparr>"

definition nodes_rep :: "(nat \<Rightarrow> skip_node option) \<Rightarrow> item list \<Rightarrow> bool" where
  "nodes_rep h ns \<longleftrightarrow> (\<forall>us n vs. ns = us @ n # vs \<longrightarrow> h (adr n) = Some (node_of n vs))"

definition skip_rep :: "skip_list \<Rightarrow> item list \<Rightarrow> bool" where
  "skip_rep S ns \<longleftrightarrow> snodes S (header S) = Some \<lparr>skey = -1, svalue = -1, forward = links MAX_LEVEL ns\<rparr> \<and> nodes_rep (snodes S) ns
     \<and> distinct (header S # map adr ns) \<and> (\<forall>p \<in> set (header S # map adr ns). 0 < p \<and> p < stop S)
     \<and> sorted_wrt (<) (map ikey ns) \<and> (\<forall>n \<in> set ns. height n \<le> slevel S) \<and> slevel S \<le> MAX_LEVEL"

text \<open>A place in the list: the node that was reached, its height, what comes before and behind it.\<close>

definition place :: "skip_list \<Rightarrow> item list \<Rightarrow> nat \<Rightarrow> nat \<Rightarrow> item list \<Rightarrow> item list \<Rightarrow> bool" where
  "place S ns p k us vs \<longleftrightarrow> ns = us @ vs \<and> (if us = [] then p = header S \<and> k = MAX_LEVEL else p = adr (last us) \<and> k = height (last us))"

lemma links_nth [simp]: "length (links k ns) = Suc k" "i \<le> k \<Longrightarrow> links k ns ! i = nxt i ns"
  by (simp_all add: links_def del: upt_Suc)

lemma place_in: "place S ns p k us vs \<Longrightarrow> p \<in> set (header S # map adr ns)"
  by (cases us rule: rev_cases) (auto simp: place_def)

lemma place_node:
  assumes "skip_rep S ns" "place S ns p k us vs"
  shows "\<exists>n. snodes S p = Some n \<and> forward n = links k vs"
proof (cases "us = []")
  case True
  with assms show ?thesis by (auto simp: place_def skip_rep_def)
next
  case False
  then obtain ws n where us: "us = ws @ [n]" by (metis rev_exhaust)
  have "snodes S (adr n) = Some (node_of n vs)" using assms us by (auto simp: place_def skip_rep_def nodes_rep_def)
  with assms us show ?thesis by (auto simp: place_def node_of_def)
qed

lemma place_forward:
  assumes "skip_rep S ns" "place S ns p k us vs" "i \<le> k"
  shows "get_forward S p i = Inr (nxt i vs)"
proof -
  obtain n where "snodes S p = Some n" "forward n = links k vs" using place_node [OF assms(1,2)] by blast
  with assms(3) show ?thesis by (simp add: get_forward_def snode_def)
qed

lemma nxt_cases:
  obtains (none) "nxt i vs = 0" "\<forall>n \<in> set vs. height n < i"
  | (some) ws n xs where "vs = ws @ n # xs" "\<forall>m \<in> set ws. height m < i" "i \<le> height n" "nxt i vs = adr n"
proof (cases "filter (\<lambda>n. i \<le> height n) vs")
  case Nil
  then show thesis by (intro none) (auto simp: nxt_def filter_empty_conv not_le)
next
  case (Cons n ms)
  then show thesis by (auto simp: nxt_def filter_eq_Cons_iff not_le intro: some)
qed

text \<open>The walk along a level stops in front of the first node of the level whose key is not smaller.\<close>

lemma walk_level_spec:
  assumes rep: "skip_rep S ns" and "place S ns p k us vs" "i \<le> k" "\<forall>n \<in> set us. ikey n < key" "length vs < fuel"
  shows "\<exists>p' k' us' vs'. walk_level fuel S i key p = Inr p' \<and> place S ns p' k' us' vs' \<and> i \<le> k' \<and> (\<forall>n \<in> set us'. ikey n < key)
    \<and> (\<forall>n \<in> set vs'. i \<le> height n \<longrightarrow> key \<le> ikey n)"
  using assms(2-)
proof (induction fuel arbitrary: p k us vs)
  case (Suc fuel)
  note f = place_forward [OF rep Suc.prems(1,2)]
  show ?case
  proof (cases rule: nxt_cases [of i vs])
    case none
    with f Suc.prems show ?thesis by (intro exI [of _ p] exI [of _ k] exI [of _ us] exI [of _ vs]) auto
  next
    case (some ws n xs)
    have ns: "ns = (us @ ws) @ n # xs" using Suc.prems(1) some(1) by (simp add: place_def)
    have nd: "snodes S (adr n) = Some (node_of n xs)" "adr n \<noteq> 0" and srt: "sorted_wrt (<) (map ikey ns)"
      using rep ns by (auto simp: skip_rep_def nodes_rep_def)
    show ?thesis
    proof (cases "ikey n < key")
      case True
      have pl: "place S ns (adr n) (height n) (us @ ws @ [n]) xs" using ns by (simp add: place_def)
      have "\<forall>m \<in> set (us @ ws @ [n]). ikey m < key"
        using True srt unfolding ns by (auto simp: sorted_wrt_append)
      from Suc.IH [OF pl some(3) this] Suc.prems(4) some(1) obtain p' k' us' vs' where
        "walk_level fuel S i key (adr n) = Inr p'" "place S ns p' k' us' vs'" "i \<le> k'" "\<forall>n \<in> set us'. ikey n < key"
        "\<forall>n \<in> set vs'. i \<le> height n \<longrightarrow> key \<le> ikey n" by auto
      with f some(4) nd True show ?thesis by (auto simp: snode_def node_of_def)
    next
      case False
      have "\<forall>m \<in> set vs. i \<le> height m \<longrightarrow> key \<le> ikey m"
        using False srt some(2) unfolding ns some(1) by (auto simp: sorted_wrt_append)
      moreover have "walk_level (Suc fuel) S i key p = Inr p" using f some(4) nd False by (simp add: snode_def node_of_def)
      ultimately show ?thesis using Suc.prems by blast
    qed
  qed
qed simp

text \<open>The node behind which a key goes on a level: the last one with a smaller key that is high enough.\<close>

definition before :: "int \<Rightarrow> item list \<Rightarrow> item list" where
  "before key ns = takeWhile (\<lambda>n. ikey n < key) ns"

definition behind :: "int \<Rightarrow> item list \<Rightarrow> item list" where
  "behind key ns = dropWhile (\<lambda>n. ikey n < key) ns"

definition spot :: "skip_list \<Rightarrow> item list \<Rightarrow> nat \<Rightarrow> nat" where
  "spot S us i = (let ms = filter (\<lambda>n. i \<le> height n) us in if ms = [] then header S else adr (last ms))"

lemma before_split:
  assumes "sorted_wrt (<) (map ikey (us @ vs))" "\<forall>n \<in> set us. ikey n < key"
  shows "before key (us @ vs) = us @ before key vs" "behind key (us @ vs) = behind key vs"
  using assms(2) by (simp_all add: before_def behind_def takeWhile_append dropWhile_append)

lemma spot_place:
  assumes rep: "skip_rep S ns" and pl: "place S ns p k us vs" "i \<le> k" and less: "\<forall>n \<in> set us. ikey n < key"
    and stop: "\<forall>n \<in> set vs. i \<le> height n \<longrightarrow> key \<le> ikey n"
  shows "p = spot S (before key ns) i"
proof -
  have ns: "ns = us @ vs" "sorted_wrt (<) (map ikey ns)" using pl(1) rep by (auto simp: place_def skip_rep_def)
  have "filter (\<lambda>n. i \<le> height n) (before key vs) = []"
    using stop by (auto simp: before_def filter_empty_conv dest!: set_takeWhileD)
  then have f: "filter (\<lambda>n. i \<le> height n) (before key ns) = filter (\<lambda>n. i \<le> height n) us"
    using before_split(1) [of us vs key] ns less by simp
  show ?thesis
  proof (cases "us = []")
    case True
    with pl f show ?thesis by (simp add: place_def spot_def)
  next
    case False
    then obtain ws n where "us = ws @ [n]" by (metis rev_exhaust)
    with pl f show ?thesis by (simp add: place_def spot_def Let_def)
  qed
qed

lemma skip_fuel_enough:
  assumes "skip_rep S ns"
  shows "length ns < stop S"
proof -
  have "set (header S # map adr ns) \<subseteq> {1..<stop S}" using assms by (force simp: skip_rep_def)
  then have "card (set (header S # map adr ns)) \<le> stop S - 1" using card_mono [of "{1..<stop S}"] by fastforce
  moreover have "card (set (header S # map adr ns)) = Suc (length ns)" using assms distinct_card [of "header S # map adr ns"] by (simp add: skip_rep_def)
  ultimately show ?thesis by simp
qed

lemma descend_spec:
  assumes rep: "skip_rep S ns" and "place S ns p k us vs" "i \<le> k" "\<forall>n \<in> set us. ikey n < key"
  shows "descend S i key p = Inr (map (spot S (before key ns)) [0..<Suc i])"
  using assms(2-)
proof (induction i arbitrary: p k us vs)
  case 0
  have "length vs < stop S" using skip_fuel_enough [OF rep] 0(1) by (simp add: place_def)
  from walk_level_spec [OF rep 0 this] spot_place [OF rep] show ?case by fastforce
next
  case (Suc i)
  have "length vs < stop S" using skip_fuel_enough [OF rep] Suc.prems(1) by (simp add: place_def)
  from walk_level_spec [OF rep Suc.prems this] obtain p' k' us' vs' where
    w: "walk_level (stop S) S (Suc i) key p = Inr p'" "place S ns p' k' us' vs'" "Suc i \<le> k'" "\<forall>n \<in> set us'. ikey n < key"
    "\<forall>n \<in> set vs'. Suc i \<le> height n \<longrightarrow> key \<le> ikey n" by blast
  have "p' = spot S (before key ns) (Suc i)" by (rule spot_place [OF rep w(2-5)])
  with w(1) Suc.IH [OF w(2) _ w(4)] w(3) show ?case by simp
qed

lemma descend_header:
  assumes "skip_rep S ns"
  shows "descend S (slevel S) key (header S) = Inr (map (spot S (before key ns)) [0..<Suc (slevel S)])"
  by (rule descend_spec [OF assms, of _ MAX_LEVEL "[]" ns]) (use assms in \<open>auto simp: place_def skip_rep_def\<close>)

text \<open>The place of a spot.\<close>

lemma place_spot:
  assumes rep: "skip_rep S ns" and i: "i \<le> MAX_LEVEL"
  shows "\<exists>k us vs. place S ns (spot S (before key ns) i) k us vs \<and> i \<le> k \<and> nxt i vs = nxt i (behind key ns)"
proof (cases "filter (\<lambda>n. i \<le> height n) (before key ns) = []")
  case Nil: True
  have "ns = before key ns @ behind key ns" by (simp add: before_def behind_def)
  then have "nxt i ns = nxt i (behind key ns)" using Nil by (metis filter_append nxt_def self_append_conv2)
  with Nil i show ?thesis by (intro exI [of _ MAX_LEVEL] exI [of _ "[]"] exI [of _ ns]) (simp add: place_def spot_def)
next
  case False
  then obtain us n ws where b: "before key ns = us @ n # ws" "i \<le> height n" "\<forall>m \<in> set ws. \<not> i \<le> height m"
    using split_list_last_prop [of "before key ns" "\<lambda>n. i \<le> height n"] by (auto simp: filter_empty_conv)
  then have f: "filter (\<lambda>n. i \<le> height n) ws = []" by (simp add: filter_empty_conv)
  have ns: "ns = (us @ [n]) @ ws @ behind key ns" using b(1) by (metis append.assoc append_Cons append_Nil before_def behind_def takeWhile_dropWhile_id)
  have "nxt i (ws @ behind key ns) = nxt i (behind key ns)" using f by (simp add: nxt_def)
  moreover have "spot S (before key ns) i = adr n" using b(1,2) f by (simp add: spot_def Let_def)
  ultimately show ?thesis
    using ns b(2) by (intro exI [of _ "height n"] exI [of _ "us @ [n]"] exI [of _ "ws @ behind key ns"]) (simp add: place_def)
qed

lemma nxt_0: "nxt 0 vs = (case vs of [] \<Rightarrow> 0 | n # _ \<Rightarrow> adr n)"
  by (simp add: nxt_def split: list.split)

section \<open>Searching\<close>

lemma found_iff:
  assumes "skip_rep S ns"
  shows "(case behind key ns of [] \<Rightarrow> None | n # _ \<Rightarrow> if ikey n = key then Some (ivalue n) else None) = map_of (map (\<lambda>n. (ikey n, ivalue n)) ns) key"
proof -
  have "sorted_wrt (<) (map ikey ns)" using assms by (simp add: skip_rep_def)
  then show ?thesis
  proof (induction ns)
    case (Cons n ns)
    show ?case
    proof (cases "ikey n < key")
      case True
      with Cons show ?thesis by (simp add: behind_def)
    next
      case False
      have "map_of (map (\<lambda>n. (ikey n, ivalue n)) ns) key = None" if "ikey n \<noteq> key"
        using that False Cons.prems by (auto simp: map_of_eq_None_iff)
      with False show ?thesis by (simp add: behind_def)
    qed
  qed (simp add: behind_def)
qed

lemma first_behind:
  assumes "skip_rep S ns"
  shows "get_forward S (map (spot S (before key ns)) [0..<Suc (slevel S)] ! 0) 0 = Inr (case behind key ns of [] \<Rightarrow> 0 | n # _ \<Rightarrow> adr n)"
    and "behind key ns = n # vs \<Longrightarrow> snodes S (adr n) = Some (node_of n vs) \<and> adr n \<noteq> 0"
proof -
  obtain k us ws where "place S ns (spot S (before key ns) 0) k us ws" "nxt 0 ws = nxt 0 (behind key ns)"
    using place_spot [OF assms, of 0 key] by auto
  then show "get_forward S (map (spot S (before key ns)) [0..<Suc (slevel S)] ! 0) 0 = Inr (case behind key ns of [] \<Rightarrow> 0 | n # _ \<Rightarrow> adr n)"
    using place_forward [OF assms] by (simp add: nxt_0 del: upt_Suc)
  assume "behind key ns = n # vs"
  then have "ns = before key ns @ n # vs" by (metis before_def behind_def takeWhile_dropWhile_id)
  moreover from this have "n \<in> set ns" by (metis in_set_conv_decomp)
  ultimately show "snodes S (adr n) = Some (node_of n vs) \<and> adr n \<noteq> 0" using assms by (auto simp: skip_rep_def nodes_rep_def)
qed

lemma skip_search_rep:
  assumes "skip_rep S ns"
  shows "skip_search S key = Inr (map_of (map (\<lambda>n. (ikey n, ivalue n)) ns) key)"
  unfolding skip_search_def descend_header [OF assms] found_iff [OF assms, symmetric]
  using first_behind [OF assms, of key]
  by (cases "behind key ns") (auto simp: snode_def node_of_def simp del: upt_Suc)

section \<open>Inserting\<close>

lemma random_from_max: "lev \<le> MAX_LEVEL \<Longrightarrow> random_from rnd lev \<le> MAX_LEVEL"
  by (induction rnd lev rule: random_from.induct) (subst random_from.simps, simp)

text \<open>The heap after the new node \<open>p\<close> of height \<open>l\<close> was linked on the levels below \<open>j\<close>.\<close>

definition linked :: "skip_list \<Rightarrow> item list \<Rightarrow> int \<Rightarrow> int \<Rightarrow> (nat \<Rightarrow> nat) \<Rightarrow> nat \<Rightarrow> nat \<Rightarrow> nat \<Rightarrow> nat \<Rightarrow> skip_node option" where
  "linked S ns key value junk p l j a =
     (if a = p then Some \<lparr>skey = key, svalue = value, forward = map (\<lambda>i. if i < j then nxt i (behind key ns) else junk i) [0..<Suc l]\<rparr>
      else map_option (\<lambda>n. n\<lparr>forward := map (\<lambda>i. if i < j \<and> spot S (before key ns) i = a then p else forward n ! i) [0..<length (forward n)]\<rparr>)
        (snodes S a))"

lemma map_upd_upt: "j < n \<Longrightarrow> (map f [0..<n])[j := x] = map (\<lambda>i. if i = j then x else f i) [0..<n]"
  by (rule nth_equalityI) (auto simp: nth_list_update)

lemma skip_linked_other:
  assumes "x \<noteq> spot S (before key ns) j" "x \<noteq> p"
  shows "linked S ns key value junk p l (Suc j) x = linked S ns key value junk p l j x"
proof -
  have "(i < Suc j \<and> spot S (before key ns) i = x) = (i < j \<and> spot S (before key ns) i = x)" for i
    using assms(1) by (auto simp: less_Suc_eq)
  with assms(2) show ?thesis by (simp add: linked_def)
qed

lemma link_levels_spec:
  assumes rep: "skip_rep S ns" and l: "l \<le> MAX_LEVEL" and p: "p = stop S"
    and u: "\<forall>i \<le> l. update ! i = spot S (before key ns) i" and j: "j \<le> Suc l"
    and T: "snodes T = linked S ns key value junk p l 0"
  shows "link_levels T update p j = Inr (T\<lparr>snodes := linked S ns key value junk p l j\<rparr>)"
  using j
proof (induction j)
  case 0
  show ?case using T by simp
next
  case (Suc j)
  let ?s = "spot S (before key ns) j" and ?h = "linked S ns key value junk p l"
  obtain k us vs where pl: "place S ns ?s k us vs" "j \<le> k" "nxt j vs = nxt j (behind key ns)"
    using place_spot [OF rep, of j key] Suc.prems l by auto
  obtain n where n: "snodes S ?s = Some n" "forward n = links k vs" using place_node [OF rep pl(1)] by blast
  have sp: "?s \<noteq> p" using pl(1) rep p by (auto simp: place_def skip_rep_def split: if_splits)
  have jl: "j < length (forward n)" "forward n ! j = nxt j (behind key ns)" using n(2) pl by simp_all
  let ?T = "T\<lparr>snodes := ?h j\<rparr>"
  have g: "get_forward ?T ?s j = Inr (nxt j (behind key ns))"
    using n(1) sp jl by (simp add: get_forward_def snode_def linked_def del: upt_Suc)
  have s1: "set_forward ?T p j (nxt j (behind key ns)) = Inr (?T\<lparr>snodes := (?h j)(p := ?h (Suc j) p)\<rparr>)"
    using Suc.prems by (auto simp: set_forward_def snode_def linked_def map_upd_upt less_Suc_eq fun_eq_iff simp del: upt_Suc)
  have s2: "set_forward (?T\<lparr>snodes := (?h j)(p := ?h (Suc j) p)\<rparr>) ?s j p = Inr (?T\<lparr>snodes := (?h j)(p := ?h (Suc j) p, ?s := ?h (Suc j) ?s)\<rparr>)"
    using n(1) sp jl by (auto simp: set_forward_def snode_def linked_def map_upd_upt less_Suc_eq fun_eq_iff simp del: upt_Suc)
  have "(?h j)(p := ?h (Suc j) p, ?s := ?h (Suc j) ?s) = ?h (Suc j)"
    using skip_linked_other [of _ S key ns j p] by (auto simp: fun_eq_iff)
  with Suc u g s1 s2 show ?case by simp
qed

lemma before_behind: "before key ns @ behind key ns = ns"
  by (simp add: before_def behind_def)

lemma nodes_rep_insert:
  assumes "\<And>us n ws. xs = us @ n # ws \<Longrightarrow> h (adr n) = Some (node_of n (ws @ N # vs))" "h (adr N) = Some (node_of N vs)" "nodes_rep h vs"
  shows "nodes_rep h (xs @ N # vs)"
  unfolding nodes_rep_def
proof (intro allI impI)
  fix us n ws
  assume "xs @ N # vs = us @ n # ws"
  then consider zs where "xs = us @ n # zs" "ws = zs @ N # vs" | "n = N" "ws = vs" | zs where "vs = zs @ n # ws"
    by (auto simp: append_eq_append_conv2 append_eq_Cons_conv Cons_eq_append_conv)
  then show "h (adr n) = Some (node_of n ws)" by cases (use assms in \<open>auto simp: nodes_rep_def\<close>)
qed

lemma nxt_insert:
  "nxt i (ws @ N # vs) = (if i \<le> height N \<and> filter (\<lambda>n. i \<le> height n) ws = [] then adr N else nxt i (ws @ vs))"
  by (cases "filter (\<lambda>n. i \<le> height n) ws") (simp_all add: nxt_def)

lemma spot_in: "spot S us i \<in> set (header S # map adr us)"
proof (cases "filter (\<lambda>n. i \<le> height n) us = []")
  case False
  from last_in_set [OF False] show ?thesis by (auto simp: spot_def Let_def)
qed (simp add: spot_def)

lemma spot_iff:
  assumes "skip_rep S ns" "place S ns a k us (ws @ behind key ns)" "i \<le> k"
  shows "spot S (before key ns) i = a \<longleftrightarrow> filter (\<lambda>n. i \<le> height n) ws = []"
proof -
  have ns: "ns = (us @ ws) @ behind key ns" using assms(2) by (simp add: place_def)
  then have b: "before key ns = us @ ws" by (metis append_same_eq before_behind)
  have d: "distinct (header S # map adr (us @ ws))" using assms(1) ns by (metis distinct.simps(2) distinct_append map_append set_append Un_iff skip_rep_def)
  show ?thesis
  proof (cases "filter (\<lambda>n. i \<le> height n) ws = []")
    case True
    show ?thesis
    proof (cases us rule: rev_cases)
      case Nil
      with True b assms(2) show ?thesis by (simp add: place_def spot_def)
    next
      case (snoc xs n)
      with True b assms(2,3) show ?thesis by (simp add: place_def spot_def Let_def)
    qed
  next
    case False
    have "spot S (before key ns) i \<in> adr ` set ws" using last_in_set [OF False] False b by (auto simp: spot_def Let_def)
    moreover have "a \<notin> adr ` set ws" using d assms(2) by (cases us rule: rev_cases) (auto simp: place_def)
    ultimately show ?thesis using False by auto
  qed
qed

text \<open>What the linked heap holds for the nodes before the new one, for the new one and for those behind it.\<close>

lemma linked_before:
  assumes rep: "skip_rep S ns" and pl: "place S ns a k us (ws @ behind key ns)" and n: "snodes S a = Some n"
    and N: "adr N = stop S" "height N = l"
  shows "linked S ns key value junk (stop S) l (Suc l) a = Some (n\<lparr>forward := links k (ws @ N # behind key ns)\<rparr>)"
proof -
  have f: "forward n = links k (ws @ behind key ns)" using place_node [OF rep pl] n by auto
  have a: "a \<noteq> stop S" using place_in [OF pl] rep by (auto simp: skip_rep_def)
  have "(if i < Suc l \<and> spot S (before key ns) i = a then stop S else forward n ! i) = nxt i (ws @ N # behind key ns)" if "i < k + 1" for i
    using that spot_iff [OF rep pl, of i] f N by (simp add: nxt_insert less_Suc_eq_le)
  then have "map (\<lambda>i. if i < Suc l \<and> spot S (before key ns) i = a then stop S else forward n ! i) [0..<length (forward n)] = links k (ws @ N # behind key ns)"
    by (simp add: f links_def del: upt_Suc)
  with a n show ?thesis by (simp add: linked_def)
qed

lemma linked_new:
  "linked S ns key value junk p l (Suc l) p = Some \<lparr>skey = key, svalue = value, forward = links l (behind key ns)\<rparr>"
  by (simp add: linked_def links_def del: upt_Suc)

lemma linked_behind:
  assumes "a \<noteq> p" "a \<notin> set (header S # map adr (before key ns))"
  shows "linked S ns key value junk p l j a = snodes S a"
proof -
  have "spot S (before key ns) i \<noteq> a" for i using spot_in [of S "before key ns" i] assms(2) by metis
  then have "map_option (\<lambda>n. n\<lparr>forward := map (\<lambda>i. if i < j \<and> spot S (before key ns) i = a then p else forward n ! i) [0..<length (forward n)]\<rparr>) (snodes S a) = snodes S a"
    by (cases "snodes S a") (simp_all add: map_nth)
  with assms(1) show ?thesis by (simp add: linked_def)
qed

lemma linked_rep:
  assumes rep: "skip_rep S ns" and l: "l \<le> MAX_LEVEL" and new: "key \<notin> set (map ikey ns)" and N: "N = \<lparr>adr = stop S, height = l, ikey = key, ivalue = value\<rparr>"
    and T: "slevel T = max l (slevel S)" "header T = header S" "stop T = Suc (stop S)" "snodes T = linked S ns key value junk (stop S) l (Suc l)"
  shows "skip_rep T (before key ns @ N # behind key ns)"
proof -
  have ns: "before key ns @ behind key ns = ns" by (rule before_behind)
  have r: "distinct (header S # map adr (before key ns @ behind key ns))" "\<forall>p \<in> set (header S # map adr (before key ns @ behind key ns)). 0 < p \<and> p < stop S"
    "sorted_wrt (<) (map ikey (before key ns @ behind key ns))" "\<forall>n \<in> set (before key ns @ behind key ns). height n \<le> slevel S" "slevel S \<le> MAX_LEVEL"
    "snodes S (header S) = Some \<lparr>skey = -1, svalue = -1, forward = links MAX_LEVEL ns\<rparr>" "nodes_rep (snodes S) ns"
    using rep unfolding ns by (auto simp: skip_rep_def)
  have h: "snodes T (header T) = Some \<lparr>skey = -1, svalue = -1, forward = links MAX_LEVEL (before key ns @ N # behind key ns)\<rparr>"
    using linked_before [OF rep _ r(6), of MAX_LEVEL "[]" "before key ns" key N l] T N ns by (simp add: place_def)
  have nodes: "nodes_rep (snodes T) (before key ns @ N # behind key ns)"
  proof (rule nodes_rep_insert)
    fix us n ws
    assume b: "before key ns = us @ n # ws"
    then have e: "ns = us @ n # ws @ behind key ns" using ns by simp
    then have "snodes S (adr n) = Some (node_of n (ws @ behind key ns))" using r(7) by (auto simp: nodes_rep_def)
    from linked_before [OF rep _ this, of "height n" "us @ [n]" ws key N l] T N e
    show "snodes T (adr n) = Some (node_of n (ws @ N # behind key ns))" by (simp add: place_def node_of_def)
  next
    show "snodes T (adr N) = Some (node_of N (behind key ns))" using T N by (simp add: linked_new node_of_def)
  next
    have "set (header S # map adr (before key ns)) \<inter> set (map adr (behind key ns)) = {}" using r(1) by simp
    moreover have "\<forall>p \<in> set (map adr (behind key ns)). p \<noteq> stop S" using r(2) by (auto simp: ball_Un)
    ultimately have "adr n \<noteq> stop S" "adr n \<notin> set (header S # map adr (before key ns))" if "n \<in> set (behind key ns)" for n
      using that by (simp, metis IntI empty_iff imageI set_map)
    then have "snodes T (adr n) = snodes S (adr n)" if "n \<in> set (behind key ns)" for n
      unfolding T using that linked_behind by blast
    moreover have "nodes_rep (snodes S) (behind key ns)" using r(7) unfolding nodes_rep_def by (metis append.assoc ns)
    ultimately show "nodes_rep (snodes T) (behind key ns)" by (auto simp: nodes_rep_def)
  qed
  have k: "\<forall>n \<in> set (before key ns). ikey n < key" by (auto simp: before_def dest: set_takeWhileD)
  have "\<forall>n \<in> set (behind key ns). key < ikey n"
  proof (cases "behind key ns")
    case (Cons m ms)
    have "\<not> ikey m < key" using Cons by (metis behind_def dropWhile_eq_Cons_conv)
    moreover have "ikey m \<noteq> key" using new Cons ns by (metis imageI in_set_conv_decomp set_map)
    ultimately show ?thesis using Cons r(3) by (auto simp: sorted_wrt_append)
  qed simp
  with k r(3) N have "sorted_wrt (<) (map ikey (before key ns @ N # behind key ns))" by (auto simp: sorted_wrt_append)
  with h nodes r(1,2,4,5) l show ?thesis unfolding skip_rep_def T N by (auto simp: less_Suc_eq ball_Un le_max_iff_disj)
qed

lemma update_spots:
  assumes "skip_rep S ns" "i \<le> lev"
  shows "(map (spot S (before key ns)) [0..<Suc (slevel S)] @ replicate (lev - slevel S) (header S)) ! i = spot S (before key ns) i"
proof (cases "i \<le> slevel S")
  case False
  have "\<forall>n \<in> set (before key ns). \<not> i \<le> height n" using assms(1) False by (auto simp: skip_rep_def before_def dest!: set_takeWhileD)
  then have "spot S (before key ns) i = header S" by (simp add: spot_def filter_empty_conv)
  with False assms(2) show ?thesis by (simp add: nth_append del: upt_Suc)
qed (simp add: nth_append del: upt_Suc)

lemma present_iff:
  assumes "skip_rep S ns"
  shows "(case behind key ns of [] \<Rightarrow> False | n # _ \<Rightarrow> ikey n = key) \<longleftrightarrow> key \<in> set (map ikey ns)"
proof -
  have "(case behind key ns of [] \<Rightarrow> False | n # _ \<Rightarrow> ikey n = key) \<longleftrightarrow> map_of (map (\<lambda>n. (ikey n, ivalue n)) ns) key \<noteq> None"
    by (simp add: found_iff [OF assms, symmetric] split: list.split)
  also have "\<dots> \<longleftrightarrow> key \<in> set (map ikey ns)" unfolding map_of_eq_None_iff by (simp add: image_image)
  finally show ?thesis .
qed

lemma skip_insert_rep:
  assumes rep: "skip_rep S ns"
  shows "key \<in> set (map ikey ns) \<Longrightarrow> skip_insert ok junk rnd S key value = Inr (S, False)"
    and "key \<notin> set (map ikey ns) \<Longrightarrow> \<exists>T. skip_insert True junk rnd S key value = Inr (T, True)
      \<and> skip_rep T (before key ns @ \<lparr>adr = stop S, height = randomLevel rnd, ikey = key, ivalue = value\<rparr> # behind key ns)"
proof -
  let ?u = "map (spot S (before key ns)) [0..<Suc (slevel S)]"
  note d = descend_header [OF rep, of key]
  obtain current where c: "get_forward S (?u ! 0) 0 = Inr current"
    "(if current = 0 then Inr False else andthen (snode S current) (\<lambda>n. Inr (skey n = key))) = Inr (key \<in> set (map ikey ns))"
    using first_behind [OF rep, of key] present_iff [OF rep, of key]
    by (cases "behind key ns") (auto simp: snode_def node_of_def simp del: upt_Suc)
  show "key \<in> set (map ikey ns) \<Longrightarrow> skip_insert ok junk rnd S key value = Inr (S, False)"
    using c by (simp add: skip_insert_def d del: upt_Suc)
  assume new: "key \<notin> set (map ikey ns)"
  define l where "l = randomLevel rnd"
  have l: "l \<le> MAX_LEVEL" by (simp add: l_def randomLevel_def random_from_max)
  let ?S = "\<lparr>slevel = max l (slevel S), header = header S, snodes = linked S ns key value junk (stop S) l 0, stop = Suc (stop S)\<rparr>"
  have n: "createNode True junk (if l > slevel S then S\<lparr>slevel := l\<rparr> else S) l key value = Inr (?S, stop S)"
    by (auto simp: createNode_def linked_def fun_eq_iff map_nth option.map_ident simp del: upt_Suc)
  have "link_levels ?S (?u @ replicate (l - slevel S) (header S)) (stop S) (Suc l) = Inr (?S\<lparr>snodes := linked S ns key value junk (stop S) l (Suc l)\<rparr>)"
    by (rule link_levels_spec [OF rep l refl]) (use update_spots [OF rep] in auto)
  moreover have "skip_rep (?S\<lparr>snodes := linked S ns key value junk (stop S) l (Suc l)\<rparr>) (before key ns @ \<lparr>adr = stop S, height = l, ikey = key, ivalue = value\<rparr> # behind key ns)"
    by (rule linked_rep [OF rep l new refl]) simp_all
  ultimately show "\<exists>T. skip_insert True junk rnd S key value = Inr (T, True)
      \<and> skip_rep T (before key ns @ \<lparr>adr = stop S, height = randomLevel rnd, ikey = key, ivalue = value\<rparr> # behind key ns)"
    using c new n by (simp add: skip_insert_def d Let_def l_def [symmetric] del: upt_Suc link_levels.simps)
qed

section \<open>Creating\<close>

lemma createSkipList_rep: "\<exists>S. createSkipList True junk = Inr S \<and> skip_rep S []"
proof -
  have l: "links MAX_LEVEL [] = replicate 7 0" by (simp add: links_def nxt_def MAX_LEVEL_def map_replicate_const del: upt_Suc)
  show ?thesis
    unfolding skip_rep_def l
    by (simp add: createSkipList_def createNode_def MAX_LEVEL_def set_forward_def snode_def nodes_rep_def numeral_nat)
qed

section \<open>Printing\<close>

lemma display_level_spec:
  assumes rep: "skip_rep S ns" and "ns = us @ vs" "length vs < fuel"
  shows "display_level fuel S i (nxt i vs) = Inr (map ikey (filter (\<lambda>n. i \<le> height n) vs))"
  using assms(2-)
proof (induction fuel arbitrary: us vs)
  case (Suc fuel)
  show ?case
  proof (cases rule: nxt_cases [of i vs])
    case none
    then show ?thesis by (simp add: filter_empty_conv not_le)
  next
    case (some ws n xs)
    have ns: "ns = (us @ ws @ [n]) @ xs" using Suc.prems(1) some(1) by simp
    have nd: "snodes S (adr n) = Some (node_of n xs)" "adr n \<noteq> 0" using rep ns by (auto simp: skip_rep_def nodes_rep_def)
    have "get_forward S (adr n) i = Inr (nxt i xs)" using nd some(3) by (simp add: get_forward_def snode_def node_of_def)
    moreover have "filter (\<lambda>n. i \<le> height n) ws = []" using some(2) by (simp add: filter_empty_conv not_le)
    ultimately show ?thesis using Suc.IH [OF ns] Suc.prems(2) some nd by (simp add: snode_def node_of_def)
  qed
qed simp

lemma collect_all: "(\<And>x. x \<in> set xs \<Longrightarrow> f x = Inr (g x)) \<Longrightarrow> collect (map f xs) = Inr (map g xs)"
  by (induction xs) simp_all

lemma display_rep:
  assumes "skip_rep S ns"
  shows "display S = Inr (map (\<lambda>i. map ikey (filter (\<lambda>n. i \<le> height n) ns)) [0..<slevel S + 1])"
  unfolding display_def
proof (rule collect_all)
  fix i
  assume "i \<in> set [0..<slevel S + 1]"
  with assms have "i \<le> MAX_LEVEL" by (auto simp: skip_rep_def)
  then have "get_forward S (header S) i = Inr (nxt i ns)" using assms by (simp add: place_forward [OF assms, of _ MAX_LEVEL "[]"] place_def)
  then show "andthen (get_forward S (header S) i) (display_level (stop S) S i) = Inr (map ikey (filter (\<lambda>n. i \<le> height n) ns))"
    using display_level_spec [OF assms, of "[]"] skip_fuel_enough [OF assms] by simp
qed

section \<open>Sessions\<close>

text \<open>
  The contract: an insertion adds a key that is not there, and says so; a search finds what the first insertion of a key gave; the lowest
  level that is printed has all keys in order, and every level above is a subsequence of the ones below.
\<close>

fun skip_answers :: "(int \<rightharpoonup> int) \<Rightarrow> skip_call list \<Rightarrow> skip_result list \<Rightarrow> bool" where
  "skip_answers m [] [] \<longleftrightarrow> True"
| "skip_answers m (Insert key value # cs) (Inserted b # rs) \<longleftrightarrow> b = (m key = None) \<and> skip_answers (if b then m(key \<mapsto> value) else m) cs rs"
| "skip_answers m (Search key # cs) (Found r # rs) \<longleftrightarrow> r = m key \<and> skip_answers m cs rs"
| "skip_answers m (Display # cs) (Shown ls # rs) \<longleftrightarrow> ls \<noteq> [] \<and> hd ls = sorted_list_of_set (dom m) \<and> sorted_wrt (\<lambda>as bs. subseq bs as) ls
     \<and> length ls \<le> MAX_LEVEL + 1 \<and> skip_answers m cs rs"
| "skip_answers _ _ _ \<longleftrightarrow> False"

definition skip_map :: "item list \<Rightarrow> int \<rightharpoonup> int" where
  "skip_map ns = map_of (map (\<lambda>n. (ikey n, ivalue n)) ns)"

lemma skip_map_dom: "dom (skip_map ns) = set (map ikey ns)"
  by (simp add: skip_map_def dom_map_of_conv_image_fst image_image)

lemma skip_map_None: "skip_map ns key = None \<longleftrightarrow> key \<notin> set (map ikey ns)"
  using skip_map_dom [of ns] by blast

lemma skip_map_insert:
  assumes "key \<notin> set (map ikey ns)" "ikey N = key"
  shows "skip_map (before key ns @ N # behind key ns) = (skip_map ns)(key \<mapsto> ivalue N)"
proof -
  have "key \<notin> dom (skip_map (before key ns))" using assms(1) by (auto simp: skip_map_dom before_def dest: set_takeWhileD)
  moreover have "skip_map ns = skip_map (behind key ns) ++ skip_map (before key ns)"
    by (metis before_behind map_append map_of_append skip_map_def)
  ultimately show ?thesis using assms(2) by (simp add: skip_map_def map_add_upd_left)
qed

lemma levels_subseq: "sorted_wrt (\<lambda>as bs. subseq bs as) (map (\<lambda>i. map ikey (filter (\<lambda>n. i \<le> height n) ns)) [0..<k])"
proof -
  have "filter (\<lambda>n. j \<le> height n) ns = filter (\<lambda>n. j \<le> height n) (filter (\<lambda>n. i \<le> height n) ns)" if "i < j" for i j
    using that by (auto intro: filter_cong)
  then have "subseq (map ikey (filter (\<lambda>n. j \<le> height n) ns)) (map ikey (filter (\<lambda>n. i \<le> height n) ns))" if "i < j" for i j
    using that by (metis subseq_filter_left subseq_map)
  then show ?thesis by (simp add: sorted_wrt_map sorted_wrt_iff_nth_less)
qed

lemma display_answer:
  assumes "skip_rep S ns" "display S = Inr ls"
  shows "ls \<noteq> [] \<and> hd ls = sorted_list_of_set (dom (skip_map ns)) \<and> sorted_wrt (\<lambda>as bs. subseq bs as) ls \<and> length ls \<le> MAX_LEVEL + 1"
proof -
  have ls: "ls = map (\<lambda>i. map ikey (filter (\<lambda>n. i \<le> height n) ns)) [0..<slevel S + 1]" using assms display_rep by simp
  have "sorted_wrt (<) (map ikey ns)" using assms(1) by (simp add: skip_rep_def)
  then have "sorted_list_of_set (dom (skip_map ns)) = map ikey ns"
    unfolding skip_map_dom by (intro sorted_list_of_set.idem_if_sorted_distinct) (simp_all add: strict_sorted_iff)
  moreover have "hd ls = map ikey ns" unfolding ls by (simp add: hd_map upt_conv_Cons del: upt_Suc)
  ultimately show ?thesis using levels_subseq [of ns "slevel S + 1"] assms(1) ls by (simp add: skip_rep_def)
qed

lemma skip_session_rep:
  assumes "skip_rep S ns"
  shows "\<exists>T rs. skip_session junk rnds S cs = Inr (T, rs) \<and> skip_answers (skip_map ns) cs rs"
  using assms
proof (induction cs arbitrary: S ns rnds)
  case (Cons c cs)
  show ?case
  proof (cases c)
    case (Insert key v)
    show ?thesis
    proof (cases "key \<in> set (map ikey ns)")
      case True
      with Insert skip_insert_rep(1) [OF Cons.prems True] Cons.IH [OF Cons.prems, of "\<lambda>i. rnds (Suc i)"] show ?thesis
        by (fastforce simp: skip_call_def skip_map_None)
    next
      case False
      from skip_insert_rep(2) [OF Cons.prems False] obtain T N where
        T: "skip_insert True junk (rnds 0) S key v = Inr (T, True)" "skip_rep T (before key ns @ N # behind key ns)" "ikey N = key" "ivalue N = v"
        by fastforce
      have m: "skip_map (before key ns @ N # behind key ns) = (skip_map ns)(key \<mapsto> v)" using skip_map_insert [OF False T(3)] T(4) by simp
      from Cons.IH [OF T(2), of "\<lambda>i. rnds (Suc i)"] obtain U rs where
        "skip_session junk (\<lambda>i. rnds (Suc i)) T cs = Inr (U, rs)" "skip_answers ((skip_map ns)(key \<mapsto> v)) cs rs" unfolding m by blast
      then show ?thesis
        using T(1) Insert False by (intro exI [of _ U] exI [of _ "Inserted True # rs"]) (simp add: skip_call_def skip_map_None)
    qed
  next
    case (Search key)
    with skip_search_rep [OF Cons.prems, of key] Cons.IH [OF Cons.prems, of "\<lambda>i. rnds (Suc i)"] show ?thesis
      by (fastforce simp: skip_call_def skip_map_def)
  next
    case Display
    obtain ls where "display S = Inr ls" using display_rep [OF Cons.prems] by blast
    with Display display_answer [OF Cons.prems] Cons.IH [OF Cons.prems, of "\<lambda>i. rnds (Suc i)"] show ?thesis
      by (fastforce simp: skip_call_def)
  qed
qed simp

text \<open>What \<^verbatim>\<open>main\<close> prints, but for the upper levels, does not depend on \<^verbatim>\<open>rand\<close>.\<close>

lemma skip_answers_split:
  "skip_answers m (Insert key v # cs) rs \<longleftrightarrow> (\<exists>rs'. rs = Inserted (m key = None) # rs' \<and> skip_answers (if m key = None then m(key \<mapsto> v) else m) cs rs')"
  "skip_answers m (Search key # cs) rs \<longleftrightarrow> (\<exists>rs'. rs = Found (m key) # rs' \<and> skip_answers m cs rs')"
  "skip_answers m (Display # cs) rs \<Longrightarrow> \<exists>ls rs'. rs = Shown ls # rs' \<and> hd ls = sorted_list_of_set (dom m) \<and> skip_answers m cs rs'"
  "skip_answers m [] rs \<longleftrightarrow> rs = []"
  by (cases rs; cases "hd rs"; auto)+

lemma skip_main_answers:
  "\<exists>S ls. skip_main junk rnds = Inr (S, [Inserted True, Inserted True, Inserted True, Inserted True, Shown ls, Found (Some 30), Found None]) \<and> hd ls = [2, 3, 4, 6]"
proof -
  obtain S where S: "createSkipList True junk = Inr S" "skip_rep S []" using createSkipList_rep by blast
  from skip_session_rep [OF S(2), of junk rnds "[Insert 3 30, Insert 6 60, Insert 2 20, Insert 4 40, Display, Search 3, Search 7]"] S(1)
  obtain T rs where r: "skip_main junk rnds = Inr (T, rs)"
    "skip_answers Map.empty [Insert 3 30, Insert 6 60, Insert 2 20, Insert 4 40, Display, Search 3, Search 7] rs"
    by (auto simp: skip_main_def skip_map_def)
  have "sorted_list_of_set {4, 2, 6, 3 :: int} = [2, 3, 4, 6]" by simp
  with r show ?thesis by (auto simp: skip_answers_split(1,2,4) dest!: skip_answers_split(3))
qed

text \<open>
  C13: Skip list. As long as memory can be allocated, and whatever \<^verbatim>\<open>rand\<close> gives and fresh memory holds, every sequence of insertions, searches and printings on a list that
  \<^verbatim>\<open>createSkipList\<close> made ends without a fault, the walks along the levels included, and answers as a finite map: an insertion adds
  a key that is not there and leaves the value of one that is; a search gives the value; the lowest printed level has all keys in increasing
  order and each level is a subsequence of those below.
\<close>

theorem skip_list_sessions:
  "\<exists>S rs. andthen (createSkipList True junk) (\<lambda>S. skip_session junk rnds S cs) = Inr (S, rs) \<and> skip_answers Map.empty cs rs"
proof -
  obtain S where S: "createSkipList True junk = Inr S" "skip_rep S []" using createSkipList_rep by blast
  from skip_session_rep [OF S(2), of junk rnds cs] S(1) show ?thesis by (simp add: skip_map_def)
qed

end
