(* ===== verification/Reactor.thy ===== *)
theory Reactor
  imports Kvs_Protocol_Props
begin

text \<open>
  The event loop in front of the protocol, \<^verbatim>\<open>src/12_1/reactor.c\<close> and \<^verbatim>\<open>server.h\<close>: a table of
  connections indexed by descriptor, the callbacks of each, and the interest the process has registered with
  epoll. The handler is an argument, as in the code, and so are the results of the system calls. What is
  received and sent is recorded in a log, which is not part of the program.
\<close>

section \<open>State\<close>

datatype callback = NullCB | Accept_CB | Recv_CB | Send_CB

record conn =
  cfd :: int
  rbuffer :: string
  rlength :: int
  wbuffer :: string
  wlength :: int
  send_callback :: callback
  recv_callback :: callback

definition CONNECTION_SIZE :: nat where
  "CONNECTION_SIZE = 1024"

datatype interest = EPOLLIN | EPOLLOUT

text \<open>A request handed to the handler with its answer, and what was sent.\<close>

datatype log_entry = Handled int string int string | Sent int string

record 's reactor =
  conn_list :: "conn list"
  epoll :: "int \<Rightarrow> interest option"
  kv :: 's
  trace :: "log_entry list"

text \<open>The message handler: store, request, its length; the new store, the text it leaves in the response buffer and the value it returns.\<close>

type_synonym 's msg_handler = "'s \<Rightarrow> string \<Rightarrow> int \<Rightarrow> ('s \<times> string \<times> int) res"

definition NUL :: char where
  "NUL = CHR 0x00"

definition conn_at :: "'s reactor \<Rightarrow> int \<Rightarrow> conn res" where
  "conn_at R fd = (if 0 \<le> fd \<and> nat fd < length (conn_list R) then Inr (conn_list R ! nat fd) else Inl OutOfBounds)"

definition put_conn :: "'s reactor \<Rightarrow> int \<Rightarrow> conn \<Rightarrow> 's reactor" where
  "put_conn R fd c = R\<lparr>conn_list := (conn_list R)[nat fd := c]\<rparr>"

text \<open>The bytes of a buffer after \<^verbatim>\<open>memset(., 0, .)\<close> and after a write at its start.\<close>

definition zeroed :: string where
  "zeroed = replicate BUFFER_LENGTH NUL"

definition overlay :: "string \<Rightarrow> string \<Rightarrow> string" where
  "overlay s buf = s @ drop (length s) buf"

text \<open>A buffer as a C string.\<close>

definition c_text :: "string \<Rightarrow> string" where
  "c_text buf = takeWhile (\<lambda>c. c \<noteq> NUL) buf"

section \<open>Callbacks\<close>

text \<open>
  \<^verbatim>\<open>EPOLL_CTL_ADD\<close> fails for a descriptor that is registered, \<^verbatim>\<open>EPOLL_CTL_MOD\<close> for one that is not; the
  code ignores both failures.
\<close>

definition set_event :: "'s reactor \<Rightarrow> int \<Rightarrow> interest \<Rightarrow> bool \<Rightarrow> 's reactor" where
  "set_event R fd ev flag =
     (if flag then if epoll R fd = None then R\<lparr>epoll := (epoll R)(fd \<mapsto> ev)\<rparr> else R
      else if epoll R fd = None then R else R\<lparr>epoll := (epoll R)(fd \<mapsto> ev)\<rparr>)"

definition event_register :: "'s reactor \<Rightarrow> int \<Rightarrow> interest \<Rightarrow> 's reactor res" where
  "event_register R fd ev =
     (if fd < 0 then Inr R
      else andthen (conn_at R fd) (\<lambda>c.
        Inr (set_event (put_conn R fd (c\<lparr>cfd := fd, recv_callback := Recv_CB, send_callback := Send_CB,
               rbuffer := zeroed, rlength := 0, wbuffer := zeroed, wlength := 0\<rparr>)) fd ev True)))"

text \<open>\<open>clientfd\<close> is what \<^verbatim>\<open>accept\<close> returned.\<close>

definition accept_cb :: "'s reactor \<Rightarrow> int \<Rightarrow> int \<Rightarrow> ('s reactor \<times> int) res" where
  "accept_cb R fd clientfd =
     (if clientfd < 0 then Inr (R, -1)
      else andthen (event_register R clientfd EPOLLIN) (\<lambda>R. Inr (R, 0)))"

definition kvs_request :: "'s msg_handler \<Rightarrow> 's reactor \<Rightarrow> int \<Rightarrow> 's reactor res" where
  "kvs_request h R fd =
     andthen (conn_at R fd) (\<lambda>c.
     andthen (h (kv R) (c_text (rbuffer c)) (rlength c)) (\<lambda>(s, resp, ret).
       Inr ((put_conn R fd (c\<lparr>wlength := ret,
               wbuffer := (if ret < 0 then wbuffer c else overlay (resp @ [NUL]) (wbuffer c))\<rparr>))
             \<lparr>kv := s, trace := trace R @ [Handled fd (c_text (rbuffer c)) (rlength c) resp]\<rparr>)))"

text \<open>Closing a descriptor removes it from the interest list; the \<^verbatim>\<open>EPOLL_CTL_DEL\<close> that follows finds nothing to remove.\<close>

definition close_conn :: "'s reactor \<Rightarrow> int \<Rightarrow> 's reactor" where
  "close_conn R fd = R\<lparr>epoll := (epoll R)(fd := None)\<rparr>"

text \<open>\<open>data\<close> is what \<^verbatim>\<open>recv\<close> delivered, \<open>None\<close> if it failed; it delivers at most as much as the buffer takes.\<close>

definition recv_cb :: "'s msg_handler \<Rightarrow> 's reactor \<Rightarrow> int \<Rightarrow> string option \<Rightarrow> ('s reactor \<times> int) res" where
  "recv_cb h R fd data =
     andthen (conn_at R fd) (\<lambda>c.
       case data of
         None \<Rightarrow> Inr (close_conn (put_conn R fd (c\<lparr>rbuffer := zeroed\<rparr>)) fd, 0)
       | Some bs \<Rightarrow>
           if bs = [] then Inr (close_conn (put_conn R fd (c\<lparr>rbuffer := zeroed\<rparr>)) fd, 0)
           else let R1 = put_conn R fd (c\<lparr>rbuffer := overlay bs zeroed, rlength := int (length bs)\<rparr>)
             in andthen (kvs_request h R1 fd) (\<lambda>R.
                  Inr (set_event R fd EPOLLOUT False, int (length bs))))"

text \<open>\<^verbatim>\<open>send\<close> reads \<open>wlength\<close> bytes of the buffer as an unsigned count; \<open>n\<close> is how many it took.\<close>

definition send_cb :: "'s reactor \<Rightarrow> int \<Rightarrow> nat \<Rightarrow> ('s reactor \<times> int) res" where
  "send_cb R fd n =
     andthen (conn_at R fd) (\<lambda>c.
       andthen (if wlength c = 0 then Inr (R, 0)
                else if wlength c < 0 \<or> int (length (wbuffer c)) < wlength c then Inl OutOfBounds
                else let out = take n (take (nat (wlength c)) (wbuffer c))
                  in Inr (R\<lparr>trace := trace R @ [Sent fd out]\<rparr>, int (length out))) (\<lambda>(R, sent).
       Inr (set_event R fd EPOLLIN False, sent)))"

section \<open>The main loop\<close>

text \<open>One ready descriptor: the events reported for it and the results of the system calls its callbacks make.\<close>

record ready =
  ev_fd :: int
  ev_in :: bool
  ev_out :: bool
  sys_accept :: int
  sys_recv :: "string option"
  sys_send :: nat

definition call_recv :: "'s msg_handler \<Rightarrow> 's reactor \<Rightarrow> ready \<Rightarrow> 's reactor res" where
  "call_recv h R e =
     andthen (conn_at R (ev_fd e)) (\<lambda>c.
       case recv_callback c of
         Accept_CB \<Rightarrow> andthen (accept_cb R (ev_fd e) (sys_accept e)) (\<lambda>(R, _). Inr R)
       | Recv_CB \<Rightarrow> andthen (recv_cb h R (ev_fd e) (sys_recv e)) (\<lambda>(R, _). Inr R)
       | _ \<Rightarrow> Inl Segv)"

definition call_send :: "'s reactor \<Rightarrow> ready \<Rightarrow> 's reactor res" where
  "call_send R e =
     andthen (conn_at R (ev_fd e)) (\<lambda>c.
       case send_callback c of
         Send_CB \<Rightarrow> andthen (send_cb R (ev_fd e) (sys_send e)) (\<lambda>(R, _). Inr R)
       | _ \<Rightarrow> Inl Segv)"

definition handle_ready :: "'s msg_handler \<Rightarrow> 's reactor \<Rightarrow> ready \<Rightarrow> 's reactor res" where
  "handle_ready h R e =
     andthen (if ev_in e then call_recv h R e else Inr R) (\<lambda>R.
     if ev_out e then call_send R e else Inr R)"

fun mainloop :: "'s msg_handler \<Rightarrow> 's reactor \<Rightarrow> ready list \<Rightarrow> 's reactor res" where
  "mainloop h R [] = Inr R"
| "mainloop h R (e # es) = andthen (handle_ready h R e) (\<lambda>R. mainloop h R es)"

definition empty_conn :: conn where
  "empty_conn = \<lparr>cfd = 0, rbuffer = zeroed, rlength = 0, wbuffer = zeroed, wlength = 0,
     send_callback = NullCB, recv_callback = NullCB\<rparr>"

text \<open>The state in which the loop starts: the listening socket has only the accept callback.\<close>

definition reactor_start :: "'s \<Rightarrow> int \<Rightarrow> 's reactor res" where
  "reactor_start s sockfd =
     (let R = \<lparr>conn_list = replicate CONNECTION_SIZE empty_conn, epoll = Map.empty, kv = s, trace = []\<rparr>
      in andthen (conn_at R sockfd) (\<lambda>c.
         Inr (set_event (put_conn R sockfd (c\<lparr>cfd := sockfd, recv_callback := Accept_CB\<rparr>)) sockfd EPOLLIN True)))"

section \<open>The contract of a handler\<close>

text \<open>
  What the loop relies on: the value a handler returns is negative, or the length of the non-empty text it left in the
  response buffer, which it did not overrun.
\<close>

locale handler =
  fixes h :: "'s msg_handler"
  assumes answer: "h s msg len = Inr (s', resp, ret) \<Longrightarrow>
    ret < 0 \<or> ret = int (length resp) \<and> resp \<noteq> [] \<and> length resp < BUFFER_LENGTH"

text \<open>The store after the handled requests, replayed in the order of the log; \<open>None\<close> if an answer differs.\<close>

fun exec_log :: "'s msg_handler \<Rightarrow> 's \<Rightarrow> log_entry list \<Rightarrow> 's option" where
  "exec_log h s [] = Some s"
| "exec_log h s (Handled fd msg len resp # l) =
     (case h s msg len of Inr (s', resp', ret) \<Rightarrow> if resp' = resp then exec_log h s' l else None | Inl _ \<Rightarrow> None)"
| "exec_log h s (Sent fd out # l) = exec_log h s l"

lemma exec_log_append: "exec_log h s (l @ l') = Option.bind (exec_log h s l) (\<lambda>s'. exec_log h s' l')"
  by (induction h s l rule: exec_log.induct) (auto split: sum.splits)

text \<open>The log of one connection, and a log in which every answer was sent before the next request was read.\<close>

fun entry_fd :: "log_entry \<Rightarrow> int" where
  "entry_fd (Handled fd msg len resp) = fd"
| "entry_fd (Sent fd out) = fd"

definition log_of :: "int \<Rightarrow> log_entry list \<Rightarrow> log_entry list" where
  "log_of fd l = filter (\<lambda>e. entry_fd e = fd) l"

fun settled :: "log_entry list \<Rightarrow> bool" where
  "settled [] = True"
| "settled (Handled fd msg len resp # Sent fd' out # l) = ((\<exists>n. out = take n resp) \<and> settled l)"
| "settled _ = False"

lemma settled_append: "settled l \<Longrightarrow> settled [Handled a b c d, e] \<Longrightarrow> settled (l @ [Handled a b c d, e])"
  by (induction l rule: settled.induct) auto

lemma log_of_append [simp]: "log_of fd (l @ l') = log_of fd l @ log_of fd l'"
  by (simp add: log_of_def)

lemma log_of_single [simp]: "log_of fd [e] = (if entry_fd e = fd then [e] else [])"
  by (simp add: log_of_def)

section \<open>The invariant of the loop\<close>

definition client_ok :: "'s reactor \<Rightarrow> int \<Rightarrow> bool" where
  "client_ok R fd \<longleftrightarrow> 0 \<le> fd \<and> nat fd < CONNECTION_SIZE \<and> recv_callback (conn_list R ! nat fd) = Recv_CB
     \<and> send_callback (conn_list R ! nat fd) = Send_CB \<and> length (wbuffer (conn_list R ! nat fd)) = BUFFER_LENGTH"

definition pending :: "'s reactor \<Rightarrow> int \<Rightarrow> bool" where
  "pending R fd \<longleftrightarrow> (\<exists>l msg len resp. log_of fd (trace R) = l @ [Handled fd msg len resp] \<and> settled l
     \<and> wlength (conn_list R ! nat fd) = int (length resp) \<and> resp \<noteq> [] \<and> length resp < BUFFER_LENGTH
     \<and> take (length resp) (wbuffer (conn_list R ! nat fd)) = resp)"

definition conn_inv :: "'s reactor \<Rightarrow> int \<Rightarrow> bool" where
  "conn_inv R fd \<longleftrightarrow> (case epoll R fd of
       None \<Rightarrow> settled (log_of fd (trace R))
     | Some EPOLLIN \<Rightarrow> client_ok R fd \<and> settled (log_of fd (trace R))
     | Some EPOLLOUT \<Rightarrow> client_ok R fd \<and> pending R fd)"

definition rinv :: "'s msg_handler \<Rightarrow> 's \<Rightarrow> int \<Rightarrow> 's reactor \<Rightarrow> bool" where
  "rinv h s0 lfd R \<longleftrightarrow> length (conn_list R) = CONNECTION_SIZE \<and> 0 \<le> lfd \<and> nat lfd < CONNECTION_SIZE
     \<and> epoll R lfd = Some EPOLLIN \<and> recv_callback (conn_list R ! nat lfd) = Accept_CB
     \<and> exec_log h s0 (trace R) = Some (kv R) \<and> (\<forall>fd. fd \<noteq> lfd \<longrightarrow> conn_inv R fd)"

text \<open>
  What the kernel reports: events a descriptor is registered for, a new descriptor that is not in use, at most a
  buffer of data.
\<close>

definition ready_ok :: "'s reactor \<Rightarrow> ready \<Rightarrow> bool" where
  "ready_ok R e \<longleftrightarrow> (ev_in e \<longrightarrow> epoll R (ev_fd e) = Some EPOLLIN) \<and> (ev_out e \<longrightarrow> epoll R (ev_fd e) = Some EPOLLOUT)
     \<and> (sys_accept e < 0 \<or> epoll R (sys_accept e) = None)
     \<and> (\<forall>bs. sys_recv e = Some bs \<longrightarrow> length bs \<le> BUFFER_LENGTH)"

text \<open>The request that an event delivers is one the handler answers.\<close>

definition request_text :: "string \<Rightarrow> string" where
  "request_text bs = c_text (overlay bs zeroed)"

definition answered :: "'s msg_handler \<Rightarrow> 's \<Rightarrow> ready \<Rightarrow> bool" where
  "answered h s e \<longleftrightarrow> (\<forall>bs. sys_recv e = Some bs \<longrightarrow> bs \<noteq> [] \<longrightarrow>
     (\<exists>s' resp ret. h s (request_text bs) (int (length bs)) = Inr (s', resp, ret) \<and> 0 \<le> ret))"

lemma conn_at_ok: "length (conn_list R) = CONNECTION_SIZE \<Longrightarrow> 0 \<le> fd \<Longrightarrow> nat fd < CONNECTION_SIZE \<Longrightarrow>
    conn_at R fd = Inr (conn_list R ! nat fd)"
  by (simp add: conn_at_def)

lemma conn_inv_frame:
  assumes "epoll R' fd = epoll R fd" "log_of fd (trace R') = log_of fd (trace R)"
    and "epoll R fd \<noteq> None \<Longrightarrow> conn_list R' ! nat fd = conn_list R ! nat fd"
  shows "conn_inv R' fd = conn_inv R fd"
  using assms by (auto simp: conn_inv_def client_ok_def pending_def split: option.splits interest.splits)

lemma conn_inv_cases:
  assumes "conn_inv R fd"
  shows "epoll R fd \<noteq> Some EPOLLOUT \<Longrightarrow> settled (log_of fd (trace R))" "epoll R fd = Some EPOLLOUT \<Longrightarrow> pending R fd"
  using assms by (cases "epoll R fd"; cases "the (epoll R fd)"; simp add: conn_inv_def)+

lemma conn_inv_range: "conn_inv R fd \<Longrightarrow> epoll R fd \<noteq> None \<Longrightarrow> 0 \<le> fd \<and> nat fd < CONNECTION_SIZE"
  by (auto simp: conn_inv_def client_ok_def split: option.splits interest.splits)

section \<open>Each callback keeps the invariant\<close>

lemma rinv_other:
  assumes i: "rinv h s0 lfd R" and fd: "0 \<le> fd" "nat fd < CONNECTION_SIZE" "fd \<noteq> lfd"
    and c: "conn_list R' = (conn_list R)[nat fd := c]" "\<forall>x. x \<noteq> fd \<longrightarrow> epoll R' x = epoll R x"
      "\<forall>x. x \<noteq> fd \<longrightarrow> log_of x (trace R') = log_of x (trace R)"
    and e: "exec_log h s0 (trace R') = Some (kv R')" and own: "conn_inv R' fd"
  shows "rinv h s0 lfd R'"
proof -
  have len: "length (conn_list R) = CONNECTION_SIZE" using i by (simp add: rinv_def)
  have "conn_inv R' x" if x: "x \<noteq> lfd" "x \<noteq> fd" for x
  proof -
    have xi: "conn_inv R x" using i x by (simp add: rinv_def)
    have "conn_list R' ! nat x = conn_list R ! nat x" if "epoll R x \<noteq> None"
      using conn_inv_range [OF xi that] fd(1) x(2) by (simp add: c(1) eq_nat_nat_iff)
    with conn_inv_frame [of R' x R] c x(2) xi show ?thesis by simp
  qed
  moreover have "conn_list R' ! nat lfd = conn_list R ! nat lfd"
    using i fd by (simp add: c(1) rinv_def eq_nat_nat_iff)
  ultimately show ?thesis using i c e own fd by (auto simp: rinv_def)
qed

lemma accept_cb_inv:
  assumes i: "rinv h s0 lfd R" and f: "fd' < 0 \<or> epoll R fd' = None" "fd' < int CONNECTION_SIZE"
  shows "\<exists>R' r. accept_cb R lfd fd' = Inr (R', r) \<and> rinv h s0 lfd R'"
proof (cases "fd' < 0")
  case False
  then have fd: "0 \<le> fd'" "nat fd' < CONNECTION_SIZE" "fd' \<noteq> lfd" "epoll R fd' = None"
    using i f by (auto simp: rinv_def)
  let ?c = "(conn_list R ! nat fd')\<lparr>cfd := fd', recv_callback := Recv_CB, send_callback := Send_CB,
               rbuffer := zeroed, rlength := 0, wbuffer := zeroed, wlength := 0\<rparr>"
  let ?R = "R\<lparr>conn_list := (conn_list R)[nat fd' := ?c], epoll := (epoll R)(fd' \<mapsto> EPOLLIN)\<rparr>"
  have len: "length (conn_list R) = CONNECTION_SIZE" using i by (simp add: rinv_def)
  have "accept_cb R lfd fd' = Inr (?R, 0)"
    using fd len by (simp add: accept_cb_def event_register_def conn_at_ok set_event_def put_conn_def)
  moreover have "conn_inv ?R fd'"
    using i fd len by (auto simp: conn_inv_def client_ok_def rinv_def zeroed_def)
  with rinv_other [OF i fd(1-3), of ?R ?c] i have "rinv h s0 lfd ?R" by (simp add: rinv_def)
  ultimately show ?thesis by blast
qed (use i in \<open>simp add: accept_cb_def\<close>)

lemma close_conn_inv:
  assumes i: "rinv h s0 lfd R" and fd: "fd \<noteq> lfd" "epoll R fd = Some EPOLLIN"
  shows "rinv h s0 lfd (close_conn (put_conn R fd ((conn_list R ! nat fd)\<lparr>rbuffer := zeroed\<rparr>)) fd)"
proof -
  have ci: "conn_inv R fd" using i fd(1) by (simp add: rinv_def)
  show ?thesis
    using rinv_other [OF i _ _ fd(1), of "close_conn (put_conn R fd ((conn_list R ! nat fd)\<lparr>rbuffer := zeroed\<rparr>)) fd"
        "(conn_list R ! nat fd)\<lparr>rbuffer := zeroed\<rparr>"] conn_inv_range [OF ci] ci fd(2) i
    by (auto simp: close_conn_def put_conn_def conn_inv_def rinv_def)
qed

lemma overlay_prefix: "length s \<le> length buf \<Longrightarrow> take (length s) (overlay (s @ t) buf) = s"
  by (simp add: overlay_def)

lemma length_overlay: "length s \<le> length buf \<Longrightarrow> length (overlay s buf) = length buf"
  by (simp add: overlay_def)

context handler
begin

lemma recv_cb_inv:
  assumes i: "rinv h s0 lfd R" and fd: "fd \<noteq> lfd" "epoll R fd = Some EPOLLIN"
    and bs: "bs \<noteq> []" "length bs \<le> BUFFER_LENGTH"
    and a: "h (kv R) (request_text bs) (int (length bs)) = Inr (s', resp, ret)" "0 \<le> ret"
  shows "\<exists>R' r. recv_cb h R fd (Some bs) = Inr (R', r) \<and> rinv h s0 lfd R'"
proof -
  have ci: "conn_inv R fd" using i fd(1) by (simp add: rinv_def)
  then have r: "0 \<le> fd" "nat fd < CONNECTION_SIZE" "client_ok R fd" "settled (log_of fd (trace R))"
    using fd(2) by (auto simp: conn_inv_def client_ok_def)
  have len: "length (conn_list R) = CONNECTION_SIZE" using i by (simp add: rinv_def)
  have ans: "ret = int (length resp)" "resp \<noteq> []" "length resp < BUFFER_LENGTH" using answer [OF a(1)] a(2) by auto
  let ?old = "conn_list R ! nat fd"
  let ?c = "?old\<lparr>rbuffer := overlay bs zeroed, rlength := int (length bs), wlength := ret,
    wbuffer := overlay (resp @ [NUL]) (wbuffer ?old)\<rparr>"
  let ?l = "trace R @ [Handled fd (request_text bs) (int (length bs)) resp]"
  let ?R = "R\<lparr>conn_list := (conn_list R)[nat fd := ?c], epoll := (epoll R)(fd \<mapsto> EPOLLOUT), kv := s', trace := ?l\<rparr>"
  have ret: "recv_cb h R fd (Some bs) = Inr (?R, int (length bs))"
    using a bs(1) r(1,2) len fd(2)
    by (simp add: recv_cb_def conn_at_def Let_def kvs_request_def put_conn_def request_text_def set_event_def)
  have wb: "length (wbuffer ?old) = BUFFER_LENGTH" using r(3) by (simp add: client_ok_def)
  have tk: "take (length resp) (overlay (resp @ [NUL]) (wbuffer ?old)) = resp"
    using ans(3) wb by (intro overlay_prefix) simp
  have ol: "length (overlay (resp @ [NUL]) (wbuffer ?old)) = BUFFER_LENGTH"
    using ans(3) wb by (subst length_overlay) simp_all
  have "client_ok ?R fd" using r len ol unfolding client_ok_def by auto
  moreover have "pending ?R fd"
    unfolding pending_def using r(4) ans tk len r(2) by (intro exI [of _ "log_of fd (trace R)"]) simp
  ultimately have "conn_inv ?R fd" by (simp add: conn_inv_def)
  moreover have "exec_log h s0 ?l = Some s'" using i a(1) by (simp add: exec_log_append rinv_def)
  ultimately have "rinv h s0 lfd ?R" using rinv_other [OF i r(1,2) fd(1), of ?R ?c] by simp
  with ret show ?thesis by blast
qed

end

lemma send_cb_inv:
  assumes i: "rinv h s0 lfd R" and fd: "epoll R fd = Some EPOLLOUT"
  shows "\<exists>R' r. send_cb R fd n = Inr (R', r) \<and> rinv h s0 lfd R'"
proof -
  have nl: "fd \<noteq> lfd" using i fd by (auto simp: rinv_def)
  then have ci: "client_ok R fd" "pending R fd" using i fd by (auto simp: rinv_def conn_inv_def)
  then have r: "0 \<le> fd" "nat fd < CONNECTION_SIZE" by (auto simp: client_ok_def)
  have len: "length (conn_list R) = CONNECTION_SIZE" using i by (simp add: rinv_def)
  let ?c = "conn_list R ! nat fd"
  obtain l msg m resp where p: "log_of fd (trace R) = l @ [Handled fd msg m resp]" "settled l"
      "wlength ?c = int (length resp)" "resp \<noteq> []" "length resp < BUFFER_LENGTH"
      "take (length resp) (wbuffer ?c) = resp"
    using ci(2) by (auto simp: pending_def)
  let ?R = "R\<lparr>trace := trace R @ [Sent fd (take n resp)], epoll := (epoll R)(fd \<mapsto> EPOLLIN)\<rparr>"
  have ret: "send_cb R fd n = Inr (?R, int (length (take n resp)))"
    using len r p(3-6) fd ci(1) by (simp add: send_cb_def conn_at_ok set_event_def client_ok_def)
  have "settled (log_of fd (trace ?R))"
    using p(1) settled_append [OF p(2), of fd msg m resp "Sent fd (take n resp)"] by auto
  then have "conn_inv ?R fd" using ci(1) by (simp add: conn_inv_def client_ok_def)
  moreover have "exec_log h s0 (trace ?R) = Some (kv ?R)" using i by (simp add: exec_log_append rinv_def)
  ultimately have "rinv h s0 lfd ?R"
    using rinv_other [OF i r nl, of ?R ?c] by (simp add: list_update_id)
  with ret show ?thesis by blast
qed

section \<open>Runs of the loop\<close>

context handler
begin

lemma call_recv_inv:
  assumes i: "rinv h s0 lfd R" and e: "ready_ok R e" "ev_in e" "answered h (kv R) e" "sys_accept e < int CONNECTION_SIZE"
  shows "\<exists>R'. call_recv h R e = Inr R' \<and> rinv h s0 lfd R'"
proof (cases "ev_fd e = lfd")
  case True
  have "conn_at R lfd = Inr (conn_list R ! nat lfd)" "recv_callback (conn_list R ! nat lfd) = Accept_CB"
    using i by (auto simp: rinv_def conn_at_def)
  with accept_cb_inv [OF i _ e(4)] e(1) True show ?thesis by (auto simp: call_recv_def ready_ok_def)
next
  case False
  have fd: "epoll R (ev_fd e) = Some EPOLLIN" using e(1,2) by (simp add: ready_ok_def)
  then have "client_ok R (ev_fd e)" using i False by (auto simp: rinv_def conn_inv_def)
  then have c: "conn_at R (ev_fd e) = Inr (conn_list R ! nat (ev_fd e))"
      "recv_callback (conn_list R ! nat (ev_fd e)) = Recv_CB"
    using i by (auto simp: rinv_def conn_at_def client_ok_def)
  show ?thesis
  proof (cases "sys_recv e = None \<or> sys_recv e = Some []")
    case True
    with close_conn_inv [OF i False fd] c show ?thesis by (auto simp: call_recv_def recv_cb_def)
  next
    case data: False
    then obtain bs where bs: "sys_recv e = Some bs" "bs \<noteq> []" by auto
    with e(1,3) obtain s' resp ret where "h (kv R) (request_text bs) (int (length bs)) = Inr (s', resp, ret)"
        "0 \<le> ret" "length bs \<le> BUFFER_LENGTH" by (auto simp: answered_def ready_ok_def)
    with recv_cb_inv [OF i False fd bs(2)] c bs show ?thesis by (fastforce simp: call_recv_def)
  qed
qed

lemma handle_ready_inv:
  assumes i: "rinv h s0 lfd R" and e: "ready_ok R e" "answered h (kv R) e" "sys_accept e < int CONNECTION_SIZE"
  shows "\<exists>R'. handle_ready h R e = Inr R' \<and> rinv h s0 lfd R'"
proof (cases "ev_in e")
  case True
  then have "\<not> ev_out e" using e(1) by (auto simp: ready_ok_def)
  with True call_recv_inv [OF i e(1) True e(2,3)] show ?thesis by (auto simp: handle_ready_def)
next
  case False
  show ?thesis
  proof (cases "ev_out e")
    case True
    then have fd: "epoll R (ev_fd e) = Some EPOLLOUT" "ev_fd e \<noteq> lfd" using e(1) i by (auto simp: ready_ok_def rinv_def)
    then have "client_ok R (ev_fd e)" using i by (auto simp: rinv_def conn_inv_def)
    with i have "conn_at R (ev_fd e) = Inr (conn_list R ! nat (ev_fd e))"
        "send_callback (conn_list R ! nat (ev_fd e)) = Send_CB"
      by (auto simp: rinv_def conn_at_def client_ok_def)
    with send_cb_inv [OF i fd(1), of "sys_send e"] True False show ?thesis
      by (auto simp: handle_ready_def call_send_def)
  qed (use False i in \<open>simp add: handle_ready_def\<close>)
qed

end

text \<open>The states the loop passes through while the kernel and the clients behave as \<open>ready_ok\<close> and \<open>answered\<close> say.\<close>

inductive reach :: "'s msg_handler \<Rightarrow> 's \<Rightarrow> int \<Rightarrow> 's reactor \<Rightarrow> bool" for h s0 lfd where
  start: "reactor_start s0 lfd = Inr R \<Longrightarrow> reach h s0 lfd R"
| step: "reach h s0 lfd R \<Longrightarrow> ready_ok R e \<Longrightarrow> answered h (kv R) e \<Longrightarrow> sys_accept e < int CONNECTION_SIZE \<Longrightarrow>
    handle_ready h R e = Inr R' \<Longrightarrow> reach h s0 lfd R'"

lemma start_inv: "reactor_start s0 lfd = Inr R \<Longrightarrow> rinv h s0 lfd R"
  by (auto simp: reactor_start_def rinv_def conn_at_def put_conn_def set_event_def conn_inv_def log_of_def
      Let_def CONNECTION_SIZE_def split: if_splits)

context handler
begin

lemma reach_inv: "reach h s0 lfd R \<Longrightarrow> rinv h s0 lfd R"
proof (induction rule: reach.induct)
  case (start R)
  then show ?case by (rule start_inv)
next
  case (step R e R')
  with handle_ready_inv [OF step.IH step.hyps(2-4)] show ?case by auto
qed

lemma reach_progress:
  assumes "reach h s0 lfd R" "ready_ok R e" "answered h (kv R) e" "sys_accept e < int CONNECTION_SIZE"
  shows "\<exists>R'. handle_ready h R e = Inr R' \<and> reach h s0 lfd R'"
  using handle_ready_inv [OF reach_inv [OF assms(1)] assms(2-4)] reach.step [OF assms] by blast

end

section \<open>The protocol as the handler\<close>

definition kvs_serve :: "mallocs \<Rightarrow> rbtree_node \<Rightarrow> engines msg_handler" where
  "kvs_serve m junk E msg len = kvs_protocol m junk E (Some msg) len (Some BUFFER_LENGTH)"

lemma sprintf_ret: "sprintf cap s = Inr (t, n) \<longleftrightarrow> t = s \<and> n = int (length s) \<and> length s < cap"
  by (auto simp: sprintf_def)

lemma exec_cmd_ret:
  assumes "exec_cmd m junk cap E c key value = Inr (E', resp, ret)"
  shows "ret = int (length resp) \<and> resp \<noteq> [] \<and> length resp < cap"
proof -
  have ne: "s @ crlf \<noteq> []" for s by (simp add: crlf_def)
  have S: "reply_set cap err r = Inr (s, resp, ret) \<Longrightarrow> ret = int (length resp) \<and> resp \<noteq> [] \<and> length resp < cap"
    for err s and r :: "('x \<times> int) res"
    using ne by (auto simp: reply_set_def andthen_eq_Inr sprintf_ret split: prod.splits)
  have M: "reply_mod cap r = Inr (s, resp, ret) \<Longrightarrow> ret = int (length resp) \<and> resp \<noteq> [] \<and> length resp < cap"
    for s and r :: "('x \<times> int) res"
    using ne by (auto simp: reply_mod_def andthen_eq_Inr sprintf_ret split: prod.splits)
  have G: "reply_get cap r = Inr (resp, ret) \<Longrightarrow> ret = int (length resp) \<and> resp \<noteq> [] \<and> length resp < cap" for r
    using ne by (auto simp: reply_get_def andthen_eq_Inr sprintf_ret split: if_splits)
  have X: "reply_exist cap r = Inr (resp, ret) \<Longrightarrow> ret = int (length resp) \<and> resp \<noteq> [] \<and> length resp < cap" for r
    using ne by (auto simp: reply_exist_def andthen_eq_Inr sprintf_ret)
  note puts = put_array_def put_rbtree_def put_hash_def keep_def andthen_eq_Inr
  show ?thesis
    using assms by (cases c) (auto simp: puts dest!: S M G X)
qed

interpretation kvsh: handler "kvs_serve m junk" for m junk
proof
  fix s msg len s' resp ret
  assume "kvs_serve m junk s msg len = Inr (s', resp, ret)"
  then show "ret < 0 \<or> ret = int (length resp) \<and> resp \<noteq> [] \<and> length resp < BUFFER_LENGTH"
    by (auto simp: kvs_serve_def kvs_protocol_def kvs_filter_protocol_def andthen_eq_Inr
        split: if_splits option.splits prod.splits dest!: exec_cmd_ret)
qed

section \<open>Properties\<close>

definition demo_reactor :: "engines reactor" where
  "demo_reactor = \<lparr>conn_list = (replicate CONNECTION_SIZE empty_conn)[3 := empty_conn\<lparr>cfd := 3, recv_callback := Accept_CB\<rparr>],
     epoll = [3 \<mapsto> EPOLLIN], kv = demo_store, trace = []\<rparr>"

lemma demo_reach: "reach h demo_store 3 demo_reactor"
proof (rule reach.start)
  show "reactor_start demo_store 3 = Inr demo_reactor"
    by (simp add: reactor_start_def demo_reactor_def conn_at_def put_conn_def set_event_def CONNECTION_SIZE_def Let_def)
qed

definition demo_accept :: ready where
  "demo_accept = \<lparr>ev_fd = 3, ev_in = True, ev_out = False, sys_accept = 5, sys_recv = None, sys_send = 0\<rparr>"





text \<open>
  The connection table has 1024 entries and is indexed by the descriptor without a test: accepting a
  connection with a descriptor from 1024 on writes behind the table.
\<close>

theorem accept_fd_overflow:
  assumes "length (conn_list R) = CONNECTION_SIZE" "int CONNECTION_SIZE \<le> clientfd"
  shows "accept_cb R lfd clientfd = Inl OutOfBounds"
  using assms by (auto simp: accept_cb_def event_register_def conn_at_def)

theorem accept_fd_overflow_witness:
  "accept_cb demo_reactor 3 1024 = Inl OutOfBounds"
  by (rule accept_fd_overflow) (simp_all add: demo_reactor_def CONNECTION_SIZE_def)

text \<open>
  C29: a request without a word, such as a blank, gets no answer from the protocol but the value -1, which
  the loop stores as the length to send; the next callback asks the kernel to send that many bytes, as an unsigned
  count, and so reads behind the response buffer.
\<close>

theorem kvs_reactor_blank_request:
  assumes "reach (kvs_serve m junk) s0 lfd R" "fd \<noteq> lfd" "epoll R fd = Some EPOLLIN"
    and "bs \<noteq> []" "words (request_text bs) = []"
  shows "\<exists>R' r. recv_cb (kvs_serve m junk) R fd (Some bs) = Inr (R', r) \<and> epoll R' fd = Some EPOLLOUT
    \<and> send_cb R' fd n = Inl OutOfBounds"
proof -
  have i: "length (conn_list R) = CONNECTION_SIZE" "client_ok R fd"
    using kvsh.reach_inv [OF assms(1)] assms(2,3) by (auto simp: rinv_def conn_inv_def)
  have "0 < int (length bs)" using assms(4) by simp
  then have h: "kvs_serve m junk (kv R) (request_text bs) (int (length bs)) = Inr (kv R, [], -1)"
    using assms(5) by (simp add: kvs_serve_def kvs_protocol_def kvs_split_token_words kvs_filter_protocol_def)
  have fd: "0 \<le> fd" "nat fd < length (conn_list R)" using i by (auto simp: client_ok_def)
  then show ?thesis
    using h assms(3,4)
    by (simp add: recv_cb_def conn_at_def Let_def kvs_request_def put_conn_def request_text_def set_event_def send_cb_def)
qed

theorem kvs_reactor_blank_request_witness:
  "\<exists>R R' r. recv_cb (kvs_serve malloc_ok demo_junk) R 5 (Some '' '') = Inr (R', r) \<and> epoll R' 5 = Some EPOLLOUT
    \<and> send_cb R' 5 1 = Inl OutOfBounds"
proof -
  let ?h = "kvs_serve malloc_ok demo_junk"
  let ?R = "the (map_option fst (case accept_cb demo_reactor 3 5 of Inr x \<Rightarrow> Some x | Inl _ \<Rightarrow> None))"
  have acc: "handle_ready ?h demo_reactor demo_accept = Inr ?R" "epoll ?R 5 = Some EPOLLIN"
    by (simp_all add: handle_ready_def call_recv_def demo_reactor_def demo_accept_def conn_at_def accept_cb_def
        event_register_def set_event_def put_conn_def CONNECTION_SIZE_def)
  have "reach ?h demo_store 3 ?R"
    by (rule reach.step [OF demo_reach _ _ _ acc(1)])
      (simp_all add: demo_reactor_def demo_accept_def ready_ok_def answered_def CONNECTION_SIZE_def)
  moreover have "words (request_text '' '') = []"
    by (simp add: request_text_def c_text_def overlay_def zeroed_def BUFFER_LENGTH_def NUL_def takeWhile_replicate)
  ultimately show ?thesis using kvs_reactor_blank_request [OF _ _ acc(2), of malloc_ok demo_junk demo_store 3] by fastforce
qed

end
