(* ===== verification/Proactor.thy ===== *)
theory Proactor
  imports Reactor
begin

text \<open>
  The second network layer in front of the protocol, \<^verbatim>\<open>src/12_1/proactor.c\<close>, which hands its operations to the
  kernel with io_uring. One receive buffer and one response buffer serve all connections. The kernel completes the
  operations it was given in any order and at any time between two steps of the program; that it does so, and the data it
  delivers, are the steps of the environment. What is received, handled and sent is recorded in a log, which is not part
  of the program.
\<close>

section \<open>State\<close>

definition EVENT_ACCEPT :: int where "EVENT_ACCEPT = 0"
definition EVENT_READ :: int where "EVENT_READ = 1"
definition EVENT_WRITE :: int where "EVENT_WRITE = 2"

definition ENTRIES_LENGTH :: nat where "ENTRIES_LENGTH = 1024"

record conn_info =
  info_fd :: int
  info_event :: int

text \<open>A request to the kernel with the user data attached to it; receiving is always into the buffer, sending from the response.\<close>

datatype sqe = Prep_Accept int conn_info | Prep_Recv int conn_info | Prep_Send int int conn_info

record cqe =
  user_data :: conn_info
  cqe_res :: int

datatype event_log = Received int string | Answered int string int string | Delivered int string

record 's proactor =
  sq :: "sqe list"
  inflight :: "sqe list"
  cq :: "cqe list"
  cqes :: "cqe list"
  waiting :: bool
  buffer :: string
  response :: string
  store :: 's
  events :: "event_log list"

text \<open>
  A handler that gets the buffer itself: store, buffer and length; the new store, the buffer it leaves, the text it writes
  into the response and the value it returns.
\<close>

type_synonym 's buf_handler = "'s \<Rightarrow> string \<Rightarrow> int \<Rightarrow> ('s \<times> string \<times> string \<times> int) res"

section \<open>Requests\<close>

text \<open>\<^verbatim>\<open>io_uring_get_sqe\<close> returns NULL when the queue is full, and the code uses what it returns.\<close>

definition get_sqe :: "'s proactor \<Rightarrow> sqe \<Rightarrow> 's proactor res" where
  "get_sqe P q = (if length (sq P) < ENTRIES_LENGTH then Inr (P\<lparr>sq := sq P @ [q]\<rparr>) else Inl Segv)"

definition set_event_recv :: "'s proactor \<Rightarrow> int \<Rightarrow> 's proactor res" where
  "set_event_recv P sockfd = get_sqe P (Prep_Recv sockfd \<lparr>info_fd = sockfd, info_event = EVENT_READ\<rparr>)"

definition set_event_send :: "'s proactor \<Rightarrow> int \<Rightarrow> int \<Rightarrow> 's proactor res" where
  "set_event_send P sockfd len = get_sqe P (Prep_Send sockfd len \<lparr>info_fd = sockfd, info_event = EVENT_WRITE\<rparr>)"

definition set_event_accept :: "'s proactor \<Rightarrow> int \<Rightarrow> 's proactor res" where
  "set_event_accept P sockfd = get_sqe P (Prep_Accept sockfd \<lparr>info_fd = sockfd, info_event = EVENT_ACCEPT\<rparr>)"

section \<open>The loop\<close>

definition proactor_start :: "'s \<Rightarrow> int \<Rightarrow> 's proactor res" where
  "proactor_start s sockfd = set_event_accept \<lparr>sq = [], inflight = [], cq = [], cqes = [], waiting = False, buffer = zeroed,
     response = zeroed, store = s, events = []\<rparr> sockfd"

definition loop_submit :: "'s proactor \<Rightarrow> 's proactor" where
  "loop_submit P = P\<lparr>inflight := inflight P @ sq P, sq := [], waiting := True\<rparr>"

definition loop_peek :: "'s proactor \<Rightarrow> 's proactor" where
  "loop_peek P = P\<lparr>cqes := take 128 (cq P), cq := drop 128 (cq P), waiting := False\<rparr>"

text \<open>The body of the loop for one completion.\<close>

definition handle_cqe :: "'s buf_handler \<Rightarrow> int \<Rightarrow> 's proactor \<Rightarrow> cqe \<Rightarrow> 's proactor res" where
  "handle_cqe h sockfd P entries =
     (let result = user_data entries; ret = cqe_res entries in
      if info_event result = EVENT_ACCEPT then andthen (set_event_accept P sockfd) (\<lambda>P. set_event_recv P ret)
      else if info_event result = EVENT_READ then
        if ret = 0 then Inr P
        else if ret > 0 then
          andthen (h (store P) (buffer P) ret) (\<lambda>(s, buf, resp, ret').
            set_event_send (P\<lparr>store := s, buffer := buf, response := (if ret' < 0 then response P else overlay (resp @ [NUL]) (response P)),
              events := events P @ [Answered (info_fd result) (c_text (buffer P)) ret resp]\<rparr>) (info_fd result) ret')
        else Inr P
      else if info_event result = EVENT_WRITE then set_event_recv P (info_fd result)
      else Inr P)"

definition loop_next :: "'s buf_handler \<Rightarrow> int \<Rightarrow> 's proactor \<Rightarrow> 's proactor res" where
  "loop_next h sockfd P = (case cqes P of [] \<Rightarrow> Inr (loop_submit P) | e # es \<Rightarrow> handle_cqe h sockfd (P\<lparr>cqes := es\<rparr>) e)"

section \<open>The kernel\<close>

text \<open>
  What the kernel reports of an operation: a new descriptor, the data received, how many bytes it sent, or an error. A
  recv writes the buffer and a send reads the response when it is carried out; a send of a negative length, as an unsigned
  count, reads behind the response.
\<close>

datatype outcome = Conn int | Data string | Count nat | Err int

definition complete :: "'s proactor \<Rightarrow> conn_info \<Rightarrow> int \<Rightarrow> 's proactor" where
  "complete P u r = P\<lparr>cq := cq P @ [\<lparr>user_data = u, cqe_res = r\<rparr>]\<rparr>"

fun carry_out :: "'s proactor \<Rightarrow> sqe \<Rightarrow> outcome \<Rightarrow> 's proactor option res" where
  "carry_out P (Prep_Accept s u) (Conn fd) = (if fd < 0 then Inr None else Inr (Some (complete P u fd)))"
| "carry_out P (Prep_Recv fd u) (Data bs) =
     (if BUFFER_LENGTH < length bs then Inr None
      else Inr (Some (complete (P\<lparr>buffer := overlay bs (buffer P), events := events P @ (if bs = [] then [] else [Received fd bs])\<rparr>)
             u (int (length bs)))))"
| "carry_out P (Prep_Send fd len u) (Count n) =
     (if len < 0 \<or> int BUFFER_LENGTH < len then Inl OutOfBounds
      else let out = take n (take (nat len) (response P))
        in Inr (Some (complete (P\<lparr>events := events P @ [Delivered fd out]\<rparr>) u (int (length out)))))"
| "carry_out P (Prep_Recv fd u) (Err e) = (if e < 0 then Inr (Some (complete P u e)) else Inr None)"
| "carry_out P (Prep_Send fd len u) (Err e) =
     (if e < 0 then Inr (Some (complete (P\<lparr>events := events P @ [Delivered fd []]\<rparr>) u e)) else Inr None)"
| "carry_out P _ _ = Inr None"

section \<open>The protocol as a handler of the buffer\<close>

text \<open>
  \<^verbatim>\<open>strtok\<close> overwrites the blank behind each word with NUL. A buffer without a NUL is read beyond its end.
\<close>

fun marked :: "bool \<Rightarrow> string \<Rightarrow> string" where
  "marked inside [] = []"
| "marked inside (c # s) = (if c = CHR '' '' then (if inside then NUL else c) # marked False s else c # marked True s)"

definition kvs_serve_buf :: "mallocs \<Rightarrow> rbtree_node \<Rightarrow> engines buf_handler" where
  "kvs_serve_buf m junk E buf len =
     (if NUL \<notin> set buf then Inl OutOfBounds
      else andthen (kvs_serve m junk E (c_text buf) len) (\<lambda>(E, resp, ret).
        Inr (E, overlay (marked False (c_text buf)) buf, resp, ret)))"

lemma length_marked [simp]: "length (marked b s) = length s"
  by (induction b s rule: marked.induct) auto

lemma length_c_text: "length (c_text buf) \<le> length buf"
  by (simp add: c_text_def length_takeWhile_le)

lemma c_text_append: "NUL \<in> set bs \<Longrightarrow> c_text (bs @ r) = c_text bs"
  by (auto simp: c_text_def takeWhile_append)

text \<open>A handler of the buffer does what a handler of the text in it does.\<close>

locale buf_handler = handler h for h :: "'s msg_handler" +
  fixes hb :: "'s buf_handler"
  assumes buf_spec: "NUL \<in> set buf \<Longrightarrow> h s (c_text buf) len = Inr (s', resp, ret) \<Longrightarrow>
    \<exists>buf'. hb s buf len = Inr (s', buf', resp, ret) \<and> length buf' = length buf"

interpretation kvsb: buf_handler "kvs_serve m junk" "kvs_serve_buf m junk" for m junk
proof
  fix buf s len s' resp ret
  assume "NUL \<in> set buf" "kvs_serve m junk s (c_text buf) len = Inr (s', resp, ret)"
  then show "\<exists>buf'. kvs_serve_buf m junk s buf len = Inr (s', buf', resp, ret) \<and> length buf' = length buf"
    using length_c_text [of buf] by (simp add: kvs_serve_buf_def length_overlay)
qed

section \<open>One client at a time\<close>

text \<open>What is under way for the clients: every request that was prepared or submitted and every completion not yet handled.\<close>

datatype item = Opened int | Want_Recv int | Got int int | Want_Send int int | Flushed int

fun sqe_item :: "sqe \<Rightarrow> item list" where
  "sqe_item (Prep_Accept s u) = []"
| "sqe_item (Prep_Recv fd u) = [Want_Recv fd]"
| "sqe_item (Prep_Send fd len u) = [Want_Send fd len]"

definition cqe_item :: "cqe \<Rightarrow> item" where
  "cqe_item e = (if info_event (user_data e) = EVENT_ACCEPT then Opened (cqe_res e)
     else if info_event (user_data e) = EVENT_READ then Got (info_fd (user_data e)) (cqe_res e)
     else Flushed (info_fd (user_data e)))"

definition items :: "'s proactor \<Rightarrow> item list" where
  "items P = concat (map sqe_item (sq P)) @ concat (map sqe_item (inflight P)) @ map cqe_item (cq P) @ map cqe_item (cqes P)"

text \<open>The user data the code attaches.\<close>

fun tagged :: "sqe \<Rightarrow> bool" where
  "tagged (Prep_Accept s u) \<longleftrightarrow> info_event u = EVENT_ACCEPT"
| "tagged (Prep_Recv fd u) \<longleftrightarrow> u = \<lparr>info_fd = fd, info_event = EVENT_READ\<rparr>"
| "tagged (Prep_Send fd len u) \<longleftrightarrow> u = \<lparr>info_fd = fd, info_event = EVENT_WRITE\<rparr>"

text \<open>A log in which every request was answered, by the text of that request, before the next one was received.\<close>

fun served :: "event_log list \<Rightarrow> bool" where
  "served [] = True"
| "served (Received fd bs # Answered fd' msg len resp # Delivered fd'' out # l) =
     (fd' = fd \<and> fd'' = fd \<and> msg = c_text bs \<and> len = int (length bs) \<and> (\<exists>n. out = take n resp) \<and> served l)"
| "served _ = False"

fun exec_events :: "'s msg_handler \<Rightarrow> 's \<Rightarrow> event_log list \<Rightarrow> 's option" where
  "exec_events h s [] = Some s"
| "exec_events h s (Answered fd msg len resp # l) =
     (case h s msg len of Inr (s', resp', ret) \<Rightarrow> if resp' = resp then exec_events h s' l else None | Inl _ \<Rightarrow> None)"
| "exec_events h s (_ # l) = exec_events h s l"

lemma exec_events_append: "exec_events h s (l @ l') = Option.bind (exec_events h s l) (\<lambda>s'. exec_events h s' l')"
  by (induction h s l rule: exec_events.induct) (auto split: sum.splits)

lemma served_append:
  "served l \<Longrightarrow> served [Received a b, Answered c d e f, Delivered g i] \<Longrightarrow>
    served (l @ [Received a b, Answered c d e f, Delivered g i])"
  by (induction l rule: served.induct) auto

text \<open>What the log and the buffers hold, by what is under way.\<close>

fun item_inv :: "'s msg_handler \<Rightarrow> 's proactor \<Rightarrow> item list \<Rightarrow> bool" where
  "item_inv h P [Got fd r] \<longleftrightarrow> (if 0 < r
     then \<exists>l bs. events P = l @ [Received fd bs] \<and> served l \<and> r = int (length bs) \<and> NUL \<in> set (buffer P) \<and> c_text (buffer P) = c_text bs
       \<and> (\<exists>s' resp ret. h (store P) (c_text bs) r = Inr (s', resp, ret) \<and> 0 \<le> ret)
     else served (events P))"
| "item_inv h P [Want_Send fd len] \<longleftrightarrow> (\<exists>l bs resp. events P = l @ [Received fd bs, Answered fd (c_text bs) (int (length bs)) resp]
     \<and> served l \<and> len = int (length resp) \<and> length resp < BUFFER_LENGTH \<and> take (length resp) (response P) = resp)"
| "item_inv h P [i] \<longleftrightarrow> served (events P)"
| "item_inv h P [] \<longleftrightarrow> served (events P)"
| "item_inv h P _ \<longleftrightarrow> False"

definition pinv :: "'s msg_handler \<Rightarrow> 's \<Rightarrow> 's proactor \<Rightarrow> bool" where
  "pinv h s0 P \<longleftrightarrow> item_inv h P (items P) \<and> exec_events h s0 (events P) = Some (store P)
     \<and> length (buffer P) = BUFFER_LENGTH \<and> length (response P) = BUFFER_LENGTH
     \<and> (\<forall>q \<in> set (sq P) \<union> set (inflight P). tagged q)"

text \<open>The next client connects only when nothing is under way, and requests end with a NUL and are answered by the handler.\<close>

definition one_client :: "'s msg_handler \<Rightarrow> 's proactor \<Rightarrow> outcome \<Rightarrow> bool" where
  "one_client h P r \<longleftrightarrow> (case r of
       Conn fd \<Rightarrow> items P = []
     | Data bs \<Rightarrow> bs = [] \<or> NUL \<in> set bs \<and>
         (\<exists>s' resp ret. h (store P) (c_text bs) (int (length bs)) = Inr (s', resp, ret) \<and> 0 \<le> ret)
     | _ \<Rightarrow> True)"

text \<open>The runs of the program and the kernel; \<open>env\<close> is what the kernel may report in a state.\<close>

inductive preach :: "('s proactor \<Rightarrow> outcome \<Rightarrow> bool) \<Rightarrow> 's buf_handler \<Rightarrow> 's \<Rightarrow> int \<Rightarrow> 's proactor \<Rightarrow> bool" for env hb s0 lfd where
  start: "proactor_start s0 lfd = Inr P \<Longrightarrow> preach env hb s0 lfd P"
| kernel: "preach env hb s0 lfd P \<Longrightarrow> inflight P = us @ q # vs \<Longrightarrow> env P r \<Longrightarrow>
    carry_out (P\<lparr>inflight := us @ vs\<rparr>) q r = Inr (Some P') \<Longrightarrow> preach env hb s0 lfd P'"
| peek: "preach env hb s0 lfd P \<Longrightarrow> waiting P \<Longrightarrow> cq P \<noteq> [] \<Longrightarrow> preach env hb s0 lfd (loop_peek P)"
| loop_step: "preach env hb s0 lfd P \<Longrightarrow> \<not> waiting P \<Longrightarrow> loop_next hb lfd P = Inr P' \<Longrightarrow> preach env hb s0 lfd P'"

text \<open>The submission queue never fills: a batch is at most 128 completions, and each prepares at most two requests.\<close>

definition sq_inv :: "'s proactor \<Rightarrow> bool" where
  "sq_inv P \<longleftrightarrow> length (sq P) + 2 * length (cqes P) \<le> 256 \<and> (waiting P \<longrightarrow> sq P = [] \<and> cqes P = [])"

lemma carry_out_frame:
  assumes "carry_out P q r = Inr (Some P')"
  shows "sq P' = sq P \<and> cqes P' = cqes P \<and> waiting P' = waiting P \<and> inflight P' = inflight P \<and> store P' = store P \<and> response P' = response P"
  using assms by (cases "(P, q, r)" rule: carry_out.cases) (auto simp: complete_def Let_def split: if_splits)

lemma get_sqe_ok: "length (sq P) < ENTRIES_LENGTH \<Longrightarrow> get_sqe P q = Inr (P\<lparr>sq := sq P @ [q]\<rparr>)"
  by (simp add: get_sqe_def)

lemmas set_events = set_event_recv_def set_event_send_def set_event_accept_def

lemma handle_cqe_sq:
  assumes "handle_cqe hb lfd P e = Inr P'" "length (sq P) + 2 \<le> ENTRIES_LENGTH"
  shows "length (sq P') \<le> length (sq P) + 2 \<and> cqes P' = cqes P \<and> waiting P' = waiting P"
  using assms
  by (auto simp: handle_cqe_def Let_def set_events get_sqe_def andthen_eq_Inr split: if_splits prod.splits)

lemma sq_inv_start: "proactor_start s0 lfd = Inr P \<Longrightarrow> sq_inv P"
  by (auto simp: proactor_start_def set_events get_sqe_def ENTRIES_LENGTH_def sq_inv_def)

lemma sq_inv_next:
  assumes "sq_inv P" "\<not> waiting P" "loop_next hb lfd P = Inr P'"
  shows "sq_inv P'"
proof (cases "cqes P")
  case Nil
  with assms show ?thesis by (auto simp: loop_next_def loop_submit_def sq_inv_def)
next
  case (Cons e es)
  have "length (sq P) + 2 \<le> ENTRIES_LENGTH" using assms(1) by (simp add: sq_inv_def ENTRIES_LENGTH_def)
  with handle_cqe_sq [of hb lfd "P\<lparr>cqes := es\<rparr>" e P'] assms Cons show ?thesis by (auto simp: loop_next_def sq_inv_def)
qed

lemma preach_sq: "preach env hb s0 lfd P \<Longrightarrow> sq_inv P"
proof (induction rule: preach.induct)
  case (kernel P us q vs r P')
  with carry_out_frame [OF kernel.hyps(4)] show ?case by (auto simp: sq_inv_def)
next
  case (peek P)
  then show ?case by (auto simp: sq_inv_def loop_peek_def)
qed (auto intro: sq_inv_start sq_inv_next)

lemma item_inv_length: "item_inv h P is \<Longrightarrow> length is \<le> 1"
  by (cases "(h, P, is)" rule: item_inv.cases) auto

lemma served_split:
  "served l \<Longrightarrow> \<exists>k k'. l = k @ k' \<and> served k \<and> length k' \<le> 2"
  "served l \<Longrightarrow> \<exists>k k'. l @ [a] = k @ k' \<and> served k \<and> length k' \<le> 2"
  "served l \<Longrightarrow> \<exists>k k'. l @ [a, b] = k @ k' \<and> served k \<and> length k' \<le> 2"
  by (rule exI [of _ l], rule exI [of _ "[]"], simp) (rule exI [of _ l], rule exI [of _ "[a]"], simp,
    rule exI [of _ l], rule exI [of _ "[a, b]"], simp)

lemma item_inv_served: "item_inv h P is \<Longrightarrow> \<exists>l l'. events P = l @ l' \<and> served l \<and> length l' \<le> 2"
  by (cases "(h, P, is)" rule: item_inv.cases) (auto intro: served_split split: if_splits)

lemma pinv_start: "proactor_start s0 lfd = Inr P \<Longrightarrow> pinv h s0 P"
  by (auto simp: proactor_start_def set_events get_sqe_def pinv_def items_def zeroed_def ENTRIES_LENGTH_def)

text \<open>The invariant depends on what is under way and on the buffers, the log and the store.\<close>

lemma item_inv_cong:
  "events P' = events P \<Longrightarrow> buffer P' = buffer P \<Longrightarrow> response P' = response P \<Longrightarrow> store P' = store P \<Longrightarrow> item_inv h P' is = item_inv h P is"
  by (cases "(h, P, is)" rule: item_inv.cases) auto

lemma pinv_cong:
  assumes "pinv h s0 P" "events P' = events P" "buffer P' = buffer P" "response P' = response P" "store P' = store P"
    "items P' = items P" "set (sq P') \<union> set (inflight P') \<subseteq> set (sq P) \<union> set (inflight P)"
  shows "pinv h s0 P'"
  using assms item_inv_cong [of P' P h "items P"] unfolding pinv_def by auto

lemma pinv_peek:
  assumes i: "pinv h s0 P" and w: "waiting P" "sq_inv P"
  shows "pinv h s0 (loop_peek P)"
proof (rule pinv_cong [OF i])
  show "items (loop_peek P) = items P"
  proof -
    have "length (items P) \<le> 1" using i by (auto simp: pinv_def dest: item_inv_length)
    then have "length (cq P) \<le> 1" by (simp add: items_def)
    with w show ?thesis by (simp add: items_def loop_peek_def sq_inv_def)
  qed
qed (auto simp: loop_peek_def)

lemma pinv_submit: "pinv h s0 P \<Longrightarrow> cqes P = [] \<Longrightarrow> pinv h s0 (loop_submit P)"
proof (rule pinv_cong)
  assume i: "pinv h s0 P" "cqes P = []"
  have "length (items P) \<le> 1" using i by (auto simp: pinv_def dest: item_inv_length)
  then have "concat (map sqe_item (sq P)) = [] \<or> concat (map sqe_item (inflight P)) = []"
    by (cases "concat (map sqe_item (sq P))"; cases "concat (map sqe_item (inflight P))") (simp_all add: items_def)
  then show "items (loop_submit P) = items P" by (elim disjE) (simp_all add: items_def loop_submit_def del: concat_eq_Nil_conv)
qed (auto simp: loop_submit_def)

text \<open>The only item there is, when one is known to be there.\<close>

lemma pinv_single: "pinv h s0 P \<Longrightarrow> items P = us @ i # vs \<Longrightarrow> items P = [i] \<and> item_inv h P [i]"
  using item_inv_length [of h P "items P"] by (auto simp: pinv_def)

lemma kernel_items:
  assumes i: "pinv h s0 P" and q: "inflight P = us @ q # vs" "sqe_item q = [x]"
  shows "item_inv h P [x]" "concat (map sqe_item (sq P)) = []" "concat (map sqe_item us) = []" "concat (map sqe_item vs) = []"
    "cq P = []" "cqes P = []" "tagged q"
proof -
  let ?a = "concat (map sqe_item (sq P))" and ?b = "concat (map sqe_item us)" and ?c = "concat (map sqe_item vs)"
  have eq: "items P = (?a @ ?b) @ x # ?c @ map cqe_item (cq P) @ map cqe_item (cqes P)" using q by (simp add: items_def)
  have "item_inv h P [x]" using pinv_single [OF i eq] by blast
  moreover have "length (items P) = 1" using pinv_single [OF i eq] by simp
  then have "length ?a + length ?b + length ?c + length (cq P) + length (cqes P) = 0" unfolding eq by simp
  ultimately show "item_inv h P [x]" "?a = []" "?b = []" "?c = []" "cq P = []" "cqes P = []" by simp_all
  show "tagged q" using i q by (auto simp: pinv_def)
qed

lemma overlay_terminated:
  assumes "NUL \<in> set bs"
  shows "NUL \<in> set (overlay bs buf)" "c_text (overlay bs buf) = c_text bs"
  using assms by (auto simp: overlay_def c_text_append)

lemmas event_codes = EVENT_ACCEPT_def EVENT_READ_def EVENT_WRITE_def

text \<open>A receive that is carried out, with its result \<open>r\<close>; a failed one delivers nothing.\<close>

lemma pinv_recv:
  assumes i: "pinv h s0 P" and q: "inflight P = us @ Prep_Recv fd u # vs" and bs: "length bs \<le> BUFFER_LENGTH"
    and env: "one_client h P (Data bs)" and r: "if bs = [] then r \<le> 0 else r = int (length bs)"
  shows "pinv h s0 (complete (P\<lparr>inflight := us @ vs, buffer := overlay bs (buffer P),
    events := events P @ (if bs = [] then [] else [Received fd bs])\<rparr>) u r)" (is "pinv h s0 ?P'")
proof -
  note k = kernel_items [OF i q, of "Want_Recv fd"]
  have sv: "served (events P)" "u = \<lparr>info_fd = fd, info_event = EVENT_READ\<rparr>" using k by auto
  have "items ?P' = [Got fd r]"
    using k sv(2) by (simp add: items_def complete_def cqe_item_def event_codes del: concat_eq_Nil_conv)
  moreover have "item_inv h ?P' [Got fd r]"
    using sv(1) env r by (auto simp: complete_def one_client_def overlay_terminated split: if_splits)
  ultimately show ?thesis
    using i q bs by (auto simp: pinv_def complete_def length_overlay exec_events_append)
qed

lemma pinv_send:
  assumes i: "pinv h s0 P" and q: "inflight P = us @ Prep_Send fd len u # vs"
  shows "0 \<le> len \<and> len \<le> int BUFFER_LENGTH \<and> pinv h s0 (complete (P\<lparr>inflight := us @ vs,
    events := events P @ [Delivered fd (take n (take (nat len) (response P)))]\<rparr>) u r)" (is "_ \<and> _ \<and> pinv h s0 ?P'")
proof -
  note k = kernel_items [OF i q, of "Want_Send fd len"]
  have u: "u = \<lparr>info_fd = fd, info_event = EVENT_WRITE\<rparr>" using k by auto
  obtain l bs resp where s: "events P = l @ [Received fd bs, Answered fd (c_text bs) (int (length bs)) resp]" "served l"
      "len = int (length resp)" "length resp < BUFFER_LENGTH" "take (length resp) (response P) = resp"
    using k(1) by auto
  have "items ?P' = [Flushed fd]"
    using k u by (simp add: items_def complete_def cqe_item_def event_codes del: concat_eq_Nil_conv)
  moreover have "served (events ?P')"
    using served_append [OF s(2), of fd bs fd "c_text bs" "int (length bs)" resp fd "take n resp"] s(1,3,5)
    by (auto simp: complete_def)
  ultimately show ?thesis using i q s(3,4) by (auto simp: pinv_def complete_def exec_events_append)
qed

lemma pinv_accept:
  assumes i: "pinv h s0 P" and q: "inflight P = us @ Prep_Accept s u # vs" and "items P = []"
  shows "pinv h s0 (complete (P\<lparr>inflight := us @ vs\<rparr>) u fd)" (is "pinv h s0 ?P'")
proof -
  have "info_event u = EVENT_ACCEPT" "served (events P)" using i q assms(3) by (auto simp: pinv_def)
  then have "items ?P' = [Opened fd]" "served (events P)" using q assms(3) by (simp_all add: items_def complete_def cqe_item_def)
  then show ?thesis using i q by (auto simp: pinv_def complete_def)
qed

lemma pinv_kernel:
  assumes i: "pinv h s0 P" and q: "inflight P = us @ q # vs" and env: "one_client h P r"
  shows "\<exists>x. carry_out (P\<lparr>inflight := us @ vs\<rparr>) q r = Inr x \<and> (\<forall>P'. x = Some P' \<longrightarrow> pinv h s0 P')"
proof (cases "(P, q, r)" rule: carry_out.cases)
  case (1 P s u fd)
  with pinv_accept [OF i] q env show ?thesis by (auto simp: one_client_def)
next
  case (2 P fd u bs)
  with pinv_recv [OF i, of us fd u vs bs "int (length bs)"] q env show ?thesis by auto
next
  case (3 P fd len u n)
  with pinv_send [OF i, of us fd len u vs n "int (length (take n (take (nat len) (response P))))"] q show ?thesis
    by (auto simp: Let_def)
next
  case (4 P fd u e)
  have "overlay [] (buffer P) = buffer P" by (simp add: overlay_def)
  with 4 pinv_recv [OF i, of us fd u vs "[]" e] q show ?thesis by (auto simp: one_client_def)
next
  case (5 P fd len u e)
  with pinv_send [OF i, of us fd len u vs 0 e] q show ?thesis by auto
qed auto

section \<open>The steps of the loop\<close>

lemma handle_items:
  assumes i: "pinv h s0 P" and q: "cqes P = e # es"
  shows "item_inv h P [cqe_item e]" "concat (map sqe_item (sq P)) = []" "concat (map sqe_item (inflight P)) = []" "cq P = []" "es = []"
proof -
  let ?a = "concat (map sqe_item (sq P))" and ?b = "concat (map sqe_item (inflight P))"
  have eq: "items P = (?a @ ?b @ map cqe_item (cq P)) @ cqe_item e # map cqe_item es" using q by (simp add: items_def)
  have "item_inv h P [cqe_item e]" using pinv_single [OF i eq] by blast
  moreover have "length (items P) = 1" using pinv_single [OF i eq] by simp
  then have "length ?a + length ?b + length (cq P) + length es = 0" unfolding eq by simp
  ultimately show "item_inv h P [cqe_item e]" "?a = []" "?b = []" "cq P = []" "es = []" by simp_all
qed

context buf_handler
begin

lemma pinv_read:
  assumes i: "pinv h s0 P" and q: "cqes P = [e]" and e: "info_event (user_data e) = EVENT_READ" "0 < cqe_res e"
    and sq: "length (sq P) < ENTRIES_LENGTH"
  shows "\<exists>P'. handle_cqe hb lfd (P\<lparr>cqes := []\<rparr>) e = Inr P' \<and> pinv h s0 P'"
proof -
  note k = handle_items [OF i q]
  let ?fd = "info_fd (user_data e)"
  obtain l bs s' resp ret where s: "events P = l @ [Received ?fd bs]" "served l" "cqe_res e = int (length bs)"
      "NUL \<in> set (buffer P)" "c_text (buffer P) = c_text bs"
      "h (store P) (c_text bs) (cqe_res e) = Inr (s', resp, ret)" "0 \<le> ret"
    using k(1) e by (auto simp: cqe_item_def event_codes)
  have ans: "ret = int (length resp)" "length resp < BUFFER_LENGTH" using answer [OF s(6)] s(7) by auto
  obtain buf' where b: "hb (store P) (buffer P) (cqe_res e) = Inr (s', buf', resp, ret)" "length buf' = length (buffer P)"
    using buf_spec [OF s(4)] s(5,6) by metis
  let ?P = "P\<lparr>cqes := [], store := s', buffer := buf', response := overlay (resp @ [NUL]) (response P),
    events := events P @ [Answered ?fd (c_text bs) (cqe_res e) resp],
    sq := sq P @ [Prep_Send ?fd ret \<lparr>info_fd = ?fd, info_event = EVENT_WRITE\<rparr>]\<rparr>"
  have "handle_cqe hb lfd (P\<lparr>cqes := []\<rparr>) e = Inr ?P"
    using e b s(5,7) sq by (simp add: handle_cqe_def event_codes Let_def set_events get_sqe_def)
  moreover have "items ?P = [Want_Send ?fd ret]" using k by (simp add: items_def del: concat_eq_Nil_conv)
  moreover have "length (response P) = BUFFER_LENGTH" using i by (simp add: pinv_def)
  with ans have "take (length resp) (overlay (resp @ [NUL]) (response P)) = resp"
    "length (overlay (resp @ [NUL]) (response P)) = BUFFER_LENGTH"
    by (auto simp: overlay_prefix length_overlay)
  moreover have "item_inv h ?P [Want_Send ?fd ret]"
    using s(1-3) ans calculation by (auto intro!: exI [of _ l] exI [of _ bs] exI [of _ resp])
  ultimately show ?thesis
    using i b(2) s(5,6) by (auto simp: pinv_def exec_events_append)
qed

lemma pinv_next:
  assumes i: "pinv h s0 P" and sq: "sq_inv P" "\<not> waiting P"
  shows "\<exists>P'. loop_next hb lfd P = Inr P' \<and> pinv h s0 P'"
proof (cases "cqes P")
  case Nil
  with pinv_submit [OF i] show ?thesis by (simp add: loop_next_def)
next
  case (Cons e es)
  note k = handle_items [OF i Cons]
  have room: "length (sq P) < ENTRIES_LENGTH" "Suc (length (sq P)) < ENTRIES_LENGTH"
    using sq(1) by (simp_all add: sq_inv_def ENTRIES_LENGTH_def)
  show ?thesis
  proof (cases "info_event (user_data e) = EVENT_READ \<and> 0 < cqe_res e")
    case True
    with pinv_read [OF i _ _ _ room(1), of e lfd] Cons k show ?thesis by (simp add: loop_next_def)
  next
    case False
    have sv: "served (events P)" using k(1) False by (auto simp: cqe_item_def event_codes split: if_splits)
    show ?thesis
      using i sv k False room Cons
      by (auto simp: loop_next_def handle_cqe_def set_events get_sqe_def pinv_def items_def Let_def event_codes simp del: concat_eq_Nil_conv)
  qed
qed

lemma preach_inv: "preach (one_client h) hb s0 lfd P \<Longrightarrow> pinv h s0 P"
proof (induction rule: preach.induct)
  case (start P)
  then show ?case by (rule pinv_start)
next
  case (kernel P us q vs r P')
  with pinv_kernel [OF kernel.IH kernel.hyps(2,3)] show ?case by auto
next
  case (peek P)
  show ?case by (rule pinv_peek [OF peek.IH peek.hyps(2) preach_sq [OF peek.hyps(1)]])
next
  case (loop_step P P')
  with pinv_next [OF loop_step.IH preach_sq [OF loop_step.hyps(1)] loop_step.hyps(2), of lfd] show ?case by auto
qed

end

section \<open>Properties\<close>

definition demo_proactor :: "engines proactor" where
  "demo_proactor = \<lparr>sq = [Prep_Accept 3 \<lparr>info_fd = 3, info_event = EVENT_ACCEPT\<rparr>], inflight = [], cq = [], cqes = [], waiting = False,
     buffer = zeroed, response = zeroed, store = demo_store, events = []\<rparr>"

lemma demo_preach: "preach env hb demo_store 3 demo_proactor"
  by (rule preach.start)
    (simp add: proactor_start_def demo_proactor_def set_event_accept_def get_sqe_def ENTRIES_LENGTH_def)





text \<open>
  C38: all connections share one buffer. When the kernel delivers the request of a second client before the program has
  handled that of the first, the first client's request is lost: the program hands the text of the second to the protocol
  in its place, and queues the answer for the first client.
\<close>

theorem proactor_crossed_requests:
  assumes "carry_out P (Prep_Recv a u) (Data bs) = Inr (Some P1)" "bs \<noteq> []"
    and "carry_out P1 (Prep_Recv b v) (Data cs) = Inr (Some P2)" "NUL \<in> set cs"
    and "kvs_serve m junk (store P) (c_text cs) (int (length bs)) = Inr (s', resp, ret)" "length (sq P) < ENTRIES_LENGTH"
  shows "\<exists>P3. handle_cqe (kvs_serve_buf m junk) lfd P2 \<lparr>user_data = \<lparr>info_fd = a, info_event = EVENT_READ\<rparr>, cqe_res = int (length bs)\<rparr> = Inr P3
    \<and> store P3 = s' \<and> Prep_Send a ret \<lparr>info_fd = a, info_event = EVENT_WRITE\<rparr> \<in> set (sq P3)
    \<and> last (events P3) = Answered a (c_text cs) (int (length bs)) resp"
proof -
  have P2: "sq P2 = sq P" "store P2 = store P" "buffer P2 = overlay cs (overlay bs (buffer P))"
    using assms(1,3) by (auto simp: complete_def split: if_splits)
  have t: "NUL \<in> set (buffer P2)" "c_text (buffer P2) = c_text cs" using overlay_terminated [OF assms(4)] P2 by auto
  obtain buf' where "kvs_serve_buf m junk (store P2) (buffer P2) (int (length bs)) = Inr (s', buf', resp, ret)"
    using kvsb.buf_spec [OF t(1)] assms(5) P2(2) t(2) by metis
  then show ?thesis
    using assms(2,6) P2 t by (auto simp: handle_cqe_def event_codes Let_def set_events get_sqe_def)
qed

theorem proactor_crossed_requests_witness:
  "\<exists>P1 P2 P3. carry_out demo_proactor (Prep_Recv 5 \<lparr>info_fd = 5, info_event = EVENT_READ\<rparr>) (Data (''RGET x'' @ [NUL])) = Inr (Some P1)
    \<and> carry_out P1 (Prep_Recv 6 \<lparr>info_fd = 6, info_event = EVENT_READ\<rparr>) (Data (''RDEL'' @ [NUL])) = Inr (Some P2)
    \<and> handle_cqe (kvs_serve_buf malloc_ok demo_junk) 3 P2 \<lparr>user_data = \<lparr>info_fd = 5, info_event = EVENT_READ\<rparr>, cqe_res = 7\<rparr> = Inr P3
    \<and> last (events P3) = Answered 5 ''RDEL'' 7 (''error'' @ crlf)"
proof -
  let ?u = "\<lambda>fd. \<lparr>info_fd = fd, info_event = EVENT_READ\<rparr>" and ?x = "''RGET x'' @ [NUL]" and ?y = "''RDEL'' @ [NUL]"
  obtain P1 where P1: "carry_out demo_proactor (Prep_Recv 5 (?u 5)) (Data ?x) = Inr (Some P1)" by (simp add: BUFFER_LENGTH_def)
  obtain P2 where P2: "carry_out P1 (Prep_Recv 6 (?u 6)) (Data ?y) = Inr (Some P2)" by (simp add: BUFFER_LENGTH_def)
  have y: "c_text ?y = ''RDEL''" by (simp add: c_text_def NUL_def)
  have "kvs_serve malloc_ok demo_junk (store demo_proactor) (c_text ?y) (int (length ?x)) = Inr (demo_store, ''error'' @ crlf, 7)"
    unfolding y using kvs_protocol_no_key [OF demo_store_ok, of "''RDEL''" "''RDEL''" ERbtree VDel 7 1024 malloc_ok demo_junk]
    by (simp add: kvs_serve_def BUFFER_LENGTH_def demo_proactor_def crlf_def requests_def)
  from proactor_crossed_requests [OF P1 _ P2 _ this, of 3] y P1 P2 show ?thesis
    by (fastforce simp: demo_proactor_def ENTRIES_LENGTH_def)
qed

text \<open>
  The buffer is not cleared between requests: a request without a NUL is handed to the protocol with the bytes an earlier,
  longer one left behind it.
\<close>

lemma proactor_stale_bytes:
  assumes "carry_out P (Prep_Recv fd u) (Data bs) = Inr (Some P1)" "bs \<noteq> []" "NUL \<notin> set bs" "NUL \<in> set (drop (length bs) (buffer P))"
    and "kvs_serve m junk (store P) (bs @ c_text (drop (length bs) (buffer P))) (int (length bs)) = Inr (s', resp, ret)"
    and "length (sq P) < ENTRIES_LENGTH"
  shows "\<exists>P2. handle_cqe (kvs_serve_buf m junk) lfd P1 \<lparr>user_data = \<lparr>info_fd = fd, info_event = EVENT_READ\<rparr>, cqe_res = int (length bs)\<rparr> = Inr P2
    \<and> store P2 = s' \<and> last (events P2) = Answered fd (bs @ c_text (drop (length bs) (buffer P))) (int (length bs)) resp"
proof -
  have P1: "sq P1 = sq P" "store P1 = store P" "buffer P1 = bs @ drop (length bs) (buffer P)"
    using assms(1) by (auto simp: complete_def overlay_def split: if_splits)
  have t: "NUL \<in> set (buffer P1)" "c_text (buffer P1) = bs @ c_text (drop (length bs) (buffer P))"
    using assms(3,4) P1 by (auto simp: c_text_def takeWhile_append)
  obtain buf' where "kvs_serve_buf m junk (store P1) (buffer P1) (int (length bs)) = Inr (s', buf', resp, ret)"
    using kvsb.buf_spec [OF t(1)] assms(5) P1(2) t(2) by metis
  then show ?thesis
    using assms(2,6) P1 t by (auto simp: handle_cqe_def event_codes Let_def set_events get_sqe_def)
qed

end
