(* ===== verification/C_Words.thy ===== *)
theory C_Words
  imports C_Prelude "HOL-Library.Word"
begin

text \<open>
  Integers as the bytes of memory, for the components that exchange packets and frames: 16 and 32 bit words in the byte
  order of the machine (little endian), and the conversions to and from network order.
\<close>

unbundle bit_operations_syntax

type_synonym byte = "8 word"
type_synonym bytes = "byte list"

section \<open>Integers in memory\<close>

definition raw16 :: "16 word \<Rightarrow> bytes" where
  "raw16 w = [ucast w, ucast (drop_bit 8 w)]"

definition raw32 :: "32 word \<Rightarrow> bytes" where
  "raw32 w = [ucast w, ucast (drop_bit 8 w), ucast (drop_bit 16 w), ucast (drop_bit 24 w)]"

definition get16 :: "bytes \<Rightarrow> nat \<Rightarrow> 16 word" where
  "get16 b i = ucast (b ! i) OR push_bit 8 (ucast (b ! (i + 1)))"

definition get32 :: "bytes \<Rightarrow> nat \<Rightarrow> 32 word" where
  "get32 b i = ucast (b ! i) OR push_bit 8 (ucast (b ! (i + 1))) OR push_bit 16 (ucast (b ! (i + 2)))
     OR push_bit 24 (ucast (b ! (i + 3)))"

text \<open>\<^verbatim>\<open>htons\<close> and \<^verbatim>\<open>htonl\<close> reverse the bytes.\<close>

definition htons :: "16 word \<Rightarrow> 16 word" where
  "htons w = get16 (rev (raw16 w)) 0"

definition htonl :: "32 word \<Rightarrow> 32 word" where
  "htonl w = get32 (rev (raw32 w)) 0"

lemma length_raw [simp]: "length (raw16 w) = 2" "length (raw32 v) = 4"
  by (simp_all add: raw16_def raw32_def)

lemma get16_raw [simp]: "get16 (raw16 w) 0 = w"
  by (rule bit_word_eqI) (auto simp: get16_def raw16_def bit_simps)

lemma raw16_get [simp]: "raw16 (get16 [a, b] 0) = [a, b]"
  by (auto simp: get16_def raw16_def intro!: bit_word_eqI) (auto simp: bit_simps dest: bit_imp_le_length)

lemma get32_raw [simp]: "get32 (raw32 w) 0 = w"
proof (rule bit_word_eqI)
  fix n assume "n < LENGTH(32)"
  then consider "n < 8" | "8 \<le> n" "n < 16" | "16 \<le> n" "n < 24" | "24 \<le> n" "n < 32" by fastforce
  then show "bit (get32 (raw32 w) 0) n = bit w n"
    by cases (auto simp: get32_def raw32_def bit_simps)
qed

lemma raw32_get [simp]: "raw32 (get32 [a, b, c, d] 0) = [a, b, c, d]"
  by (auto simp: get32_def raw32_def intro!: bit_word_eqI) (auto simp: bit_simps dest: bit_imp_le_length)

lemma rev_raw: "rev (raw16 w) = raw16 (htons w)" "rev (raw32 v) = raw32 (htonl v)"
  by (simp_all add: htons_def htonl_def raw16_def [of w] raw32_def [of v])

lemma htons_htons [simp]: "htons (htons w) = w"
  by (metis rev_raw(1) rev_rev_ident get16_raw)

lemma htons_inject [simp]: "htons v = htons w \<longleftrightarrow> v = w"
  by (metis htons_htons)

lemma htonl_htonl [simp]: "htonl (htonl w) = w"
  by (metis rev_raw(2) rev_rev_ident get32_raw)

lemma get_skip [simp]:
  "length a \<le> i \<Longrightarrow> get16 (a @ b) i = get16 b (i - length a)"
  "length a \<le> i \<Longrightarrow> get32 (a @ b) i = get32 b (i - length a)"
  by (simp_all add: get16_def get32_def nth_append Suc_diff_le numeral_eq_Suc)

lemma get_take [simp]:
  "Suc i < length a \<Longrightarrow> get16 (a @ b) i = get16 a i"
  "i + 3 < length a \<Longrightarrow> get32 (a @ b) i = get32 a i"
  by (simp_all add: get16_def get32_def nth_append)

lemma get_Cons [simp]:
  "0 < i \<Longrightarrow> get16 (x # b) i = get16 b (i - 1)"
  "0 < i \<Longrightarrow> get32 (x # b) i = get32 b (i - 1)"
  by (simp_all add: get16_def get32_def nth_Cons' )

section \<open>Arrays of bytes\<close>

text \<open>A copy into an array, which faults if it does not fit, and the bytes of a text.\<close>

definition write_at :: "nat \<Rightarrow> bytes \<Rightarrow> bytes \<Rightarrow> bytes res" where
  "write_at i bs buf =
     (if length buf < i + length bs then Inl OutOfBounds else Inr (take i buf @ bs @ drop (i + length bs) buf))"

definition text_bytes :: "string \<Rightarrow> bytes" where
  "text_bytes s = map of_char s"

end
