(* ===== verification/Ustack_Packet.thy ===== *)
theory Ustack_Packet
  imports C_Words
begin

text \<open>
  The packet formats of the user-space network stack, \<^verbatim>\<open>src/02/2.4_dpdk/ustack/tcp.c\<close>: headers as byte
  lists, the internet checksum the stack computes for ICMP, and the encoders of ARP, ICMP, UDP and TCP
  packets. Integers keep their width. A field that the code stores with a plain assignment is laid out in the
  byte order of the machine (little endian), one that goes through \<^verbatim>\<open>htons\<close> or \<^verbatim>\<open>htonl\<close> in network order. The
  checksum routines of DPDK, \<^verbatim>\<open>rte_ipv4_cksum\<close> and \<^verbatim>\<open>rte_ipv4_udptcp_cksum\<close>, are arguments.
\<close>

section \<open>The internet checksum\<close>

text \<open>
  The loop over 16-bit units, the odd byte at the end, and the folding of the carries. The sum is a
  \<^verbatim>\<open>long\<close>; with at most \<^term>\<open>2 ^ 31\<close> bytes it stays far below \<^term>\<open>2 ^ 63\<close>.
\<close>

fun sum16 :: "bytes \<Rightarrow> nat" where
  "sum16 (a # b # r) = unat (get16 [a, b] 0) + sum16 r"
| "sum16 [a] = unat a"
| "sum16 [] = 0"

function fold16 :: "nat \<Rightarrow> nat" where
  "fold16 s = (if s div 65536 = 0 then s else fold16 (s mod 65536 + s div 65536))"
  by pat_completeness auto
termination
proof (relation "measure id", goal_cases)
  case (2 s)
  have "65536 * (s div 65536) + s mod 65536 = s" by simp
  with 2 have "s mod 65536 + s div 65536 < s" by linarith
  then show ?case by simp
qed simp

declare fold16.simps [simp del]

definition ng_checksum :: "bytes \<Rightarrow> 16 word" where
  "ng_checksum b = NOT (word_of_nat (fold16 (sum16 b)))"

lemma fold16_less: "fold16 s < 65536"
proof (induction s rule: fold16.induct)
  case (1 s)
  then show ?case by (subst fold16.simps) (simp add: div_eq_0_iff)
qed

lemma fold16_mod: "fold16 s mod 65535 = s mod 65535"
proof (induction s rule: fold16.induct)
  case (1 s)
  show ?case
  proof (cases "s div 65536 = 0")
    case False
    have "s = (s mod 65536 + s div 65536) + 65535 * (s div 65536)"
      using mult_div_mod_eq [of 65536 s] by linarith
    then have "s mod 65535 = ((s mod 65536 + s div 65536) + 65535 * (s div 65536)) mod 65535"
      by (rule arg_cong)
    also have "\<dots> = (s mod 65536 + s div 65536) mod 65535" by (rule mod_mult_self2)
    finally have "s mod 65535 = (s mod 65536 + s div 65536) mod 65535" .
    with 1 False show ?thesis by (subst fold16.simps) simp
  qed (simp add: fold16.simps)
qed

lemma fold16_zero: "fold16 s = 0 \<longleftrightarrow> s = 0"
proof (induction s rule: fold16.induct)
  case (1 s)
  then show ?case by (subst fold16.simps) (auto simp: div_eq_0_iff)
qed

lemma sum16_append: "even (length a) \<Longrightarrow> sum16 (a @ b) = sum16 a + sum16 b"
  by (induction a rule: sum16.induct) auto

lemma fold16_complement: "fold16 (s + (65535 - fold16 s)) = 65535"
proof -
  let ?n = "s + (65535 - fold16 s)"
  have "?n mod 65535 = 0"
  proof -
    have "?n mod 65535 = (fold16 s + (65535 - fold16 s)) mod 65535"
      using fold16_mod [of s] by (metis mod_add_left_eq)
    also have "\<dots> = 0" using fold16_less [of s] by simp
    finally show ?thesis .
  qed
  then have m: "fold16 ?n mod 65535 = 0" using fold16_mod [of ?n] by simp
  have "s = 0 \<Longrightarrow> fold16 s = 0" by (simp only: fold16_zero)
  then have "0 < ?n" by (cases "s = 0") simp_all
  then have "fold16 ?n \<noteq> 0" using fold16_zero [of ?n] by linarith
  then have nz: "fold16 ?n \<noteq> 0" .
  have k: "k = 65535" if "k mod 65535 = 0" "k < 65536" "k \<noteq> 0" for k :: nat
    using that by (cases "k < 65535") auto
  show ?thesis by (rule k [OF m fold16_less nz])
qed

lemma unat_ng_checksum: "unat (ng_checksum b) = 65535 - fold16 (sum16 b)"
proof -
  have "unat (NOT (word_of_nat n :: 16 word)) = 65535 - n" if "n < 65536" for n
  proof -
    have "NOT (word_of_nat n :: 16 word) = - 1 - word_of_nat n" by (simp add: not_eq_complement)
    then have "unat (NOT (word_of_nat n :: 16 word)) = unat (- 1 :: 16 word) - unat (word_of_nat n :: 16 word)"
      by (simp only: unat_sub word_order.extremum)
    moreover have "unat (- 1 :: 16 word) = 65535" by (simp add: unsigned_minus_1_eq_mask mask_eq_exp_minus_1)
    ultimately show ?thesis using that by (simp add: unat_of_nat)
  qed
  then show ?thesis using fold16_less by (simp add: ng_checksum_def)
qed

text \<open>
  The property receivers rely on: with the checksum stored in its field, the checksum of the whole is 0.
\<close>

lemma ng_checksum_verifies:
  assumes "even (length a)"
  shows "ng_checksum (a @ raw16 (ng_checksum (a @ raw16 0 @ b)) @ b) = 0"
proof -
  let ?s = "sum16 (a @ raw16 0 @ b)" and ?c = "ng_checksum (a @ raw16 0 @ b)"
  have r: "sum16 (raw16 w @ b) = unat w + sum16 b" for w
    using get16_raw [of w] by (simp add: raw16_def)
  have "sum16 (a @ raw16 ?c @ b) = ?s + unat ?c"
    using assms by (simp add: sum16_append r)
  then have "sum16 (a @ raw16 ?c @ b) = ?s + (65535 - fold16 ?s)" by (simp only: unat_ng_checksum)
  then have "fold16 (sum16 (a @ raw16 ?c @ b)) = 65535" by (simp only: fold16_complement)
  then show ?thesis using unat_ng_checksum [of "a @ raw16 ?c @ b"] by (simp add: unat_eq_zero)
qed

section \<open>Encoders\<close>

definition ETHER_ADDR_LEN :: nat where
  "ETHER_ADDR_LEN = 6"

definition gDefaultArpMac :: bytes where
  "gDefaultArpMac = replicate 6 0xFF"

definition ether_hdr :: "bytes \<Rightarrow> bytes \<Rightarrow> 16 word \<Rightarrow> bytes" where
  "ether_hdr d_addr s_addr ether_type = d_addr @ s_addr @ raw16 (htons ether_type)"

definition ipv4_hdr :: "(bytes \<Rightarrow> 16 word) \<Rightarrow> 16 word \<Rightarrow> byte \<Rightarrow> 32 word \<Rightarrow> 32 word \<Rightarrow> bytes" where
  "ipv4_hdr ipck len proto sip dip =
     (let h = (\<lambda>ck. [0x45, 0] @ raw16 (htons len) @ raw16 0 @ raw16 0 @ [64, proto] @ raw16 ck @ raw32 sip @ raw32 dip)
      in h (ipck (h 0)))"

definition ng_encode_arp_pkt :: "bytes \<Rightarrow> 16 word \<Rightarrow> bytes \<Rightarrow> 32 word \<Rightarrow> 32 word \<Rightarrow> bytes" where
  "ng_encode_arp_pkt gSrcMac opcode dst_mac sip dip =
     ether_hdr (if dst_mac = gDefaultArpMac then replicate 6 0 else dst_mac) gSrcMac 0x0806
     @ raw16 (htons 1) @ raw16 (htons 0x0800) @ [6, 4] @ raw16 (htons opcode)
     @ gSrcMac @ raw32 sip @ dst_mac @ raw32 dip"

text \<open>\<open>alloc\<close> is whether the packet pool has a buffer.\<close>

definition ng_send_arp :: "bool \<Rightarrow> bytes \<Rightarrow> 16 word \<Rightarrow> bytes \<Rightarrow> 32 word \<Rightarrow> 32 word \<Rightarrow> bytes res" where
  "ng_send_arp alloc gSrcMac opcode dst_mac sip dip =
     (if alloc then Inr (ng_encode_arp_pkt gSrcMac opcode dst_mac sip dip) else Inl ExitFailure)"

definition icmp_hdr :: "byte \<Rightarrow> 16 word \<Rightarrow> 16 word \<Rightarrow> bytes" where
  "icmp_hdr type ident seqnb =
     (let h = (\<lambda>ck. [type, 0] @ raw16 ck @ raw16 ident @ raw16 seqnb) in h (ng_checksum (h 0)))"

definition ng_encode_icmp_pkt ::
  "(bytes \<Rightarrow> 16 word) \<Rightarrow> bytes \<Rightarrow> bytes \<Rightarrow> 32 word \<Rightarrow> 32 word \<Rightarrow> 16 word \<Rightarrow> 16 word \<Rightarrow> bytes" where
  "ng_encode_icmp_pkt ipck gSrcMac dst_mac sip dip ident seqnb =
     ether_hdr dst_mac gSrcMac 0x0800 @ ipv4_hdr ipck 28 1 sip dip @ icmp_hdr 0 ident seqnb"

definition ng_send_icmp ::
  "bool \<Rightarrow> (bytes \<Rightarrow> 16 word) \<Rightarrow> bytes \<Rightarrow> bytes \<Rightarrow> 32 word \<Rightarrow> 32 word \<Rightarrow> 16 word \<Rightarrow> 16 word \<Rightarrow> bytes res" where
  "ng_send_icmp alloc ipck gSrcMac dst_mac sip dip ident seqnb =
     (if alloc then Inr (ng_encode_icmp_pkt ipck gSrcMac dst_mac sip dip ident seqnb) else Inl ExitFailure)"

text \<open>
  The checksum routines of DPDK: over the IP header, and over the IP header with the transport header and its
  payload.
\<close>

record cksums =
  ipv4_cksum :: "bytes \<Rightarrow> 16 word"
  udptcp_cksum :: "bytes \<Rightarrow> bytes \<Rightarrow> 16 word"

text \<open>
  A packet buffer has room for \<^verbatim>\<open>RTE_MBUF_DEFAULT_DATAROOM\<close> bytes; a packet that is longer, or a copy that goes
  further, is out of bounds. The copy behind the UDP header takes \<open>udplen\<close> bytes of the data, header length included;
  the packet has \<open>total_len\<close> bytes.
\<close>

definition MBUF_DATAROOM :: nat where
  "MBUF_DATAROOM = 2048"

definition ng_encode_udp_apppkt ::
  "cksums \<Rightarrow> 32 word \<Rightarrow> 32 word \<Rightarrow> 16 word \<Rightarrow> 16 word \<Rightarrow> bytes \<Rightarrow> bytes \<Rightarrow> bytes \<Rightarrow> 16 word \<Rightarrow> bytes res" where
  "ng_encode_udp_apppkt ck sip dip sport dport srcmac dstmac data total_len =
     (let ip = ipv4_hdr (ipv4_cksum ck) (total_len - 14) 17 sip dip;
          udplen = total_len - 14 - 20;
          udp = (\<lambda>c. raw16 sport @ raw16 dport @ raw16 (htons udplen) @ raw16 c)
      in if length data < unat udplen \<or> MBUF_DATAROOM < 42 + unat udplen then Inl OutOfBounds
         else let payload = take (unat udplen) data
              in Inr (take (unat total_len) (ether_hdr dstmac srcmac 0x0800 @ ip
                   @ udp (udptcp_cksum ck ip (udp 0 @ payload)) @ payload)))"

definition ng_udp_pkt ::
  "bool \<Rightarrow> cksums \<Rightarrow> 32 word \<Rightarrow> 32 word \<Rightarrow> 16 word \<Rightarrow> 16 word \<Rightarrow> bytes \<Rightarrow> bytes \<Rightarrow> bytes \<Rightarrow> 16 word \<Rightarrow> bytes res" where
  "ng_udp_pkt alloc ck sip dip sport dport srcmac dstmac data len =
     (if \<not> alloc then Inl ExitFailure
      else if MBUF_DATAROOM < unat len + 42 then Inl OutOfBounds
      else ng_encode_udp_apppkt ck sip dip sport dport srcmac dstmac data (len + 42))"

section \<open>TCP segments\<close>

record ng_tcp_fragment =
  fr_sport :: "16 word"
  fr_dport :: "16 word"
  seqnum :: "32 word"
  acknum :: "32 word"
  hdrlen_off :: byte
  tcp_flags :: byte
  windows :: "16 word"
  tcp_urp :: "16 word"
  optlen :: int
  fr_data :: "bytes option"
  fr_length :: nat

definition TCP_FIN :: byte where "TCP_FIN = 0x01"
definition TCP_SYN :: byte where "TCP_SYN = 0x02"
definition TCP_PSH :: byte where "TCP_PSH = 0x08"
definition TCP_ACK :: byte where "TCP_ACK = 0x10"

definition TCP_INITIAL_WINDOW :: "16 word" where
  "TCP_INITIAL_WINDOW = 14600"

definition blank_fragment :: ng_tcp_fragment where
  "blank_fragment = \<lparr>fr_sport = 0, fr_dport = 0, seqnum = 0, acknum = 0, hdrlen_off = 0, tcp_flags = 0,
     windows = 0, tcp_urp = 0, optlen = 0, fr_data = None, fr_length = 0\<rparr>"

text \<open>
  The option area is reserved but never written; it is shown as zeros. The length of the packet is computed with 32 bits;
  the checksum covers what the IP header says follows it. A fragment with data and a negative option length, which no
  caller builds, is not given a meaning.
\<close>

definition tcp_bytes :: "ng_tcp_fragment \<Rightarrow> 16 word \<Rightarrow> bytes" where
  "tcp_bytes f ck = raw16 (fr_sport f) @ raw16 (fr_dport f) @ raw32 (htonl (seqnum f)) @ raw32 (htonl (acknum f))
     @ [hdrlen_off f, tcp_flags f] @ raw16 (windows f) @ raw16 ck @ raw16 (tcp_urp f)
     @ replicate (nat (4 * optlen f)) 0
     @ (case fr_data f of None \<Rightarrow> [] | Some d \<Rightarrow> take (fr_length f) d)"

definition tcp_total_len :: "ng_tcp_fragment \<Rightarrow> nat" where
  "tcp_total_len f = nat ((int (fr_length f) + 54 + 4 * optlen f) mod 2 ^ 32)"

definition ng_encode_tcp_apppkt ::
  "cksums \<Rightarrow> 32 word \<Rightarrow> 32 word \<Rightarrow> bytes \<Rightarrow> bytes \<Rightarrow> ng_tcp_fragment \<Rightarrow> bytes res" where
  "ng_encode_tcp_apppkt ck sip dip srcmac dstmac f =
     (let n = tcp_total_len f; seg = (\<lambda>c. take (n - 34) (tcp_bytes f c));
          ip = ipv4_hdr (ipv4_cksum ck) (word_of_nat (n - 14)) 6 sip dip
      in if n < 34 \<or> MBUF_DATAROOM < n
            \<or> (case fr_data f of None \<Rightarrow> False | Some d \<Rightarrow> optlen f < 0 \<or> length d < fr_length f
                 \<or> int MBUF_DATAROOM < int (fr_length f) + 54 + 4 * optlen f)
         then Inl OutOfBounds
         else Inr (ether_hdr dstmac srcmac 0x0800 @ ip @ seg (udptcp_cksum ck ip (seg 0))))"

definition ng_tcp_pkt ::
  "bool \<Rightarrow> cksums \<Rightarrow> 32 word \<Rightarrow> 32 word \<Rightarrow> bytes \<Rightarrow> bytes \<Rightarrow> ng_tcp_fragment \<Rightarrow> bytes res" where
  "ng_tcp_pkt alloc ck sip dip srcmac dstmac f =
     (if alloc then ng_encode_tcp_apppkt ck sip dip srcmac dstmac f else Inl ExitFailure)"

section \<open>Layout of encoded packets\<close>

lemma length_ether_hdr [simp]: "length d = 6 \<Longrightarrow> length s = 6 \<Longrightarrow> length (ether_hdr d s t) = 14"
  by (simp add: ether_hdr_def)

lemma length_ipv4_hdr [simp]: "length (ipv4_hdr c n p si di) = 20"
  by (simp add: ipv4_hdr_def Let_def)

lemma ipv4_hdr_fields:
  "get16 (ipv4_hdr c n p si di) 2 = htons n" "get32 (ipv4_hdr c n p si di) 12 = si"
  "get32 (ipv4_hdr c n p si di) 16 = di" "ipv4_hdr c n p si di ! 9 = p"
proof -
  define k where "k = c ([0x45, 0] @ raw16 (htons n) @ raw16 0 @ raw16 0 @ [64, p] @ raw16 0 @ raw32 si @ raw32 di)"
  have e: "ipv4_hdr c n p si di = [0x45, 0] @ (raw16 (htons n) @ raw16 0 @ raw16 0 @ [64, p] @ raw16 k) @ raw32 si @ raw32 di"
    by (simp add: ipv4_hdr_def Let_def k_def)
  show "get16 (ipv4_hdr c n p si di) 2 = htons n" "get32 (ipv4_hdr c n p si di) 12 = si"
    "get32 (ipv4_hdr c n p si di) 16 = di" "ipv4_hdr c n p si di ! 9 = p"
    unfolding e by (simp_all add: nth_append)
qed

definition tcp_head :: "ng_tcp_fragment \<Rightarrow> 16 word \<Rightarrow> bytes" where
  "tcp_head f ck = raw16 (fr_sport f) @ raw16 (fr_dport f) @ raw32 (htonl (seqnum f)) @ raw32 (htonl (acknum f))
     @ [hdrlen_off f, tcp_flags f] @ raw16 (windows f) @ raw16 ck @ raw16 (tcp_urp f)"

lemma length_tcp_head [simp]: "length (tcp_head f ck) = 20"
  by (simp add: tcp_head_def)

lemma tcp_head_fields:
  "get16 (tcp_head f ck) 0 = fr_sport f" "get16 (tcp_head f ck) 2 = fr_dport f"
  "get32 (tcp_head f ck) 4 = htonl (seqnum f)" "get32 (tcp_head f ck) 8 = htonl (acknum f)"
  "tcp_head f ck ! 12 = hdrlen_off f" "tcp_head f ck ! 13 = tcp_flags f" "get16 (tcp_head f ck) 16 = ck"
  by (simp_all add: tcp_head_def nth_append)

lemma tcp_head_clear: "(tcp_head f ck)[16 := 0, 17 := 0] = tcp_head f 0"
  by (simp add: tcp_head_def raw16_def raw32_def list_update_append)

lemma icmp_hdr_fields:
  "length (icmp_hdr ty ident seqnb) = 8" "icmp_hdr ty ident seqnb ! 0 = ty" "get16 (icmp_hdr ty ident seqnb) 4 = ident"
  "get16 (icmp_hdr ty ident seqnb) 6 = seqnb" "ng_checksum (icmp_hdr ty ident seqnb) = 0"
proof -
  have e: "icmp_hdr ty ident seqnb
      = [ty, 0] @ raw16 (ng_checksum ([ty, 0] @ raw16 0 @ raw16 ident @ raw16 seqnb)) @ raw16 ident @ raw16 seqnb"
    by (simp add: icmp_hdr_def Let_def)
  show "ng_checksum (icmp_hdr ty ident seqnb) = 0"
    unfolding e by (rule ng_checksum_verifies) simp
  show "length (icmp_hdr ty ident seqnb) = 8" "icmp_hdr ty ident seqnb ! 0 = ty" "get16 (icmp_hdr ty ident seqnb) 4 = ident"
    "get16 (icmp_hdr ty ident seqnb) 6 = seqnb"
    unfolding e by simp_all
qed

end
