(* ===== verification/Ustack_Socket.thy ===== *)
theory Ustack_Socket
  imports Ustack_Packet
begin

text \<open>
  Sockets of the user-space stack, \<^verbatim>\<open>src/02/2.4_dpdk/ustack/tcp.c\<close> and \<^verbatim>\<open>arp.h\<close>: the descriptor bitmap, the
  ARP table, the list of UDP hosts, the table of TCP control blocks, and the socket calls of the applications. The
  intrusive lists are lists, first element first (\<^verbatim>\<open>LL_ADD\<close> puts an element in front). The rings between the threads
  are DPDK's: their operations are an argument (\<open>ring_api\<close>). A call that waits on a condition variable is \<open>Blocked\<close>.
\<close>

section \<open>Rings\<close>

record ('r, 'a) ring_api =
  ring_create :: 'r
  ring_enqueue :: "'r \<Rightarrow> 'a \<Rightarrow> 'r \<times> bool"
  ring_dequeue :: "'r \<Rightarrow> ('r \<times> 'a) option"

text \<open>
  What the documentation of \<^verbatim>\<open>rte_ring\<close> says: a bounded queue, first in first out; an enqueue on a full ring fails and
  changes nothing. \<open>items\<close> reads off the queue of a ring.
\<close>

definition fifo :: "('r, 'a) ring_api \<Rightarrow> ('r \<Rightarrow> 'a list) \<Rightarrow> nat \<Rightarrow> bool" where
  "fifo api items cap \<longleftrightarrow>
     items (ring_create api) = [] \<and>
     (\<forall>r x. snd (ring_enqueue api r x) = (length (items r) < cap)
        \<and> items (fst (ring_enqueue api r x)) = (if length (items r) < cap then items r @ [x] else items r)) \<and>
     (\<forall>r. ring_dequeue api r = None \<longleftrightarrow> items r = []) \<and>
     (\<forall>r r' x. ring_dequeue api r = Some (r', x) \<longrightarrow> items r = x # items r')"

text \<open>Enqueuing as most callers do it, without looking at the result.\<close>

definition enq :: "('r, 'a) ring_api \<Rightarrow> 'r option \<Rightarrow> 'a \<Rightarrow> 'r option res" where
  "enq api r x = (case r of None \<Rightarrow> Inl Segv | Some r \<Rightarrow> Inr (Some (fst (ring_enqueue api r x))))"

definition deq :: "('r, 'a) ring_api \<Rightarrow> 'r option \<Rightarrow> ('r option \<times> 'a) option res" where
  "deq api r = (case r of None \<Rightarrow> Inl Segv | Some r \<Rightarrow> Inr (map_option (\<lambda>(r, x). (Some r, x)) (ring_dequeue api r)))"

datatype 'a call = Returned 'a | Blocked

section \<open>State\<close>

record arp_entry =
  arp_ip :: "32 word"
  hwaddr :: bytes
  arp_type :: byte

record arp_table =
  entries :: "arp_entry list"
  arp_count :: int

record offload =
  ol_sip :: "32 word"
  ol_dip :: "32 word"
  ol_sport :: "16 word"
  ol_dport :: "16 word"
  ol_data :: bytes
  ol_length :: "16 word"

record 'u localhost =
  h_fd :: int
  localip :: "32 word"
  h_localmac :: bytes
  localport :: "16 word"
  h_protocol :: byte
  h_sndbuf :: "'u option"
  h_rcvbuf :: "'u option"

datatype NG_TCP_STATUS = TCP_CLOSED | TCP_LISTEN | TCP_SYN_RCVD | TCP_SYN_SENT | TCP_ESTABLISHED
  | TCP_FIN_WAIT_1 | TCP_FIN_WAIT_2 | TCP_CLOSING | TCP_TIME_WAIT | TCP_CLOSE_WAIT | TCP_LAST_ACK

record 'r ng_tcp_stream =
  fd :: int
  dip :: "32 word"
  localmac :: bytes
  dport :: "16 word"
  protocol :: byte
  sport :: "16 word"
  sip :: "32 word"
  snd_nxt :: "32 word"
  rcv_nxt :: "32 word"
  status :: NG_TCP_STATUS
  sndbuf :: "'r option"
  rcvbuf :: "'r option"

record ('r, 'u, 'o) ustack =
  fd_table :: bytes
  lhost :: "'u localhost list"
  tcb_set :: "'r ng_tcp_stream list"
  arpt :: "arp_table option"
  out_ring :: 'o

text \<open>The libraries and the configuration of the port.\<close>

record ('r, 'u, 'o) env =
  tcp_api :: "('r, ng_tcp_fragment) ring_api"
  udp_api :: "('u, offload) ring_api"
  out_api :: "('o, bytes) ring_api"
  sums :: cksums
  gSrcMac :: bytes
  gLocalIp :: "32 word"

definition IPPROTO_UDP :: byte where "IPPROTO_UDP = 17"
definition IPPROTO_TCP :: byte where "IPPROTO_TCP = 6"
definition IPPROTO_ICMP :: byte where "IPPROTO_ICMP = 1"

definition emit :: "('r, 'u, 'o) env \<Rightarrow> ('r, 'u, 'o) ustack \<Rightarrow> bytes \<Rightarrow> ('r, 'u, 'o) ustack" where
  "emit V S pkt = S\<lparr>out_ring := fst (ring_enqueue (out_api V) (out_ring S) pkt)\<rparr>"

section \<open>The ARP table\<close>

definition arp_table_instance :: "bool \<Rightarrow> arp_table option \<Rightarrow> arp_table res" where
  "arp_table_instance alloc t =
     (case t of Some t \<Rightarrow> Inr t | None \<Rightarrow> if alloc then Inr \<lparr>entries = [], arp_count = 0\<rparr> else Inl ExitFailure)"

fun mac_of :: "arp_entry list \<Rightarrow> 32 word \<Rightarrow> bytes option" where
  "mac_of [] ip = None"
| "mac_of (e # es) ip = (if ip = arp_ip e then Some (hwaddr e) else mac_of es ip)"

definition ng_get_dst_macaddr :: "arp_table \<Rightarrow> 32 word \<Rightarrow> bytes option" where
  "ng_get_dst_macaddr t ip = mac_of (entries t) ip"

text \<open>The branch of the packet loop that handles an ARP reply.\<close>

definition arp_learn :: "bool \<Rightarrow> arp_table \<Rightarrow> 32 word \<Rightarrow> bytes \<Rightarrow> arp_table" where
  "arp_learn alloc t ip mac =
     (if ng_get_dst_macaddr t ip \<noteq> None \<or> \<not> alloc then t
      else t\<lparr>entries := \<lparr>arp_ip = ip, hwaddr = mac, arp_type = 0\<rparr> # entries t, arp_count := arp_count t + 1\<rparr>)"

section \<open>Descriptors\<close>

definition MAX_FD_COUNT :: nat where "MAX_FD_COUNT = 1024"
definition DEFAULT_FD_NUM :: nat where "DEFAULT_FD_NUM = 3"

definition fd_bit :: "nat \<Rightarrow> byte" where
  "fd_bit n = push_bit (n mod 8) 1"

function fd_scan :: "bytes \<Rightarrow> nat \<Rightarrow> bytes \<times> int" where
  "fd_scan tbl n =
     (if n < MAX_FD_COUNT
      then if tbl ! (n div 8) AND fd_bit n = 0
           then (tbl[n div 8 := tbl ! (n div 8) OR fd_bit n], int n)
           else fd_scan tbl (Suc n)
      else (tbl, -1))"
  by pat_completeness auto
termination
  by (relation "measure (\<lambda>(_, n). MAX_FD_COUNT - n)") auto

declare fd_scan.simps [simp del]

definition get_fd_frombitmap :: "bytes \<Rightarrow> bytes \<times> int" where
  "get_fd_frombitmap tbl = fd_scan tbl DEFAULT_FD_NUM"

definition set_fd_frombitmap :: "bytes \<Rightarrow> int \<Rightarrow> (bytes \<times> int) res" where
  "set_fd_frombitmap tbl n =
     (if n \<ge> int MAX_FD_COUNT then Inr (tbl, -1)
      else if n < 0 then Inl OutOfBounds
      else Inr (tbl[nat n div 8 := tbl ! (nat n div 8) AND NOT (fd_bit (nat n))], 0))"

section \<open>Lookups\<close>

text \<open>The first element that satisfies a test, by its position.\<close>

fun find_ix :: "('a \<Rightarrow> bool) \<Rightarrow> 'a list \<Rightarrow> nat option" where
  "find_ix P [] = None"
| "find_ix P (x # xs) = (if P x then Some 0 else map_option Suc (find_ix P xs))"

definition get_accept_tcb :: "('r, 'u, 'o) ustack \<Rightarrow> 16 word \<Rightarrow> nat option" where
  "get_accept_tcb S p = find_ix (\<lambda>s. p = dport s \<and> fd s = -1) (tcb_set S)"

datatype hostinfo = Udp nat | Tcp nat

definition get_hostinfo_fromfd :: "('r, 'u, 'o) ustack \<Rightarrow> int \<Rightarrow> hostinfo option" where
  "get_hostinfo_fromfd S n =
     (case find_ix (\<lambda>h. n = h_fd h) (lhost S) of
        Some i \<Rightarrow> Some (Udp i)
      | None \<Rightarrow> map_option Tcp (find_ix (\<lambda>s. n = fd s) (tcb_set S)))"

definition get_hostinfo_fromip_port :: "('r, 'u, 'o) ustack \<Rightarrow> 32 word \<Rightarrow> 16 word \<Rightarrow> byte \<Rightarrow> nat option" where
  "get_hostinfo_fromip_port S ip port proto =
     find_ix (\<lambda>h. ip = localip h \<and> port = localport h \<and> proto = h_protocol h) (lhost S)"

definition put_tcb :: "('r, 'u, 'o) ustack \<Rightarrow> nat \<Rightarrow> 'r ng_tcp_stream \<Rightarrow> ('r, 'u, 'o) ustack" where
  "put_tcb S i s = S\<lparr>tcb_set := (tcb_set S)[i := s]\<rparr>"

definition put_host :: "('r, 'u, 'o) ustack \<Rightarrow> nat \<Rightarrow> 'u localhost \<Rightarrow> ('r, 'u, 'o) ustack" where
  "put_host S i h = S\<lparr>lhost := (lhost S)[i := h]\<rparr>"

text \<open>\<^verbatim>\<open>LL_REMOVE\<close> of the element at a position.\<close>

definition remove_ix :: "nat \<Rightarrow> 'a list \<Rightarrow> 'a list" where
  "remove_ix i xs = take i xs @ drop (Suc i) xs"

section \<open>Socket calls\<close>

datatype socktype = SOCK_DGRAM | SOCK_STREAM | SOCK_OTHER

text \<open>
  The outcomes of the allocation of the structure and of the creation of its two rings are \<open>m 0\<close>, \<open>m 1\<close> and
  \<open>m 2\<close>; the descriptor is taken first and not given back on failure.
\<close>

definition nsocket :: "mallocs \<Rightarrow> ('r, 'u, 'o) env \<Rightarrow> ('r, 'u, 'o) ustack \<Rightarrow> socktype \<Rightarrow> ('r, 'u, 'o) ustack \<times> int" where
  "nsocket m V S type =
     (case get_fd_frombitmap (fd_table S) of (tbl, n) \<Rightarrow>
       let S = S\<lparr>fd_table := tbl\<rparr> in
       case type of
         SOCK_DGRAM \<Rightarrow>
           if \<not> m 0 then (S, -1)
           else if \<not> m 1 \<or> \<not> m 2 then (S, -1)
           else (S\<lparr>lhost := \<lparr>h_fd = n, localip = 0, h_localmac = replicate 6 0, localport = 0, h_protocol = IPPROTO_UDP,
                   h_sndbuf = Some (ring_create (udp_api V)), h_rcvbuf = Some (ring_create (udp_api V))\<rparr> # lhost S\<rparr>, n)
       | SOCK_STREAM \<Rightarrow>
           if \<not> m 0 then (S, -1)
           else if \<not> m 1 \<or> \<not> m 2 then (S, -1)
           else (S\<lparr>tcb_set := \<lparr>fd = n, dip = 0, localmac = replicate 6 0, dport = 0, protocol = IPPROTO_TCP, sport = 0,
                   sip = 0, snd_nxt = 0, rcv_nxt = 0, status = TCP_CLOSED,
                   sndbuf = Some (ring_create (tcp_api V)), rcvbuf = Some (ring_create (tcp_api V))\<rparr> # tcb_set S\<rparr>, n)
       | SOCK_OTHER \<Rightarrow> (S, n))"

definition nbind :: "('r, 'u, 'o) env \<Rightarrow> ('r, 'u, 'o) ustack \<Rightarrow> int \<Rightarrow> 32 word \<Rightarrow> 16 word \<Rightarrow> ('r, 'u, 'o) ustack \<times> int" where
  "nbind V S sockfd ip port =
     (case get_hostinfo_fromfd S sockfd of
        None \<Rightarrow> (S, -1)
      | Some (Udp i) \<Rightarrow>
          let h = lhost S ! i in
          (if h_protocol h = IPPROTO_UDP
           then put_host S i (h\<lparr>localport := port, localip := ip, h_localmac := gSrcMac V\<rparr>) else S, 0)
      | Some (Tcp i) \<Rightarrow>
          let s = tcb_set S ! i in
          (if protocol s = IPPROTO_TCP
           then put_tcb S i (s\<lparr>dport := port, dip := ip, localmac := gSrcMac V, status := TCP_CLOSED\<rparr>) else S, 0))"

definition nlisten :: "('r, 'u, 'o) ustack \<Rightarrow> int \<Rightarrow> ('r, 'u, 'o) ustack \<times> int" where
  "nlisten S sockfd =
     (case get_hostinfo_fromfd S sockfd of
        None \<Rightarrow> (S, -1)
      | Some (Udp i) \<Rightarrow> (S, 0)
      | Some (Tcp i) \<Rightarrow>
          let s = tcb_set S ! i in
          (if protocol s = IPPROTO_TCP then put_tcb S i (s\<lparr>status := TCP_LISTEN\<rparr>) else S, 0))"

text \<open>The descriptor of the accepted connection with the port and address of the peer.\<close>

definition naccept :: "('r, 'u, 'o) ustack \<Rightarrow> int \<Rightarrow> (('r, 'u, 'o) ustack \<times> int \<times> 16 word \<times> 32 word) call" where
  "naccept S sockfd =
     (case get_hostinfo_fromfd S sockfd of
        Some (Tcp i) \<Rightarrow>
          let s = tcb_set S ! i in
          if protocol s = IPPROTO_TCP
          then (case get_accept_tcb S (dport s) of
                  None \<Rightarrow> Blocked
                | Some j \<Rightarrow> (case get_fd_frombitmap (fd_table S) of (tbl, n) \<Rightarrow>
                    let a = tcb_set S ! j in
                    Returned (put_tcb (S\<lparr>fd_table := tbl\<rparr>) j (a\<lparr>fd := n\<rparr>), n, sport a, sip a)))
          else Returned (S, -1, 0, 0)
      | _ \<Rightarrow> Returned (S, -1, 0, 0))"

definition nsend :: "mallocs \<Rightarrow> ('r, 'u, 'o) env \<Rightarrow> ('r, 'u, 'o) ustack \<Rightarrow> int \<Rightarrow> bytes \<Rightarrow> (('r, 'u, 'o) ustack \<times> int) res" where
  "nsend m V S sockfd buf =
     (case get_hostinfo_fromfd S sockfd of
        None \<Rightarrow> Inr (S, -1)
      | Some (Udp i) \<Rightarrow> Inr (S, 0)
      | Some (Tcp i) \<Rightarrow>
          let s = tcb_set S ! i in
          if protocol s \<noteq> IPPROTO_TCP then Inr (S, 0)
          else if \<not> m 0 then Inr (S, -2)
          else if \<not> m 1 then Inr (S, -1)
          else andthen (enq (tcp_api V) (sndbuf s)
                 (blank_fragment\<lparr>fr_dport := sport s, fr_sport := dport s, acknum := rcv_nxt s, seqnum := snd_nxt s,
                    tcp_flags := TCP_ACK OR TCP_PSH, windows := TCP_INITIAL_WINDOW, hdrlen_off := 0x50,
                    fr_data := Some buf, fr_length := length buf\<rparr>)) (\<lambda>r.
               Inr (put_tcb S i (s\<lparr>sndbuf := r\<rparr>), int (length buf))))"

text \<open>The bytes copied into the caller's buffer of \<open>len\<close> bytes, and the value returned.\<close>

definition nrecv :: "('r, 'u, 'o) env \<Rightarrow> ('r, 'u, 'o) ustack \<Rightarrow> int \<Rightarrow> nat \<Rightarrow> (('r, 'u, 'o) ustack \<times> bytes \<times> int) call res" where
  "nrecv V S sockfd len =
     (case get_hostinfo_fromfd S sockfd of
        None \<Rightarrow> Inr (Returned (S, [], -1))
      | Some (Udp i) \<Rightarrow> Inr (Returned (S, [], 0))
      | Some (Tcp i) \<Rightarrow>
          let s = tcb_set S ! i in
          if protocol s \<noteq> IPPROTO_TCP then Inr (Returned (S, [], 0))
          else andthen (deq (tcp_api V) (rcvbuf s)) (\<lambda>q.
            case q of
              None \<Rightarrow> Inr Blocked
            | Some (r, f) \<Rightarrow>
                if fr_length f > len then
                  (case fr_data f of
                     None \<Rightarrow> Inl Segv
                   | Some d \<Rightarrow>
                       andthen (enq (tcp_api V) r (f\<lparr>fr_data := Some (drop len d), fr_length := fr_length f - len\<rparr>)) (\<lambda>r.
                         Inr (Returned (put_tcb S i (s\<lparr>rcvbuf := r\<rparr>), take len d, int (fr_length f - len)))))
                else if fr_length f = 0 then Inr (Returned (put_tcb S i (s\<lparr>rcvbuf := r\<rparr>), [], 0))
                else (case fr_data f of
                        None \<Rightarrow> Inl Segv
                      | Some d \<Rightarrow> Inr (Returned (put_tcb S i (s\<lparr>rcvbuf := r\<rparr>), take (fr_length f) d, int (fr_length f))))))"

text \<open>
  A TCP control block taken for a UDP host has its queue pointers elsewhere: following them is a wild access. The
  last branch returns a field of the structure it has freed.
\<close>

definition nrecvfrom :: "mallocs \<Rightarrow> ('r, 'u, 'o) env \<Rightarrow> ('r, 'u, 'o) ustack \<Rightarrow> int \<Rightarrow> nat \<Rightarrow>
    (('r, 'u, 'o) ustack \<times> bytes \<times> int \<times> 16 word \<times> 32 word) call res" where
  "nrecvfrom m V S sockfd len =
     (case get_hostinfo_fromfd S sockfd of
        None \<Rightarrow> Inr (Returned (S, [], -1, 0, 0))
      | Some (Tcp i) \<Rightarrow> Inl Segv
      | Some (Udp i) \<Rightarrow>
          let h = lhost S ! i in
          andthen (deq (udp_api V) (h_rcvbuf h)) (\<lambda>q.
            case q of
              None \<Rightarrow> Inr Blocked
            | Some (r, ol) \<Rightarrow>
                if len < unat (ol_length ol) then
                  if length (ol_data ol) < len then Inl OutOfBounds
                  else if \<not> m 0 then Inl Segv
                  else if length (ol_data ol) < unat (ol_length ol) then Inl OutOfBounds
                  else andthen (enq (udp_api V) r (ol\<lparr>ol_length := ol_length ol - word_of_nat len,
                           ol_data := drop len (ol_data ol)\<rparr>)) (\<lambda>r.
                         Inr (Returned (put_host S i (h\<lparr>h_rcvbuf := r\<rparr>), take len (ol_data ol), int len,
                           ol_sport ol, ol_sip ol)))
                else if length (ol_data ol) < unat (ol_length ol) then Inl OutOfBounds
                else Inl Segv))"

definition nsendto :: "mallocs \<Rightarrow> ('r, 'u, 'o) env \<Rightarrow> ('r, 'u, 'o) ustack \<Rightarrow> int \<Rightarrow> bytes \<Rightarrow> 32 word \<Rightarrow> 16 word \<Rightarrow>
    (('r, 'u, 'o) ustack \<times> int) res" where
  "nsendto m V S sockfd buf ip port =
     (case get_hostinfo_fromfd S sockfd of
        None \<Rightarrow> Inr (S, -1)
      | Some (Tcp i) \<Rightarrow> Inl Segv
      | Some (Udp i) \<Rightarrow>
          let h = lhost S ! i in
          if \<not> m 0 \<or> \<not> m 1 \<or> buf = [] then Inr (S, -1)
          else andthen (enq (udp_api V) (h_sndbuf h) \<lparr>ol_sip = localip h, ol_dip = ip, ol_sport = localport h,
                  ol_dport = port, ol_data = buf, ol_length = word_of_nat (length buf)\<rparr>) (\<lambda>r.
               Inr (put_host S i (h\<lparr>h_sndbuf := r\<rparr>), int (length buf))))"

text \<open>
  The fragment that closes a connection is allocated and not cleared: \<open>junk\<close> is what its memory holds.
\<close>

definition nclose :: "mallocs \<Rightarrow> ng_tcp_fragment \<Rightarrow> ('r, 'u, 'o) env \<Rightarrow> ('r, 'u, 'o) ustack \<Rightarrow> int \<Rightarrow> (('r, 'u, 'o) ustack \<times> int) res" where
  "nclose m junk V S n =
     (case get_hostinfo_fromfd S n of
        None \<Rightarrow> Inr (S, -1)
      | Some (Udp i) \<Rightarrow>
          if h_protocol (lhost S ! i) = IPPROTO_UDP
          then andthen (set_fd_frombitmap (fd_table S) n) (\<lambda>(tbl, _).
                 Inr (S\<lparr>lhost := remove_ix i (lhost S), fd_table := tbl\<rparr>, 0))
          else Inr (S, 0)
      | Some (Tcp i) \<Rightarrow>
          let s = tcb_set S ! i in
          if protocol s \<noteq> IPPROTO_TCP then Inr (S, 0)
          else if status s \<noteq> TCP_LISTEN then
            if \<not> m 0 then Inr (S, -1)
            else andthen (enq (tcp_api V) (sndbuf s)
                   (junk\<lparr>fr_data := None, fr_length := 0, fr_sport := dport s, fr_dport := sport s,
                      seqnum := snd_nxt s, acknum := rcv_nxt s, tcp_flags := TCP_FIN OR TCP_ACK,
                      windows := TCP_INITIAL_WINDOW, hdrlen_off := 0x50\<rparr>)) (\<lambda>r.
                 andthen (set_fd_frombitmap (fd_table S) n) (\<lambda>(tbl, _).
                 Inr (put_tcb (S\<lparr>fd_table := tbl\<rparr>) i (s\<lparr>sndbuf := r, status := TCP_LAST_ACK\<rparr>), 0)))
          else Inr (S\<lparr>tcb_set := remove_ix i (tcb_set S)\<rparr>, 0))"

section \<open>UDP\<close>

text \<open>
  DPDK's allocator refuses a size of 0 and, with the length taken as an unsigned number, one below the size of the
  header.
\<close>

definition udp_process :: "mallocs \<Rightarrow> ('r, 'u, 'o) env \<Rightarrow> ('r, 'u, 'o) ustack \<Rightarrow> bytes \<Rightarrow> (('r, 'u, 'o) ustack \<times> int) res" where
  "udp_process m V S pkt =
     (if length pkt < 42 then Inl OutOfBounds
      else let src = get32 pkt 26; dst = get32 pkt 30; sp = get16 pkt 34; dp = get16 pkt 36;
               len = htons (get16 pkt 38) in
      case get_hostinfo_fromip_port S dst dp (pkt ! 23) of
        None \<Rightarrow> Inr (S, -3)
      | Some i \<Rightarrow>
          let h = lhost S ! i in
          if \<not> m 0 then Inr (S, -1)
          else if \<not> m 1 \<or> len \<le> 8 then Inr (S, -2)
          else if length pkt < 34 + unat len then Inl OutOfBounds
          else andthen (enq (udp_api V) (h_rcvbuf h) \<lparr>ol_sip = src, ol_dip = dst, ol_sport = sp, ol_dport = dp,
                  ol_data = take (unat len - 8) (drop 42 pkt), ol_length = len\<rparr>) (\<lambda>r.
               Inr (put_host S i (h\<lparr>h_rcvbuf := r\<rparr>), 0)))"

text \<open>
  One host of the loop in \<^verbatim>\<open>udp_out\<close>, and the loop: \<open>ms i\<close> has the outcomes of the allocations for the host at position
  \<open>i\<close>, that of the ARP table first, then that of the packet buffer.
\<close>

definition udp_out1 :: "mallocs \<Rightarrow> ('r, 'u, 'o) env \<Rightarrow> ('r, 'u, 'o) ustack \<Rightarrow> nat \<Rightarrow> ('r, 'u, 'o) ustack res" where
  "udp_out1 m V S i =
     (let h = lhost S ! i in
      andthen (deq (udp_api V) (h_sndbuf h)) (\<lambda>q.
        case q of
          None \<Rightarrow> Inr S
        | Some (r, ol) \<Rightarrow>
            andthen (arp_table_instance (m 0) (arpt S)) (\<lambda>t.
            let S = S\<lparr>arpt := Some t\<rparr> in
            case ng_get_dst_macaddr t (ol_dip ol) of
              None \<Rightarrow>
                andthen (ng_send_arp (m 1) (gSrcMac V) 1 gDefaultArpMac (ol_sip ol) (ol_dip ol)) (\<lambda>pkt.
                andthen (enq (udp_api V) r ol) (\<lambda>r.
                Inr (put_host (emit V S pkt) i (h\<lparr>h_sndbuf := r\<rparr>))))
            | Some dstmac \<Rightarrow>
                andthen (ng_udp_pkt (m 1) (sums V) (ol_sip ol) (ol_dip ol) (ol_sport ol) (ol_dport ol)
                    (h_localmac h) dstmac (ol_data ol) (ol_length ol)) (\<lambda>pkt.
                Inr (put_host (emit V S pkt) i (h\<lparr>h_sndbuf := r\<rparr>))))))"

fun udp_out_from :: "(nat \<Rightarrow> mallocs) \<Rightarrow> ('r, 'u, 'o) env \<Rightarrow> ('r, 'u, 'o) ustack \<Rightarrow> nat list \<Rightarrow> ('r, 'u, 'o) ustack res" where
  "udp_out_from ms V S [] = Inr S"
| "udp_out_from ms V S (i # is) = andthen (udp_out1 (ms i) V S i) (\<lambda>S. udp_out_from ms V S is)"

definition udp_out :: "(nat \<Rightarrow> mallocs) \<Rightarrow> ('r, 'u, 'o) env \<Rightarrow> ('r, 'u, 'o) ustack \<Rightarrow> ('r, 'u, 'o) ustack res" where
  "udp_out ms V S = udp_out_from ms V S [0..<length (lhost S)]"

section \<open>The UDP echo server\<close>

definition MAKE_IPV4_ADDR :: "byte \<Rightarrow> byte \<Rightarrow> byte \<Rightarrow> byte \<Rightarrow> 32 word" where
  "MAKE_IPV4_ADDR a b c d = get32 [a, b, c, d] 0"

text \<open>What \<^verbatim>\<open>udp_server_entry\<close> does before its loop, and one round of the loop with its buffer of 128 bytes.\<close>

definition udp_server_setup :: "mallocs \<Rightarrow> ('r, 'u, 'o) env \<Rightarrow> ('r, 'u, 'o) ustack \<Rightarrow> ('r, 'u, 'o) ustack \<times> int" where
  "udp_server_setup m V S =
     (case nsocket m V S SOCK_DGRAM of (S, connfd) \<Rightarrow>
       if connfd = -1 then (S, -1)
       else (fst (nbind V S connfd (MAKE_IPV4_ADDR 192 168 0 115) (htons 8889)), connfd))"

definition udp_echo_step ::
  "mallocs \<Rightarrow> ('r, 'u, 'o) env \<Rightarrow> ('r, 'u, 'o) ustack \<Rightarrow> int \<Rightarrow> bytes \<Rightarrow> (('r, 'u, 'o) ustack \<times> bytes) call res" where
  "udp_echo_step m V S connfd buffer =
     andthen (nrecvfrom m V S connfd 128) (\<lambda>c.
       case c of
         Blocked \<Rightarrow> Inr Blocked
       | Returned (S, got, n, port, ip) \<Rightarrow>
           let buffer = got @ drop (length got) buffer in
           if n < 0 then Inr (Returned (S, buffer))
           else if 0 \<notin> set buffer then Inl OutOfBounds
           else andthen (nsendto (\<lambda>i. m (i + 1)) V S connfd (takeWhile (\<lambda>b. b \<noteq> 0) buffer) ip port) (\<lambda>(S, _).
                Inr (Returned (S, buffer))))"

section \<open>Lookups and rings: lemmas\<close>

lemma find_ix_None: "find_ix P xs = None \<longleftrightarrow> (\<forall>x \<in> set xs. \<not> P x)"
  by (induction xs) auto

lemma find_ix_Some: "find_ix P xs = Some i \<longleftrightarrow> i < length xs \<and> P (xs ! i) \<and> (\<forall>j < i. \<not> P (xs ! j))"
proof (induction xs arbitrary: i)
  case (Cons x xs)
  show ?case
  proof (cases i)
    case (Suc k)
    with Cons show ?thesis by (auto simp: All_less_Suc2)
  qed auto
qed simp

text \<open>What a ring holds.\<close>

definition queue :: "('r \<Rightarrow> 'a list) \<Rightarrow> 'r option \<Rightarrow> 'a list" where
  "queue items r = (case r of None \<Rightarrow> [] | Some r \<Rightarrow> items r)"

lemma queue_simps [simp]: "queue items None = []" "queue items (Some r) = items r"
  by (simp_all add: queue_def)

lemma fifo_create: "fifo api items cap \<Longrightarrow> items (ring_create api) = []"
  by (simp add: fifo_def)

lemma fifo_enq:
  assumes "fifo api items cap" "r \<noteq> None" "length (queue items r) < cap"
  obtains r' where "enq api r x = Inr (Some r')" "items r' = queue items r @ [x]"
  using assms by (auto simp: enq_def fifo_def)

lemma fifo_deq_None:
  assumes "fifo api items cap" "queue items r = []" "r \<noteq> None"
  shows "deq api r = Inr None"
  using assms by (auto simp: deq_def fifo_def)

lemma fifo_deq_Some:
  assumes "fifo api items cap" "queue items r = x # xs"
  obtains r' where "deq api r = Inr (Some (Some r', x))" "items r' = xs"
proof -
  obtain r0 where r: "r = Some r0" "items r0 = x # xs" using assms(2) by (cases r) auto
  then obtain r' y where d: "ring_dequeue api r0 = Some (r', y)" using assms(1) by (cases "ring_dequeue api r0") (auto simp: fifo_def)
  with assms(1) r have "items r0 = y # items r'" by (auto simp: fifo_def)
  with r d show thesis by (intro that) (auto simp: deq_def)
qed

section \<open>Descriptors: lemmas\<close>

definition fd_used :: "bytes \<Rightarrow> nat \<Rightarrow> bool" where
  "fd_used tbl n \<longleftrightarrow> bit (tbl ! (n div 8)) (n mod 8)"

lemma fd_bit_test: "(w :: byte) AND fd_bit n = 0 \<longleftrightarrow> \<not> bit w (n mod 8)"
proof
  assume a: "w AND fd_bit n = 0"
  have "bit (w AND fd_bit n) (n mod 8) = bit w (n mod 8)" by (simp add: fd_bit_def bit_simps)
  with a show "\<not> bit w (n mod 8)" by simp
next
  assume "\<not> bit w (n mod 8)"
  then show "w AND fd_bit n = 0" by (intro bit_word_eqI) (auto simp: fd_bit_def bit_simps)
qed

lemma fd_used_set:
  assumes "n div 8 < length tbl"
  shows "fd_used (tbl[n div 8 := tbl ! (n div 8) OR fd_bit n]) k \<longleftrightarrow> k = n \<or> fd_used tbl k"
  and "fd_used (tbl[n div 8 := tbl ! (n div 8) AND NOT (fd_bit n)]) k \<longleftrightarrow> k \<noteq> n \<and> fd_used tbl k"
proof -
  have eq: "k div 8 = n div 8 \<Longrightarrow> k mod 8 = n mod 8 \<longleftrightarrow> k = n" by (metis div_mult_mod_eq)
  show "fd_used (tbl[n div 8 := tbl ! (n div 8) OR fd_bit n]) k \<longleftrightarrow> k = n \<or> fd_used tbl k"
    using assms eq by (cases "k div 8 = n div 8") (auto simp: fd_used_def fd_bit_def bit_simps)
  show "fd_used (tbl[n div 8 := tbl ! (n div 8) AND NOT (fd_bit n)]) k \<longleftrightarrow> k \<noteq> n \<and> fd_used tbl k"
    using assms eq by (cases "k div 8 = n div 8") (auto simp: fd_used_def fd_bit_def bit_simps)
qed

lemma fd_scan_spec:
  assumes "length tbl = MAX_FD_COUNT" "fd_scan tbl n = (tbl', r)"
  shows "r = -1 \<and> tbl' = tbl \<and> (\<forall>k. n \<le> k \<and> k < MAX_FD_COUNT \<longrightarrow> fd_used tbl k)
    \<or> (\<exists>j. r = int j \<and> n \<le> j \<and> j < MAX_FD_COUNT \<and> \<not> fd_used tbl j \<and> (\<forall>k. n \<le> k \<and> k < j \<longrightarrow> fd_used tbl k)
         \<and> tbl' = tbl[j div 8 := tbl ! (j div 8) OR fd_bit j])"
  using assms
proof (induction tbl n arbitrary: tbl' r rule: fd_scan.induct)
  case (1 tbl n)
  consider (no) "\<not> n < MAX_FD_COUNT" | (free) "n < MAX_FD_COUNT" "tbl ! (n div 8) AND fd_bit n = 0"
    | (used) "n < MAX_FD_COUNT" "tbl ! (n div 8) AND fd_bit n \<noteq> 0" by blast
  then show ?case
  proof cases
    case used
    with 1(3) have "fd_scan tbl (Suc n) = (tbl', r)" by (subst (asm) fd_scan.simps) simp
    note IH = 1(1) [OF used 1(2) this]
    have "fd_used tbl n" using used(2) by (simp add: fd_used_def fd_bit_test)
    with IH show ?thesis by (metis Suc_leD Suc_leI le_neq_implies_less)
  qed (use 1(3) in \<open>subst (asm) fd_scan.simps, auto simp: fd_used_def fd_bit_test\<close>)+
qed

end
