(* ===== verification/Ustack_Tcp.thy ===== *)
theory Ustack_Tcp
  imports Ustack_Socket
begin

text \<open>
  The TCP half of the user-space stack, \<^verbatim>\<open>src/02/2.4_dpdk/ustack/tcp.c\<close>: the control block lookup, the handlers of
  the states a server passes through, the sending loop, the packet loop that dispatches to them and the echo server
  on top. Headers are read from the packet at the offsets the structures of DPDK give them; the code does not look at
  the length of the packet, so a read behind its end is out of bounds.
\<close>

section \<open>Headers\<close>

record tcp_hdr =
  src_port :: "16 word"
  dst_port :: "16 word"
  sent_seq :: "32 word"
  recv_ack :: "32 word"
  data_off :: byte
  flags :: byte
  segment :: bytes

text \<open>\<open>segment\<close> is the memory from the start of the TCP header on.\<close>

definition tcp_hdr_of :: "bytes \<Rightarrow> tcp_hdr" where
  "tcp_hdr_of pkt = \<lparr>src_port = get16 pkt 34, dst_port = get16 pkt 36, sent_seq = get32 pkt 38, recv_ack = get32 pkt 42,
     data_off = pkt ! 46, flags = pkt ! 47, segment = drop 34 pkt\<rparr>"

definition has_flag :: "byte \<Rightarrow> byte \<Rightarrow> bool" where
  "has_flag f b \<longleftrightarrow> f AND b \<noteq> 0"

section \<open>Control blocks\<close>

definition ng_tcp_stream_search ::
  "('r, 'u, 'o) ustack \<Rightarrow> 32 word \<Rightarrow> 32 word \<Rightarrow> 16 word \<Rightarrow> 16 word \<Rightarrow> nat option" where
  "ng_tcp_stream_search S si di sp dp =
     (case find_ix (\<lambda>s. sip s = si \<and> dip s = di \<and> sport s = sp \<and> dport s = dp) (tcb_set S) of
        Some i \<Rightarrow> Some i
      | None \<Rightarrow> find_ix (\<lambda>s. dport s = dp \<and> status s = TCP_LISTEN) (tcb_set S))"

text \<open>\<open>isn\<close> is the random initial sequence number; a ring that cannot be created stays NULL.\<close>

definition ng_tcp_stream_create ::
  "mallocs \<Rightarrow> 32 word \<Rightarrow> 32 word \<Rightarrow> ('r, 'u, 'o) env \<Rightarrow> 32 word \<Rightarrow> 32 word \<Rightarrow> 16 word \<Rightarrow> 16 word \<Rightarrow> 'r ng_tcp_stream option" where
  "ng_tcp_stream_create m isn junk V si di sp dp =
     (if \<not> m 0 then None
      else Some \<lparr>fd = -1, dip = di, localmac = gSrcMac V, dport = dp, protocol = IPPROTO_TCP, sport = sp, sip = si,
        snd_nxt = isn, rcv_nxt = junk, status = TCP_LISTEN,
        sndbuf = (if m 1 then Some (ring_create (tcp_api V)) else None),
        rcvbuf = (if m 2 then Some (ring_create (tcp_api V)) else None)\<rparr>)"

section \<open>Handlers\<close>

definition ng_tcp_handle_listen ::
  "mallocs \<Rightarrow> 32 word \<Rightarrow> 32 word \<Rightarrow> ('r, 'u, 'o) env \<Rightarrow> ('r, 'u, 'o) ustack \<Rightarrow> nat \<Rightarrow> tcp_hdr \<Rightarrow> 32 word \<Rightarrow> 32 word \<Rightarrow>
    (('r, 'u, 'o) ustack \<times> int) res" where
  "ng_tcp_handle_listen m isn junk V S i h si di =
     (if has_flag (flags h) TCP_SYN \<and> status (tcb_set S ! i) = TCP_LISTEN
      then (case ng_tcp_stream_create m isn junk V si di (src_port h) (dst_port h) of
              None \<Rightarrow> Inl Segv
            | Some syn \<Rightarrow>
                if \<not> m 3 then Inr (S\<lparr>tcb_set := syn # tcb_set S\<rparr>, -1)
                else let ack = htonl (sent_seq h) + 1 in
                  andthen (enq (tcp_api V) (sndbuf syn)
                    (blank_fragment\<lparr>fr_sport := dst_port h, fr_dport := src_port h, seqnum := snd_nxt syn, acknum := ack,
                       tcp_flags := TCP_SYN OR TCP_ACK, windows := TCP_INITIAL_WINDOW, hdrlen_off := 0x50\<rparr>)) (\<lambda>r.
                  Inr (S\<lparr>tcb_set := syn\<lparr>rcv_nxt := ack, sndbuf := r, status := TCP_SYN_RCVD\<rparr> # tcb_set S\<rparr>, 0)))
      else Inr (S, 0))"

text \<open>The acknowledgement number is compared and the result ignored.\<close>

definition ng_tcp_handle_syn_rcvd ::
  "('r, 'u, 'o) ustack \<Rightarrow> nat \<Rightarrow> tcp_hdr \<Rightarrow> (('r, 'u, 'o) ustack \<times> int) res" where
  "ng_tcp_handle_syn_rcvd S i h =
     (let s = tcb_set S ! i in
      if has_flag (flags h) TCP_ACK \<and> status s = TCP_SYN_RCVD
      then let S = put_tcb S i (s\<lparr>status := TCP_ESTABLISHED\<rparr>) in
           (case ng_tcp_stream_search S 0 0 0 (dport s) of
              None \<Rightarrow> Inl ExitFailure
            | Some _ \<Rightarrow> Inr (S, 0))
      else Inr (S, 0))"

definition payload_len :: "tcp_hdr \<Rightarrow> int \<Rightarrow> int" where
  "payload_len h tcplen = tcplen - int (unat (drop_bit 4 (data_off h))) * 4"

definition ng_tcp_enqueue_recvbuffer ::
  "mallocs \<Rightarrow> ('r, 'u, 'o) env \<Rightarrow> 'r ng_tcp_stream \<Rightarrow> tcp_hdr \<Rightarrow> int \<Rightarrow> ('r ng_tcp_stream \<times> int) res" where
  "ng_tcp_enqueue_recvbuffer m V s h tcplen =
     (if \<not> m 0 then Inr (s, -1)
      else let f = blank_fragment\<lparr>fr_dport := htons (dst_port h), fr_sport := htons (src_port h)\<rparr>;
               off = unat (drop_bit 4 (data_off h)) * 4; n = payload_len h tcplen in
        if 0 < n then
          if \<not> m 1 then Inr (s, -1)
          else if length (segment h) < off + nat n then Inl OutOfBounds
          else andthen (enq (tcp_api V) (rcvbuf s)
                 (f\<lparr>fr_data := Some (take (nat n) (drop off (segment h))), fr_length := nat n\<rparr>)) (\<lambda>r.
               Inr (s\<lparr>rcvbuf := r\<rparr>, 0))
        else andthen (enq (tcp_api V) (rcvbuf s) f) (\<lambda>r. Inr (s\<lparr>rcvbuf := r\<rparr>, 0)))"

definition ng_tcp_send_ackpkt ::
  "bool \<Rightarrow> ('r, 'u, 'o) env \<Rightarrow> 'r ng_tcp_stream \<Rightarrow> tcp_hdr \<Rightarrow> ('r ng_tcp_stream \<times> int) res" where
  "ng_tcp_send_ackpkt alloc V s h =
     (if \<not> alloc then Inr (s, -1)
      else andthen (enq (tcp_api V) (sndbuf s)
             (blank_fragment\<lparr>fr_dport := src_port h, fr_sport := dst_port h, acknum := rcv_nxt s, seqnum := snd_nxt s,
                tcp_flags := TCP_ACK, windows := TCP_INITIAL_WINDOW, hdrlen_off := 0x50\<rparr>)) (\<lambda>r.
           Inr (s\<lparr>sndbuf := r\<rparr>, 0)))"

text \<open>Data with PSH, then FIN; the outcomes of their allocations are \<open>m 0\<close> to \<open>m 2\<close> and \<open>m 3\<close> to \<open>m 5\<close>.\<close>

definition established_psh ::
  "mallocs \<Rightarrow> ('r, 'u, 'o) env \<Rightarrow> 'r ng_tcp_stream \<Rightarrow> tcp_hdr \<Rightarrow> int \<Rightarrow> 'r ng_tcp_stream res" where
  "established_psh m V s h tcplen =
     (if has_flag (flags h) TCP_PSH
      then andthen (ng_tcp_enqueue_recvbuffer m V s h tcplen) (\<lambda>(s, _).
           andthen (ng_tcp_send_ackpkt (m 2) V
             (s\<lparr>rcv_nxt := rcv_nxt s + word_of_int (payload_len h tcplen), snd_nxt := htonl (recv_ack h)\<rparr>) h) (\<lambda>(s, _).
           Inr s))
      else Inr s)"

definition established_fin ::
  "mallocs \<Rightarrow> ('r, 'u, 'o) env \<Rightarrow> 'r ng_tcp_stream \<Rightarrow> tcp_hdr \<Rightarrow> 'r ng_tcp_stream res" where
  "established_fin m V s h =
     (if has_flag (flags h) TCP_FIN
      then andthen (ng_tcp_enqueue_recvbuffer (\<lambda>i. m (i + 3)) V (s\<lparr>status := TCP_CLOSE_WAIT\<rparr>) h
               (int (unat (drop_bit 4 (data_off h))))) (\<lambda>(s, _).
           andthen (ng_tcp_send_ackpkt (m 5) V (s\<lparr>rcv_nxt := rcv_nxt s + 1, snd_nxt := htonl (recv_ack h)\<rparr>) h) (\<lambda>(s, _).
           Inr s))
      else Inr s)"

definition ng_tcp_handle_established ::
  "mallocs \<Rightarrow> ('r, 'u, 'o) env \<Rightarrow> 'r ng_tcp_stream \<Rightarrow> tcp_hdr \<Rightarrow> int \<Rightarrow> ('r ng_tcp_stream \<times> int) res" where
  "ng_tcp_handle_established m V s h tcplen =
     andthen (established_psh m V s h tcplen) (\<lambda>s.
     andthen (established_fin m V s h) (\<lambda>s. Inr (s, 0)))"

text \<open>Nothing is done in the state in which the application has still to close.\<close>

definition ng_tcp_handle_close_wait :: "('r, 'u, 'o) ustack \<Rightarrow> nat \<Rightarrow> tcp_hdr \<Rightarrow> ('r, 'u, 'o) ustack \<times> int" where
  "ng_tcp_handle_close_wait S i h = (S, 0)"

definition ng_tcp_handle_last_ack :: "('r, 'u, 'o) ustack \<Rightarrow> nat \<Rightarrow> tcp_hdr \<Rightarrow> ('r, 'u, 'o) ustack \<times> int" where
  "ng_tcp_handle_last_ack S i h =
     (if has_flag (flags h) TCP_ACK \<and> status (tcb_set S ! i) = TCP_LAST_ACK
      then (S\<lparr>tcb_set := remove_ix i (tcb_set S)\<rparr>, 0) else (S, 0))"

text \<open>The packet with the checksum field of its TCP header cleared.\<close>

definition clear_cksum :: "bytes \<Rightarrow> bytes" where
  "clear_cksum pkt = pkt[50 := 0, 51 := 0]"

definition ng_tcp_process ::
  "mallocs \<Rightarrow> 32 word \<Rightarrow> 32 word \<Rightarrow> ('r, 'u, 'o) env \<Rightarrow> ('r, 'u, 'o) ustack \<Rightarrow> bytes \<Rightarrow> (('r, 'u, 'o) ustack \<times> int) res" where
  "ng_tcp_process m isn junk V S pkt0 =
     (if length pkt0 < 54 then Inl OutOfBounds
      else let pkt = clear_cksum pkt0; h = tcp_hdr_of pkt; si = get32 pkt 26; di = get32 pkt 30 in
      if udptcp_cksum (sums V) (take 20 (drop 14 pkt)) (drop 34 pkt) \<noteq> get16 pkt0 50 then Inr (S, -1)
      else case ng_tcp_stream_search S si di (src_port h) (dst_port h) of
             None \<Rightarrow> Inr (S, -2)
           | Some i \<Rightarrow>
               (case status (tcb_set S ! i) of
                  TCP_LISTEN \<Rightarrow> andthen (ng_tcp_handle_listen m isn junk V S i h si di) (\<lambda>(S, _). Inr (S, 0))
                | TCP_SYN_RCVD \<Rightarrow> andthen (ng_tcp_handle_syn_rcvd S i h) (\<lambda>(S, _). Inr (S, 0))
                | TCP_ESTABLISHED \<Rightarrow>
                    andthen (ng_tcp_handle_established m V (tcb_set S ! i) h (int (unat (htons (get16 pkt 16))) - 20)) (\<lambda>(s, _).
                    Inr (put_tcb S i s, 0))
                | TCP_CLOSE_WAIT \<Rightarrow> Inr (fst (ng_tcp_handle_close_wait S i h), 0)
                | TCP_LAST_ACK \<Rightarrow> Inr (fst (ng_tcp_handle_last_ack S i h), 0)
                | _ \<Rightarrow> Inr (S, 0)))"

section \<open>Sending\<close>

definition ng_tcp_out1 :: "mallocs \<Rightarrow> ('r, 'u, 'o) env \<Rightarrow> ('r, 'u, 'o) ustack \<Rightarrow> nat \<Rightarrow> ('r, 'u, 'o) ustack res" where
  "ng_tcp_out1 m V S i =
     (let s = tcb_set S ! i in
      if sndbuf s = None then Inr S
      else andthen (deq (tcp_api V) (sndbuf s)) (\<lambda>q.
        case q of
          None \<Rightarrow> Inr S
        | Some (r, f) \<Rightarrow>
            andthen (arp_table_instance (m 0) (arpt S)) (\<lambda>t.
            let S = S\<lparr>arpt := Some t\<rparr> in
            case ng_get_dst_macaddr t (sip s) of
              None \<Rightarrow>
                andthen (ng_send_arp (m 1) (gSrcMac V) 1 gDefaultArpMac (dip s) (sip s)) (\<lambda>pkt.
                andthen (enq (tcp_api V) r f) (\<lambda>r.
                Inr (put_tcb (emit V S pkt) i (s\<lparr>sndbuf := r\<rparr>))))
            | Some dstmac \<Rightarrow>
                andthen (ng_tcp_pkt (m 1) (sums V) (dip s) (sip s) (localmac s) dstmac f) (\<lambda>pkt.
                Inr (put_tcb (emit V S pkt) i (s\<lparr>sndbuf := r\<rparr>))))))"

fun ng_tcp_out_from :: "(nat \<Rightarrow> mallocs) \<Rightarrow> ('r, 'u, 'o) env \<Rightarrow> ('r, 'u, 'o) ustack \<Rightarrow> nat list \<Rightarrow> ('r, 'u, 'o) ustack res" where
  "ng_tcp_out_from ms V S [] = Inr S"
| "ng_tcp_out_from ms V S (i # is) = andthen (ng_tcp_out1 (ms i) V S i) (\<lambda>S. ng_tcp_out_from ms V S is)"

definition ng_tcp_out :: "(nat \<Rightarrow> mallocs) \<Rightarrow> ('r, 'u, 'o) env \<Rightarrow> ('r, 'u, 'o) ustack \<Rightarrow> ('r, 'u, 'o) ustack res" where
  "ng_tcp_out ms V S = ng_tcp_out_from ms V S [0..<length (tcb_set S)]"

section \<open>The packet loop\<close>

record packet_env =
  pk_alloc :: bool
  pk_mallocs :: mallocs
  pk_isn :: "32 word"
  pk_junk :: "32 word"

definition process_arp :: "packet_env \<Rightarrow> ('r, 'u, 'o) env \<Rightarrow> ('r, 'u, 'o) ustack \<Rightarrow> bytes \<Rightarrow> ('r, 'u, 'o) ustack res" where
  "process_arp e V S pkt =
     (let opcode = get16 pkt 20; sha = take 6 (drop 22 pkt); si = get32 pkt 28; ti = get32 pkt 38 in
      if opcode = htons 1 then
        andthen (ng_send_arp (pk_alloc e) (gSrcMac V) 2 sha ti si) (\<lambda>p. Inr (emit V S p))
      else if opcode = htons 2 then
        andthen (arp_table_instance (pk_mallocs e 0) (arpt S)) (\<lambda>t.
        Inr (S\<lparr>arpt := Some (arp_learn (pk_mallocs e 1) t si sha)\<rparr>))
      else Inr S)"

definition process_icmp :: "packet_env \<Rightarrow> ('r, 'u, 'o) env \<Rightarrow> ('r, 'u, 'o) ustack \<Rightarrow> bytes \<Rightarrow> ('r, 'u, 'o) ustack res" where
  "process_icmp e V S pkt =
     (if length pkt < 42 then Inl OutOfBounds
      else if pkt ! 34 = 8 then
        andthen (ng_send_icmp (pk_alloc e) (ipv4_cksum (sums V)) (gSrcMac V) (take 6 (drop 6 pkt))
            (get32 pkt 30) (get32 pkt 26) (get16 pkt 38) (get16 pkt 40)) (\<lambda>p. Inr (emit V S p))
      else Inr S)"

text \<open>
  The tests on the protocol that follow the call of \<^verbatim>\<open>udp_process\<close>, which has freed the packet, are shown with the value
  the packet had.
\<close>

definition pkt_process1 :: "packet_env \<Rightarrow> ('r, 'u, 'o) env \<Rightarrow> ('r, 'u, 'o) ustack \<Rightarrow> bytes \<Rightarrow> ('r, 'u, 'o) ustack res" where
  "pkt_process1 e V S pkt =
     (if length pkt < 14 then Inl OutOfBounds
      else let ether_type = get16 pkt 12 in
      if ether_type = htons 0x0806 then
        if length pkt < 42 then Inl OutOfBounds
        else if get32 pkt 38 = gLocalIp V then process_arp e V S pkt
        else Inr S
      else if ether_type \<noteq> htons 0x0800 then Inr S
      else if length pkt < 34 then Inl OutOfBounds
      else if pkt ! 23 = IPPROTO_UDP then andthen (udp_process (pk_mallocs e) V S pkt) (\<lambda>(S, _). Inr S)
      else if pkt ! 23 = IPPROTO_TCP then
        andthen (ng_tcp_process (pk_mallocs e) (pk_isn e) (pk_junk e) V S pkt) (\<lambda>(S, _). Inr S)
      else if pkt ! 23 = IPPROTO_ICMP then process_icmp e V S pkt
      else Inr S)"

fun pkt_process_all :: "packet_env list \<Rightarrow> ('r, 'u, 'o) env \<Rightarrow> ('r, 'u, 'o) ustack \<Rightarrow> bytes list \<Rightarrow> ('r, 'u, 'o) ustack res" where
  "pkt_process_all (e # es) V S (pkt # pkts) = andthen (pkt_process1 e V S pkt) (\<lambda>S. pkt_process_all es V S pkts)"
| "pkt_process_all _ V S _ = Inr S"

text \<open>One round of the loop: a burst of packets, then what the sockets have to send.\<close>

definition pkt_process :: "packet_env list \<Rightarrow> (nat \<Rightarrow> mallocs) \<Rightarrow> (nat \<Rightarrow> mallocs) \<Rightarrow> ('r, 'u, 'o) env \<Rightarrow> ('r, 'u, 'o) ustack \<Rightarrow> bytes list \<Rightarrow> ('r, 'u, 'o) ustack res" where
  "pkt_process es us ts V S pkts =
     andthen (pkt_process_all es V S pkts) (\<lambda>S.
     andthen (udp_out us V S) (\<lambda>S. ng_tcp_out ts V S))"

text \<open>The timer asks for the ten addresses x.x.x.1 to x.x.x.10.\<close>

fun arp_requests :: "(nat \<Rightarrow> mallocs) \<Rightarrow> ('r, 'u, 'o) env \<Rightarrow> ('r, 'u, 'o) ustack \<Rightarrow> nat list \<Rightarrow> ('r, 'u, 'o) ustack res" where
  "arp_requests ms V S [] = Inr S"
| "arp_requests ms V S (i # is) =
     (let dstip = (gLocalIp V AND 0x00FFFFFF) OR (0xFF000000 AND push_bit 24 (word_of_nat i)) in
      andthen (arp_table_instance (ms i 0) (arpt S)) (\<lambda>t.
      andthen (ng_send_arp (ms i 1) (gSrcMac V) 1
          (case ng_get_dst_macaddr t dstip of None \<Rightarrow> gDefaultArpMac | Some mac \<Rightarrow> mac) (gLocalIp V) dstip) (\<lambda>pkt.
      arp_requests ms V (emit V (S\<lparr>arpt := Some t\<rparr>) pkt) is)))"

definition arp_request_timer_cb :: "(nat \<Rightarrow> mallocs) \<Rightarrow> ('r, 'u, 'o) env \<Rightarrow> ('r, 'u, 'o) ustack \<Rightarrow> ('r, 'u, 'o) ustack res" where
  "arp_request_timer_cb ms V S = arp_requests ms V S [1..<11]"

section \<open>The echo server\<close>

text \<open>
  What \<^verbatim>\<open>tcp_server_entry\<close> does before its loop, and one round of its inner loop with the buffer of 1024 bytes, which is
  printed as a string; the flag is whether the loop goes on.
\<close>

definition tcp_server_setup :: "mallocs \<Rightarrow> ('r, 'u, 'o) env \<Rightarrow> ('r, 'u, 'o) ustack \<Rightarrow> ('r, 'u, 'o) ustack \<times> int" where
  "tcp_server_setup m V S =
     (case nsocket m V S SOCK_STREAM of (S, listenfd) \<Rightarrow>
       if listenfd = -1 then (S, -1)
       else (fst (nlisten (fst (nbind V S listenfd 0 (htons 9999))) listenfd), listenfd))"

definition tcp_echo_step ::
  "mallocs \<Rightarrow> ng_tcp_fragment \<Rightarrow> ('r, 'u, 'o) env \<Rightarrow> ('r, 'u, 'o) ustack \<Rightarrow> int \<Rightarrow> bytes \<Rightarrow> (('r, 'u, 'o) ustack \<times> bytes \<times> bool) call res" where
  "tcp_echo_step m junk V S connfd buff =
     andthen (nrecv V S connfd 1024) (\<lambda>c.
       case c of
         Blocked \<Rightarrow> Inr Blocked
       | Returned (S, got, n) \<Rightarrow>
           let buff = got @ drop (length got) buff in
           if 0 < n then
             if 0 \<notin> set buff \<or> int (length buff) < n then Inl OutOfBounds
             else andthen (nsend m V S connfd (take (nat n) buff)) (\<lambda>(S, _). Inr (Returned (S, buff, True)))
           else if n = 0 then andthen (nclose m junk V S connfd) (\<lambda>(S, _). Inr (Returned (S, buff, False)))
           else Inr (Returned (S, buff, True)))"

end
