(* ===== verification/Ustack_Demo.thy ===== *)
theory Ustack_Demo
  imports Ustack_Tcp
begin

text \<open>
  Concrete instances for the examples: a ring kept as a list, which meets the contract of \<^verbatim>\<open>rte_ring\<close>, the checksums,
  the configuration of the port, and a listening socket with a connection.
\<close>

definition list_ring :: "nat \<Rightarrow> ('a list, 'a) ring_api" where
  "list_ring cap = \<lparr>ring_create = [], ring_enqueue = (\<lambda>r x. if length r < cap then (r @ [x], True) else (r, False)),
     ring_dequeue = (\<lambda>r. case r of [] \<Rightarrow> None | x # xs \<Rightarrow> Some (xs, x))\<rparr>"

lemma list_ring_fifo: "fifo (list_ring cap) id cap"
  by (auto simp: fifo_def list_ring_def split: list.splits)

type_synonym demo_stack = "(ng_tcp_fragment list, offload list, bytes list) ustack"

definition demo_env :: "(ng_tcp_fragment list, offload list, bytes list) env" where
  "demo_env = \<lparr>tcp_api = list_ring 1023, udp_api = list_ring 1023, out_api = list_ring 1023,
     sums = \<lparr>ipv4_cksum = ng_checksum, udptcp_cksum = (\<lambda>ip t. ng_checksum (take 8 (drop 12 ip) @ t))\<rparr>,
     gSrcMac = [2, 0, 0, 0, 0, 1], gLocalIp = MAKE_IPV4_ADDR 192 168 0 115\<rparr>"

lemma demo_env_sel [simp]:
  "tcp_api demo_env = list_ring 1023" "udp_api demo_env = list_ring 1023" "length (gSrcMac demo_env) = 6"
  by (simp_all add: demo_env_def)

definition demo_packet_env :: packet_env where
  "demo_packet_env = \<lparr>pk_alloc = True, pk_mallocs = malloc_ok, pk_isn = 5000, pk_junk = 0\<rparr>"

lemma demo_packet_env_sel [simp]:
  "pk_alloc demo_packet_env" "pk_mallocs demo_packet_env = malloc_ok" "pk_isn demo_packet_env = 5000"
  by (simp_all add: demo_packet_env_def)

definition client_ip :: "32 word" where "client_ip = MAKE_IPV4_ADDR 192 168 0 7"
definition server_ip :: "32 word" where "server_ip = MAKE_IPV4_ADDR 192 168 0 115"

definition demo_listener :: "ng_tcp_fragment list ng_tcp_stream" where
  "demo_listener = \<lparr>fd = 3, dip = 0, localmac = gSrcMac demo_env, dport = htons 9999, protocol = IPPROTO_TCP, sport = 0, sip = 0,
     snd_nxt = 0, rcv_nxt = 0, status = TCP_LISTEN, sndbuf = Some [], rcvbuf = Some []\<rparr>"

text \<open>A connection of port 1111 of the client.\<close>

definition demo_conn :: "int \<Rightarrow> NG_TCP_STATUS \<Rightarrow> ng_tcp_fragment list \<Rightarrow> ng_tcp_fragment list ng_tcp_stream" where
  "demo_conn n st rcv = \<lparr>fd = n, dip = server_ip, localmac = gSrcMac demo_env, dport = htons 9999, protocol = IPPROTO_TCP,
     sport = 1111, sip = client_ip, snd_nxt = 5001, rcv_nxt = 101, status = st, sndbuf = Some [], rcvbuf = Some rcv\<rparr>"

definition demo_host :: "offload list localhost" where
  "demo_host = \<lparr>h_fd = 5, localip = server_ip, h_localmac = gSrcMac demo_env, localport = htons 8889, h_protocol = IPPROTO_UDP,
     h_sndbuf = Some [], h_rcvbuf = Some []\<rparr>"

definition demo_stack :: "ng_tcp_fragment list ng_tcp_stream list \<Rightarrow> demo_stack" where
  "demo_stack tcbs = \<lparr>fd_table = replicate MAX_FD_COUNT 0, lhost = [demo_host], tcb_set = tcbs,
     arpt = Some \<lparr>entries = [\<lparr>arp_ip = client_ip, hwaddr = replicate 6 7, arp_type = 0\<rparr>], arp_count = 1\<rparr>, out_ring = []\<rparr>"

lemma demo_stack_sel [simp]:
  "tcb_set (demo_stack tcbs) = tcbs" "lhost (demo_stack tcbs) = [demo_host]"
  "length (fd_table (demo_stack tcbs)) = MAX_FD_COUNT"
  by (simp_all add: demo_stack_def)

text \<open>Segments of the client, made by the encoder of the stack.\<close>

definition demo_fragment :: "byte \<Rightarrow> bytes \<Rightarrow> ng_tcp_fragment" where
  "demo_fragment fl d = blank_fragment\<lparr>fr_sport := 1111, fr_dport := htons 9999, seqnum := 100, acknum := 5001, tcp_flags := fl,
     hdrlen_off := 0x50, fr_data := Some d, fr_length := length d\<rparr>"

definition demo_segment :: "byte \<Rightarrow> bytes \<Rightarrow> bytes" where
  "demo_segment fl d = (case ng_encode_tcp_apppkt (sums demo_env) client_ip server_ip (replicate 6 7) (gSrcMac demo_env)
     (demo_fragment fl d) of Inr p \<Rightarrow> p | Inl _ \<Rightarrow> [])"

lemma demo_fragment_sel [simp]:
  "fr_sport (demo_fragment fl d) = 1111" "fr_dport (demo_fragment fl d) = htons 9999" "tcp_flags (demo_fragment fl d) = fl"
  "hdrlen_off (demo_fragment fl d) = 0x50" "optlen (demo_fragment fl d) = 0" "fr_data (demo_fragment fl d) = Some d"
  "fr_length (demo_fragment fl d) = length d"
  by (simp_all add: demo_fragment_def blank_fragment_def)

lemma demo_segment_encoded:
  assumes "length d \<le> 1994"
  shows "ng_encode_tcp_apppkt (sums demo_env) client_ip server_ip (replicate 6 7) (gSrcMac demo_env) (demo_fragment fl d)
    = Inr (demo_segment fl d)"
  using assms by (simp add: demo_segment_def ng_encode_tcp_apppkt_def Let_def tcp_total_len_def MBUF_DATAROOM_def nat_add_distrib)

lemma demo_flags [simp]:
  "has_flag TCP_SYN TCP_SYN" "has_flag TCP_ACK TCP_ACK" "has_flag TCP_FIN TCP_FIN" "\<not> has_flag TCP_FIN TCP_PSH"
  "has_flag TCP_PSH TCP_PSH" "\<not> has_flag TCP_PSH TCP_FIN"
  by (simp_all add: has_flag_def TCP_SYN_def TCP_ACK_def TCP_FIN_def TCP_PSH_def)

end
