(* ===== verification/Ustack_Inv.thy ===== *)
theory Ustack_Inv
  imports Ustack_Demo
begin

text \<open>
  An invariant of the user-space stack, one lemma per handler: connections have one control block each, the ARP table has
  one entry for an address and counts them, the descriptor bitmap has its size.
\<close>

section \<open>One control block per connection\<close>

definition same_tuple :: "'r ng_tcp_stream \<Rightarrow> 'r ng_tcp_stream \<Rightarrow> bool" where
  "same_tuple s t \<longleftrightarrow> sip s = sip t \<and> dip s = dip t \<and> sport s = sport t \<and> dport s = dport t"

text \<open>
  Behind a control block there is none of the same four-tuple that has a connection: a segment finds the connection it
  belongs to, if there is one.
\<close>

definition tcb_unique :: "'r ng_tcp_stream list \<Rightarrow> bool" where
  "tcb_unique xs \<longleftrightarrow> sorted_wrt (\<lambda>s t. same_tuple s t \<longrightarrow> status t \<in> {TCP_CLOSED, TCP_LISTEN}) xs"

definition arp_ok :: "arp_table \<Rightarrow> bool" where
  "arp_ok t \<longleftrightarrow> distinct (map arp_ip (entries t)) \<and> arp_count t = int (length (entries t))"

definition stack_inv :: "('r, 'u, 'o) ustack \<Rightarrow> bool" where
  "stack_inv S \<longleftrightarrow> tcb_unique (tcb_set S) \<and> (case arpt S of None \<Rightarrow> True | Some t \<Rightarrow> arp_ok t)
     \<and> length (fd_table S) = MAX_FD_COUNT"

lemma tcb_unique_nth:
  "tcb_unique xs \<longleftrightarrow> (\<forall>j < length xs. \<forall>i < j. same_tuple (xs ! i) (xs ! j) \<longrightarrow> status (xs ! j) \<in> {TCP_CLOSED, TCP_LISTEN})"
  unfolding tcb_unique_def sorted_wrt_iff_nth_less by blast

lemma tcb_unique_update_first:
  assumes "tcb_unique xs" "same_tuple s (xs ! i)" "\<forall>j < i. \<not> same_tuple (xs ! j) (xs ! i)"
  shows "tcb_unique (xs[i := s])"
  unfolding tcb_unique_nth
proof (intro allI impI)
  fix j k assume j: "j < length (xs[i := s])" "k < j" "same_tuple (xs[i := s] ! k) (xs[i := s] ! j)"
  show "status (xs[i := s] ! j) \<in> {TCP_CLOSED, TCP_LISTEN}"
  proof (cases "j = i")
    case True
    with j assms(2) have "same_tuple (xs ! k) (xs ! i)" by (auto simp: same_tuple_def)
    with assms(3) j True show ?thesis by auto
  next
    case False
    with j assms(2) have "same_tuple (xs ! k) (xs ! j)" by (cases "k = i") (auto simp: same_tuple_def)
    with assms(1) j False show ?thesis by (auto simp: tcb_unique_nth)
  qed
qed

lemma tcb_unique_update_same:
  assumes "tcb_unique xs" "same_tuple s (xs ! i)" "status s = status (xs ! i)"
  shows "tcb_unique (xs[i := s])"
  unfolding tcb_unique_nth
proof (intro allI impI)
  fix j k assume j: "j < length (xs[i := s])" "k < j" "same_tuple (xs[i := s] ! k) (xs[i := s] ! j)"
  have "same_tuple (xs ! k) (xs ! j)"
    using j assms(2) by (cases "k = i"; cases "j = i") (auto simp: same_tuple_def)
  with assms(1) j have "status (xs ! j) \<in> {TCP_CLOSED, TCP_LISTEN}" by (simp add: tcb_unique_nth)
  with assms(3) j show "status (xs[i := s] ! j) \<in> {TCP_CLOSED, TCP_LISTEN}" by (cases "j = i") auto
qed

lemma tcb_unique_remove:
  assumes "tcb_unique xs"
  shows "tcb_unique (remove_ix i xs)"
proof (cases "i < length xs")
  case True
  then have "xs = take i xs @ xs ! i # drop (Suc i) xs" by (rule id_take_nth_drop)
  with assms have "tcb_unique (take i xs @ xs ! i # drop (Suc i) xs)" by simp
  then show ?thesis by (simp add: tcb_unique_def remove_ix_def sorted_wrt_append)
qed (use assms in \<open>simp add: remove_ix_def\<close>)

lemma stack_inv_tcb:
  assumes "stack_inv S" "tcb_unique xs"
  shows "stack_inv (S\<lparr>tcb_set := xs\<rparr>)"
  using assms by (simp add: stack_inv_def)

section \<open>The handlers\<close>

lemma search_cases:
  assumes "ng_tcp_stream_search S si di sp dp = Some i"
  shows "(i < length (tcb_set S) \<and> sip (tcb_set S ! i) = si \<and> dip (tcb_set S ! i) = di \<and> sport (tcb_set S ! i) = sp
        \<and> dport (tcb_set S ! i) = dp \<and> (\<forall>j < i. \<not> same_tuple (tcb_set S ! j) (tcb_set S ! i)))
    \<or> (status (tcb_set S ! i) = TCP_LISTEN
        \<and> (\<forall>s \<in> set (tcb_set S). \<not> (sip s = si \<and> dip s = di \<and> sport s = sp \<and> dport s = dp)))"
  using assms unfolding ng_tcp_stream_search_def
  by (auto simp: find_ix_Some find_ix_None same_tuple_def split: option.splits)

lemma tcb_unique_new:
  assumes "tcb_unique (tcb_set S)" "ng_tcp_stream_search S si di sp dp = Some i" "status (tcb_set S ! i) = TCP_LISTEN"
    and c: "sip c = si" "dip c = di" "sport c = sp" "dport c = dp"
  shows "tcb_unique (c # tcb_set S)"
proof -
  have "status x \<in> {TCP_CLOSED, TCP_LISTEN}" if x: "x \<in> set (tcb_set S)" "same_tuple c x" for x
  proof -
    obtain k where k: "k < length (tcb_set S)" "x = tcb_set S ! k" using x(1) by (auto simp: in_set_conv_nth)
    have i: "same_tuple (tcb_set S ! i) x" "\<forall>j < i. \<not> same_tuple (tcb_set S ! j) (tcb_set S ! i)"
      using search_cases [OF assms(2)] x c by (auto simp: same_tuple_def)
    then have "i \<le> k" using k by (auto simp: same_tuple_def not_le [symmetric])
    then consider "i = k" | "i < k" by linarith
    then show ?thesis
      using i(1) k assms(3) assms(1) [unfolded tcb_unique_nth, rule_format, of k i] by cases simp_all
  qed
  with assms(1) show ?thesis by (auto simp: tcb_unique_def)
qed

lemma handle_listen_inv:
  assumes "stack_inv S" "ng_tcp_stream_search S si di (src_port h) (dst_port h) = Some i"
    "ng_tcp_handle_listen m isn junk V S i h si di = Inr (S', r)"
  shows "stack_inv S'"
proof (cases "has_flag (flags h) TCP_SYN \<and> status (tcb_set S ! i) = TCP_LISTEN")
  case True
  then have new: "stack_inv (S\<lparr>tcb_set := c # tcb_set S\<rparr>)"
    if "sip c = si" "dip c = di" "sport c = src_port h" "dport c = dst_port h" for c
    using that assms(1,2) by (intro stack_inv_tcb tcb_unique_new) (auto simp: stack_inv_def)
  from True assms(3) show ?thesis
    by (auto simp: ng_tcp_handle_listen_def ng_tcp_stream_create_def andthen_eq_Inr Let_def split: if_splits intro!: new)
qed (use assms in \<open>auto simp: ng_tcp_handle_listen_def\<close>)

lemma stack_inv_put_first:
  assumes "stack_inv S" "ng_tcp_stream_search S si di sp dp = Some i" "status (tcb_set S ! i) \<noteq> TCP_LISTEN"
    "same_tuple s (tcb_set S ! i)"
  shows "stack_inv (put_tcb S i s)"
  using assms search_cases [OF assms(2)] unfolding put_tcb_def
  by (intro stack_inv_tcb tcb_unique_update_first) (auto simp: stack_inv_def)

lemma enqueue_recvbuffer_tuple: "ng_tcp_enqueue_recvbuffer m V s h n = Inr (s', r) \<Longrightarrow> same_tuple s' s"
  by (auto simp: ng_tcp_enqueue_recvbuffer_def andthen_eq_Inr same_tuple_def Let_def split: if_splits)

lemma send_ackpkt_tuple: "ng_tcp_send_ackpkt alloc V s h = Inr (s', r) \<Longrightarrow> same_tuple s' s"
  by (auto simp: ng_tcp_send_ackpkt_def andthen_eq_Inr same_tuple_def split: if_splits)

lemma established_psh_tuple: "established_psh m V s h n = Inr s' \<Longrightarrow> same_tuple s' s"
  unfolding established_psh_def
  by (fastforce simp: andthen_eq_Inr same_tuple_def split: if_splits
      dest!: enqueue_recvbuffer_tuple send_ackpkt_tuple)

lemma established_fin_tuple: "established_fin m V s h = Inr s' \<Longrightarrow> same_tuple s' s"
  unfolding established_fin_def
  by (fastforce simp: andthen_eq_Inr same_tuple_def split: if_splits
      dest!: enqueue_recvbuffer_tuple send_ackpkt_tuple)

lemma established_tuple:
  "ng_tcp_handle_established m V s h n = Inr (s', r) \<Longrightarrow> same_tuple s' s"
  by (auto simp: ng_tcp_handle_established_def andthen_eq_Inr same_tuple_def
      dest!: established_psh_tuple established_fin_tuple)

lemma handle_syn_rcvd_inv:
  assumes "stack_inv S" "ng_tcp_stream_search S si di sp dp = Some i" "ng_tcp_handle_syn_rcvd S i h = Inr (S', r)"
  shows "stack_inv S'"
proof (cases "has_flag (flags h) TCP_ACK \<and> status (tcb_set S ! i) = TCP_SYN_RCVD")
  case True
  then have "stack_inv (put_tcb S i ((tcb_set S ! i)\<lparr>status := TCP_ESTABLISHED\<rparr>))"
    by (intro stack_inv_put_first [OF assms(1,2)]) (auto simp: same_tuple_def)
  with True assms(3) show ?thesis by (auto simp: ng_tcp_handle_syn_rcvd_def Let_def split: option.splits)
qed (use assms in \<open>auto simp: ng_tcp_handle_syn_rcvd_def Let_def\<close>)

lemma handle_last_ack_inv:
  assumes "stack_inv S"
  shows "stack_inv (fst (ng_tcp_handle_last_ack S i h))"
  using stack_inv_tcb [OF assms tcb_unique_remove] assms by (auto simp: ng_tcp_handle_last_ack_def stack_inv_def)

lemma ng_tcp_process_inv:
  assumes inv: "stack_inv S" and p: "ng_tcp_process m isn junk V S pkt = Inr (S', r)"
  shows "stack_inv S'"
proof -
  define h si di where "h = tcp_hdr_of (clear_cksum pkt)" and "si = get32 (clear_cksum pkt) 26"
    and "di = get32 (clear_cksum pkt) 30"
  note defs = h_def [symmetric] si_def [symmetric] di_def [symmetric]
  consider "S' = S" | i where "ng_tcp_stream_search S si di (src_port h) (dst_port h) = Some i" "S' \<noteq> S"
    using p by (auto simp: ng_tcp_process_def Let_def defs split: if_splits option.splits)
  then show ?thesis
  proof cases
    case (2 i)
    note p' = p [unfolded ng_tcp_process_def Let_def defs 2 option.case]
    show ?thesis
    proof (cases "status (tcb_set S ! i)")
      case TCP_LISTEN
      with p' 2 show ?thesis by (auto simp: andthen_eq_Inr split: if_splits intro: handle_listen_inv [OF inv 2(1)])
    next
      case TCP_SYN_RCVD
      with p' 2 show ?thesis by (auto simp: andthen_eq_Inr split: if_splits intro: handle_syn_rcvd_inv [OF inv 2(1)])
    next
      case TCP_ESTABLISHED
      with p' 2 show ?thesis
        by (auto simp: andthen_eq_Inr split: if_splits intro!: stack_inv_put_first [OF inv 2(1)] established_tuple)
    next
      case TCP_LAST_ACK
      with p' 2 show ?thesis using handle_last_ack_inv [OF inv, of i h] by (auto split: if_splits)
    qed (use p' 2 inv in \<open>auto simp: ng_tcp_handle_close_wait_def split: if_splits\<close>)
  qed (use inv in simp)
qed

section \<open>The ARP table\<close>

lemma mac_of_None: "mac_of es ip = None \<longleftrightarrow> ip \<notin> arp_ip ` set es"
  by (induction es) auto

lemma arp_learn_ok: "arp_ok t \<Longrightarrow> arp_ok (arp_learn alloc t ip mac)"
  by (auto simp: arp_learn_def arp_ok_def ng_get_dst_macaddr_def mac_of_None image_iff)

lemma arp_instance_inv:
  assumes "stack_inv S" "arp_table_instance alloc (arpt S) = Inr t"
  shows "arp_ok t" "stack_inv (S\<lparr>arpt := Some t\<rparr>)"
  using assms by (auto simp: stack_inv_def arp_table_instance_def arp_ok_def split: option.splits if_splits)

text \<open>Changes of the rings and of the UDP hosts do not matter.\<close>

lemma stack_inv_frame [simp]:
  "stack_inv (emit V S pkt) \<longleftrightarrow> stack_inv S" "stack_inv (put_host S i h) \<longleftrightarrow> stack_inv S"
  by (simp_all add: stack_inv_def emit_def put_host_def)

lemma tcb_emit [simp]: "tcb_set (emit V S pkt) = tcb_set S" "put_tcb (emit V S pkt) i s = emit V (put_tcb S i s) pkt"
  by (simp_all add: emit_def put_tcb_def)

section \<open>The packet loop\<close>

lemma process_arp_inv:
  assumes "stack_inv S" "process_arp e V S pkt = Inr S'"
  shows "stack_inv S'"
  using assms arp_learn_ok
  by (auto simp: process_arp_def Let_def andthen_eq_Inr stack_inv_def arp_table_instance_def arp_ok_def emit_def
      split: if_splits option.splits dest: arp_instance_inv)

lemma process_icmp_inv:
  assumes "stack_inv S" "process_icmp e V S pkt = Inr S'"
  shows "stack_inv S'"
  using assms by (auto simp: process_icmp_def andthen_eq_Inr split: if_splits)

lemma udp_process_inv:
  assumes "stack_inv S" "udp_process m V S pkt = Inr (S', r)"
  shows "stack_inv S'"
  using assms by (auto simp: udp_process_def Let_def andthen_eq_Inr split: if_splits option.splits)

lemma pkt_process1_inv:
  assumes "stack_inv S" "pkt_process1 e V S pkt = Inr S'"
  shows "stack_inv S'"
  using assms
  by (auto simp: pkt_process1_def Let_def andthen_eq_Inr split: if_splits
      intro: process_arp_inv process_icmp_inv udp_process_inv ng_tcp_process_inv)

lemma pkt_process_all_inv:
  assumes "stack_inv S" "pkt_process_all es V S pkts = Inr S'"
  shows "stack_inv S'"
  using assms
  by (induction es V S pkts rule: pkt_process_all.induct) (auto simp: andthen_eq_Inr dest: pkt_process1_inv)

lemma udp_out1_inv:
  assumes "stack_inv S" "udp_out1 m V S i = Inr S'"
  shows "stack_inv S'"
  using assms
    arp_instance_inv(2) [OF assms(1)]
  by (fastforce simp: udp_out1_def Let_def andthen_eq_Inr split: if_splits option.splits)

lemma udp_out_from_inv:
  assumes "stack_inv S" "udp_out_from ms V S is = Inr S'"
  shows "stack_inv S'"
  using assms by (induction "is" arbitrary: S) (auto simp: andthen_eq_Inr dest: udp_out1_inv)

lemma ng_tcp_out1_inv:
  assumes inv: "stack_inv S" and o1: "ng_tcp_out1 m V S i = Inr S'"
  shows "stack_inv S'"
proof -
  have put: "stack_inv (put_tcb S1 i ((tcb_set S ! i)\<lparr>sndbuf := r\<rparr>))"
    if "stack_inv S1" "tcb_set S1 = tcb_set S" for S1 :: "('a, 'b, 'c) ustack" and r
    using that unfolding put_tcb_def
    by (intro stack_inv_tcb tcb_unique_update_same) (auto simp: stack_inv_def same_tuple_def)
  from o1 inv show ?thesis
    by (auto simp: ng_tcp_out1_def Let_def andthen_eq_Inr split: if_splits option.splits
        intro!: put arp_instance_inv(2))
qed

lemma ng_tcp_out_from_inv:
  assumes "stack_inv S" "ng_tcp_out_from ms V S is = Inr S'"
  shows "stack_inv S'"
  using assms by (induction "is" arbitrary: S) (auto simp: andthen_eq_Inr dest: ng_tcp_out1_inv)

lemma arp_requests_inv:
  assumes "stack_inv S" "arp_requests ms V S is = Inr S'"
  shows "stack_inv S'"
  using assms
proof (induction "is" arbitrary: S)
  case (Cons i "is")
  then obtain t pkt where "arp_table_instance (ms i 0) (arpt S) = Inr t"
    "arp_requests ms V (emit V (S\<lparr>arpt := Some t\<rparr>) pkt) is = Inr S'"
    by (auto simp: andthen_eq_Inr Let_def)
  with Cons.IH [OF _ this(2)] arp_instance_inv(2) [OF Cons.prems(1) this(1)] show ?case by simp
qed simp

text \<open>The worker thread and the timer, in any order.\<close>

inductive stack_reach :: "('r, 'u, 'o) env \<Rightarrow> ('r, 'u, 'o) ustack \<Rightarrow> ('r, 'u, 'o) ustack \<Rightarrow> bool" for V S0 where
  start: "stack_reach V S0 S0"
| packets: "stack_reach V S0 S \<Longrightarrow> pkt_process es us ts V S pkts = Inr S' \<Longrightarrow> stack_reach V S0 S'"
| timer: "stack_reach V S0 S \<Longrightarrow> arp_request_timer_cb ms V S = Inr S' \<Longrightarrow> stack_reach V S0 S'"

lemma stack_reach_inv:
  assumes "stack_reach V S0 S" "stack_inv S0"
  shows "stack_inv S"
  using assms
proof (induction rule: stack_reach.induct)
  case (packets S es us ts pkts S')
  then obtain S1 S2 where "pkt_process_all es V S pkts = Inr S1" "udp_out us V S1 = Inr S2" "ng_tcp_out ts V S2 = Inr S'"
    by (auto simp: pkt_process_def andthen_eq_Inr)
  with packets.IH [OF packets.prems] show ?case
    unfolding udp_out_def ng_tcp_out_def by (metis pkt_process_all_inv udp_out_from_inv ng_tcp_out_from_inv)
next
  case (timer S ms S')
  then show ?case by (auto simp: arp_request_timer_cb_def dest: arp_requests_inv)
qed

lemma tcb_unique_search:
  assumes "tcb_unique (tcb_set S)" "j < length (tcb_set S)" "status (tcb_set S ! j) \<notin> {TCP_CLOSED, TCP_LISTEN}"
  shows "ng_tcp_stream_search S (sip (tcb_set S ! j)) (dip (tcb_set S ! j)) (sport (tcb_set S ! j)) (dport (tcb_set S ! j)) = Some j"
proof -
  let ?s = "tcb_set S ! j"
  have "\<not> same_tuple (tcb_set S ! i) ?s" if "i < j" for i
    using assms(1) [unfolded tcb_unique_nth] assms(2,3) that by blast
  then have "find_ix (\<lambda>s. sip s = sip ?s \<and> dip s = dip ?s \<and> sport s = sport ?s \<and> dport s = dport ?s) (tcb_set S) = Some j"
    unfolding find_ix_Some using assms(2) by (auto simp: same_tuple_def)
  then show ?thesis by (simp add: ng_tcp_stream_search_def)
qed

text \<open>
  C11: from a state in which it holds, every run of the worker thread over any packets, with the timer in between and
  whichever allocations fail, keeps the invariant: the segments of a connection that is being opened, open or being closed
  are matched to its own control block, of which there is only one, the ARP table has at most one entry for an address and
  its counter is the number of entries.
\<close>

theorem stack_run_invariant:
  assumes "stack_reach V S0 S" "stack_inv S0"
  shows "stack_inv S \<and> (\<forall>j < length (tcb_set S). status (tcb_set S ! j) \<notin> {TCP_CLOSED, TCP_LISTEN} \<longrightarrow>
    ng_tcp_stream_search S (sip (tcb_set S ! j)) (dip (tcb_set S ! j)) (sport (tcb_set S ! j)) (dport (tcb_set S ! j)) = Some j)"
  using stack_reach_inv [OF assms] tcb_unique_search [of S] by (simp add: stack_inv_def)

lemma demo_stack_inv: "stack_inv (demo_stack [demo_listener])"
  by (simp add: stack_inv_def tcb_unique_def) (simp add: demo_stack_def arp_ok_def)

theorem stack_run_invariant_witness:
  "\<exists>S. pkt_process [demo_packet_env] (\<lambda>_. malloc_ok) (\<lambda>_. malloc_ok) demo_env (demo_stack [demo_listener]) [replicate 60 0] = Inr S
    \<and> stack_inv S"
proof -
  have e: "get16 (replicate 60 0) 12 = 0" by (simp add: get16_def)
  have "pkt_process1 demo_packet_env demo_env (demo_stack [demo_listener]) (replicate 60 0) = Inr (demo_stack [demo_listener])"
    by (simp add: pkt_process1_def e htons_def raw16_def get16_def)
  then have "pkt_process [demo_packet_env] (\<lambda>_. malloc_ok) (\<lambda>_. malloc_ok) demo_env (demo_stack [demo_listener]) [replicate 60 0]
      = Inr (demo_stack [demo_listener])"
    by (simp add: pkt_process_def udp_out_def udp_out1_def ng_tcp_out_def ng_tcp_out1_def deq_def demo_host_def demo_listener_def
        list_ring_def)
  then show ?thesis
    using stack_run_invariant [OF stack_reach.packets [OF stack_reach.start] demo_stack_inv] by blast
qed

end
