(* ===== verification/Ustack_Tcp_Props.thy ===== *)
theory Ustack_Tcp_Props
  imports Ustack_Demo
begin

text \<open>
  What the TCP half of the stack does with the segments of a connection: the encoder and the parser agree, the handshake
  opens a connection, data is queued in order and acknowledged, reading delivers it, and a connection is closed by its
  peer. The rings meet the contract of \<^verbatim>\<open>rte_ring\<close>; sequence numbers wrap.
\<close>

section \<open>Segments as the receiver sees them\<close>

text \<open>
  A packet that passes the tests up to the state machine: a TCP packet over IPv4 whose checksum field is what the
  receiver computes, from \<open>si\<close> to \<open>di\<close>, with the header \<open>h\<close> and \<open>n\<close> bytes of TCP.
\<close>

definition incoming :: "('r, 'u, 'o) env \<Rightarrow> 32 word \<Rightarrow> 32 word \<Rightarrow> tcp_hdr \<Rightarrow> nat \<Rightarrow> bytes \<Rightarrow> bool" where
  "incoming V si di h n pkt \<longleftrightarrow>
     54 \<le> length pkt \<and> get16 pkt 12 = htons 0x0800 \<and> pkt ! 23 = IPPROTO_TCP
     \<and> get16 pkt 50 = udptcp_cksum (sums V) (take 20 (drop 14 (clear_cksum pkt))) (drop 34 (clear_cksum pkt))
     \<and> get32 pkt 26 = si \<and> get32 pkt 30 = di \<and> unat (htons (get16 pkt 16)) = n + 20
     \<and> tcp_hdr_of (clear_cksum pkt) = h"

text \<open>The header of a fragment, as it arrives.\<close>

definition hdr_of_fragment :: "ng_tcp_fragment \<Rightarrow> tcp_hdr" where
  "hdr_of_fragment f = \<lparr>src_port = fr_sport f, dst_port = fr_dport f, sent_seq = htonl (seqnum f),
     recv_ack = htonl (acknum f), data_off = hdrlen_off f, flags = tcp_flags f,
     segment = tcp_head f 0 @ (case fr_data f of None \<Rightarrow> [] | Some d \<Rightarrow> take (fr_length f) d)\<rparr>"

lemma encoded_layout:
  assumes enc: "ng_encode_tcp_apppkt ck si di smac dmac f = Inr pkt" and mac: "length smac = 6" "length dmac = 6"
    and opt: "optlen f = 0" and data: "fr_data f = None \<Longrightarrow> fr_length f = 0"
  obtains ip c d where "pkt = ether_hdr dmac smac 0x0800 @ ip @ tcp_head f c @ d"
    "ip = ipv4_hdr (ipv4_cksum ck) (word_of_nat (40 + fr_length f)) 6 si di"
    "c = udptcp_cksum ck ip (tcp_head f 0 @ d)" "d = (case fr_data f of None \<Rightarrow> [] | Some d \<Rightarrow> take (fr_length f) d)"
    "length d = fr_length f" "fr_length f \<le> 1994"
proof -
  let ?d = "case fr_data f of None \<Rightarrow> [] | Some d \<Rightarrow> take (fr_length f) d"
  have b: "tcp_bytes f c = tcp_head f c @ ?d" for c using opt by (simp add: tcp_bytes_def tcp_head_def)
  have small: "fr_length f \<le> 1994"
    using enc opt data by (auto simp: ng_encode_tcp_apppkt_def Let_def MBUF_DATAROOM_def split: if_splits option.splits)
  then have n: "tcp_total_len f = 54 + fr_length f" using opt by (simp add: tcp_total_len_def nat_add_distrib)
  have ld: "length ?d = fr_length f"
    using enc data by (auto simp: ng_encode_tcp_apppkt_def Let_def split: if_splits option.splits)
  define ip where "ip = ipv4_hdr (ipv4_cksum ck) (word_of_nat (40 + fr_length f)) 6 si di"
  have "pkt = ether_hdr dmac smac 0x0800 @ ip @ tcp_head f (udptcp_cksum ck ip (tcp_head f 0 @ ?d)) @ ?d"
    using enc ld by (auto simp: ng_encode_tcp_apppkt_def Let_def n b ip_def split: if_splits)
  then show thesis using ip_def ld small by (intro that) auto
qed

lemma encoded_incoming:
  assumes enc: "ng_encode_tcp_apppkt (sums V) si di smac dmac f = Inr pkt" and mac: "length smac = 6" "length dmac = 6"
    and opt: "optlen f = 0" and data: "fr_data f = None \<longrightarrow> fr_length f = 0"
  shows "incoming V si di (hdr_of_fragment f) (20 + fr_length f) pkt"
proof -
  obtain ip c d where pkt: "pkt = ether_hdr dmac smac 0x0800 @ ip @ tcp_head f c @ d"
    and ip: "ip = ipv4_hdr (ipv4_cksum (sums V)) (word_of_nat (40 + fr_length f)) 6 si di"
    and c: "c = udptcp_cksum (sums V) ip (tcp_head f 0 @ d)"
    and d: "d = (case fr_data f of None \<Rightarrow> [] | Some d \<Rightarrow> take (fr_length f) d)"
    and len: "length d = fr_length f" "fr_length f \<le> 1994"
    using encoded_layout [OF enc mac opt] data by metis
  have lip: "length ip = 20" by (simp add: ip)
  have clear: "clear_cksum pkt = ether_hdr dmac smac 0x0800 @ ip @ tcp_head f 0 @ d"
    using mac lip tcp_head_clear [of f c] by (simp add: pkt clear_cksum_def list_update_append)
  show ?thesis
    unfolding incoming_def
  proof (intro conjI)
    show "54 \<le> length pkt" using mac lip by (simp add: pkt)
    show "get16 pkt 12 = htons 0x0800" using mac by (simp add: pkt ether_hdr_def)
    show "pkt ! 23 = IPPROTO_TCP" using mac by (simp add: pkt nth_append ip ipv4_hdr_fields IPPROTO_TCP_def)
    show "get16 pkt 50 = udptcp_cksum (sums V) (take 20 (drop 14 (clear_cksum pkt))) (drop 34 (clear_cksum pkt))"
      using mac lip by (simp add: clear c) (simp add: pkt tcp_head_fields c)
    show "get32 pkt 26 = si" "get32 pkt 30 = di" using mac by (simp_all add: pkt ip ipv4_hdr_fields)
    show "unat (htons (get16 pkt 16)) = 20 + fr_length f + 20"
      using mac len by (simp add: pkt ip ipv4_hdr_fields unat_of_nat del: of_nat_add)
    show "tcp_hdr_of (clear_cksum pkt) = hdr_of_fragment f"
      using mac lip by (simp add: clear tcp_hdr_of_def hdr_of_fragment_def tcp_head_fields nth_append d)
  qed
qed

text \<open>
  C17: a segment built by the encoder passes the receiver's checksum test and is read back with the ports, the sequence and
  acknowledgement numbers, the flags and the payload it was built from; its length is the 20 bytes of the header and the
  payload.
\<close>

theorem tcp_segment_roundtrip:
  assumes "ng_encode_tcp_apppkt (sums V) si di smac dmac f = Inr pkt" "length smac = 6" "length dmac = 6"
    and "optlen f = 0" "fr_data f = None \<longrightarrow> fr_length f = 0"
  shows "incoming V si di (hdr_of_fragment f) (20 + fr_length f) pkt"
  using encoded_incoming [OF assms] .

theorem tcp_segment_roundtrip_witness:
  "incoming demo_env client_ip server_ip (hdr_of_fragment (demo_fragment TCP_PSH [104, 105])) 22 (demo_segment TCP_PSH [104, 105])"
  using tcp_segment_roundtrip [OF demo_segment_encoded, of "[104, 105]" TCP_PSH] by simp

lemma demo_incoming:
  assumes "length d \<le> 1994"
  shows "incoming demo_env client_ip server_ip (hdr_of_fragment (demo_fragment fl d)) (20 + length d) (demo_segment fl d)"
  using encoded_incoming [OF demo_segment_encoded [OF assms], of fl] by simp

lemma hdr_of_fragment_sel [simp]:
  "src_port (hdr_of_fragment f) = fr_sport f" "dst_port (hdr_of_fragment f) = fr_dport f" "flags (hdr_of_fragment f) = tcp_flags f"
  "data_off (hdr_of_fragment f) = hdrlen_off f"
  by (simp_all add: hdr_of_fragment_def)

section \<open>The state machine on an incoming segment\<close>

lemma get_clear_cksum [simp]:
  "i + 1 < 50 \<Longrightarrow> get16 (clear_cksum pkt) i = get16 pkt i" "i + 3 < 50 \<Longrightarrow> get32 (clear_cksum pkt) i = get32 pkt i"
  by (simp_all add: clear_cksum_def get16_def get32_def)

definition tcp_dispatch ::
  "mallocs \<Rightarrow> 32 word \<Rightarrow> 32 word \<Rightarrow> ('r, 'u, 'o) env \<Rightarrow> ('r, 'u, 'o) ustack \<Rightarrow> 32 word \<Rightarrow> 32 word \<Rightarrow> tcp_hdr \<Rightarrow> nat \<Rightarrow>
    nat \<Rightarrow> ('r, 'u, 'o) ustack res" where
  "tcp_dispatch m isn junk V S si di h n i =
     (case status (tcb_set S ! i) of
        TCP_LISTEN \<Rightarrow> andthen (ng_tcp_handle_listen m isn junk V S i h si di) (\<lambda>(S, _). Inr S)
      | TCP_SYN_RCVD \<Rightarrow> andthen (ng_tcp_handle_syn_rcvd S i h) (\<lambda>(S, _). Inr S)
      | TCP_ESTABLISHED \<Rightarrow> andthen (ng_tcp_handle_established m V (tcb_set S ! i) h (int n)) (\<lambda>(s, _). Inr (put_tcb S i s))
      | TCP_LAST_ACK \<Rightarrow> Inr (fst (ng_tcp_handle_last_ack S i h))
      | _ \<Rightarrow> Inr S)"

lemma pkt_process1_incoming:
  assumes "incoming V si di h n pkt" "ng_tcp_stream_search S si di (src_port h) (dst_port h) = Some i"
  shows "pkt_process1 e V S pkt = tcp_dispatch (pk_mallocs e) (pk_isn e) (pk_junk e) V S si di h n i"
proof -
  have p: "pkt_process1 e V S pkt
      = andthen (ng_tcp_process (pk_mallocs e) (pk_isn e) (pk_junk e) V S pkt) (\<lambda>(S, _). Inr S)"
    using assms(1) by (auto simp: incoming_def pkt_process1_def Let_def IPPROTO_TCP_def IPPROTO_UDP_def)
  show ?thesis
    using assms unfolding p by (auto simp: ng_tcp_process_def incoming_def tcp_dispatch_def andthen_assoc
        ng_tcp_handle_close_wait_def case_prod_unfold Let_def split: NG_TCP_STATUS.splits)
qed

section \<open>Opening a connection\<close>

lemma search_exact:
  assumes "i < length (tcb_set S)" "sip (tcb_set S ! i) = si \<and> dip (tcb_set S ! i) = di \<and> sport (tcb_set S ! i) = sp
      \<and> dport (tcb_set S ! i) = dp"
    "\<forall>j < i. \<not> (sip (tcb_set S ! j) = si \<and> dip (tcb_set S ! j) = di \<and> sport (tcb_set S ! j) = sp \<and> dport (tcb_set S ! j) = dp)"
  shows "ng_tcp_stream_search S si di sp dp = Some i"
proof -
  have "find_ix (\<lambda>s. sip s = si \<and> dip s = di \<and> sport s = sp \<and> dport s = dp) (tcb_set S) = Some i"
    unfolding find_ix_Some using assms by blast
  then show ?thesis by (simp add: ng_tcp_stream_search_def)
qed

lemma search_listener:
  assumes "s \<in> set (tcb_set S)" "dport s = dp" "status s = TCP_LISTEN"
  obtains i where "ng_tcp_stream_search S si di sp dp = Some i"
proof (cases "ng_tcp_stream_search S si di sp dp")
  case None
  with assms show thesis by (auto simp: ng_tcp_stream_search_def find_ix_None split: option.splits)
qed

lemma search_fresh:
  assumes "\<forall>s \<in> set (tcb_set S). \<not> (sip s = si \<and> dip s = di \<and> sport s = sp \<and> dport s = dp)"
    "s \<in> set (tcb_set S)" "dport s = dp" "status s = TCP_LISTEN"
  obtains i where "ng_tcp_stream_search S si di sp dp = Some i" "status (tcb_set S ! i) = TCP_LISTEN"
proof -
  obtain i where i: "ng_tcp_stream_search S si di sp dp = Some i" by (rule search_listener [OF assms(2-4)])
  have "find_ix (\<lambda>s. sip s = si \<and> dip s = di \<and> sport s = sp \<and> dport s = dp) (tcb_set S) = None"
    using assms(1) by (simp add: find_ix_None)
  with i show thesis by (intro that) (auto simp: ng_tcp_stream_search_def find_ix_Some)
qed

text \<open>The segment that answers a SYN.\<close>

definition synack :: "tcp_hdr \<Rightarrow> 32 word \<Rightarrow> ng_tcp_fragment" where
  "synack h isn = blank_fragment\<lparr>fr_sport := dst_port h, fr_dport := src_port h, seqnum := isn,
     acknum := htonl (sent_seq h) + 1, tcp_flags := TCP_SYN OR TCP_ACK, windows := TCP_INITIAL_WINDOW, hdrlen_off := 0x50\<rparr>"

text \<open>
  C9: a SYN to a port with a listener, from a peer without a control block, makes one control block in SYN_RCVD, with the
  peer's sequence number plus one (modulo 2^32) as the next expected and a SYN|ACK queued; the peer's ACK moves it to
  ESTABLISHED. Nothing else of the stack changes.
\<close>

theorem tcp_handshake:
  assumes ring: "fifo (tcp_api V) items cap" "0 < cap"
    and listener: "s \<in> set (tcb_set S)" "dport s = dst_port h" "status s = TCP_LISTEN"
    and fresh: "\<forall>s \<in> set (tcb_set S). \<not> (sip s = si \<and> dip s = di \<and> sport s = src_port h \<and> dport s = dst_port h)"
    and syn: "incoming V si di h n pkt" "has_flag (flags h) TCP_SYN"
    and ack: "incoming V si di h' n' pkt'" "has_flag (flags h') TCP_ACK" "src_port h' = src_port h" "dst_port h' = dst_port h"
    and mem: "pk_mallocs e = malloc_ok"
  shows "\<exists>c. pkt_process1 e V S pkt = Inr (S\<lparr>tcb_set := c # tcb_set S\<rparr>)
    \<and> status c = TCP_SYN_RCVD \<and> fd c = -1 \<and> (sip c, dip c, sport c, dport c) = (si, di, src_port h, dst_port h)
    \<and> snd_nxt c = pk_isn e \<and> rcv_nxt c = htonl (sent_seq h) + 1
    \<and> queue items (sndbuf c) = [synack h (pk_isn e)] \<and> queue items (rcvbuf c) = []
    \<and> pkt_process_all [e, e'] V S [pkt, pkt'] = Inr (S\<lparr>tcb_set := c\<lparr>status := TCP_ESTABLISHED\<rparr> # tcb_set S\<rparr>)"
proof -
  obtain i where i: "ng_tcp_stream_search S si di (src_port h) (dst_port h) = Some i" "status (tcb_set S ! i) = TCP_LISTEN"
    by (rule search_fresh [OF fresh listener])
  obtain r where r: "enq (tcp_api V) (Some (ring_create (tcp_api V))) (synack h (pk_isn e)) = Inr (Some r)"
    "items r = [synack h (pk_isn e)]"
    by (rule fifo_enq [OF ring(1), of "Some (ring_create (tcp_api V))" "synack h (pk_isn e)"])
      (use ring(2) fifo_create [OF ring(1)] in simp_all)
  define c where "c = \<lparr>fd = -1, dip = di, localmac = gSrcMac V, dport = dst_port h, protocol = IPPROTO_TCP, sport = src_port h,
    sip = si, snd_nxt = pk_isn e, rcv_nxt = htonl (sent_seq h) + 1, status = TCP_SYN_RCVD, sndbuf = Some r,
    rcvbuf = Some (ring_create (tcp_api V))\<rparr>"
  have p1: "pkt_process1 e V S pkt = Inr (S\<lparr>tcb_set := c # tcb_set S\<rparr>)"
    using r(1) syn(2) i mem by (simp add: pkt_process1_incoming [OF syn(1) i(1)] tcp_dispatch_def ng_tcp_handle_listen_def
        ng_tcp_stream_create_def synack_def c_def)
  have i2: "ng_tcp_stream_search (S\<lparr>tcb_set := c # tcb_set S\<rparr>) si di (src_port h') (dst_port h') = Some 0"
    using ack(3,4) by (intro search_exact) (simp_all add: c_def)
  obtain j where j: "ng_tcp_stream_search (S\<lparr>tcb_set := c\<lparr>status := TCP_ESTABLISHED\<rparr> # tcb_set S\<rparr>) 0 0 0 (dst_port h) = Some j"
    by (rule search_listener [of s "S\<lparr>tcb_set := c\<lparr>status := TCP_ESTABLISHED\<rparr> # tcb_set S\<rparr>" "dst_port h" 0 0 0])
      (use listener in simp_all)
  have "pkt_process1 e' V (S\<lparr>tcb_set := c # tcb_set S\<rparr>) pkt' = Inr (S\<lparr>tcb_set := c\<lparr>status := TCP_ESTABLISHED\<rparr> # tcb_set S\<rparr>)"
    unfolding pkt_process1_incoming [OF ack(1) i2]
    using ack(2) j by (simp add: tcp_dispatch_def ng_tcp_handle_syn_rcvd_def put_tcb_def c_def)
  with p1 r(2) fifo_create [OF ring(1)] show ?thesis by (intro exI [of _ c]) (simp add: c_def)
qed

theorem tcp_handshake_witness:
  "\<exists>c. pkt_process1 demo_packet_env demo_env (demo_stack [demo_listener]) (demo_segment TCP_SYN [])
      = Inr ((demo_stack [demo_listener])\<lparr>tcb_set := c # [demo_listener]\<rparr>) \<and> status c = TCP_SYN_RCVD
    \<and> pkt_process_all [demo_packet_env, demo_packet_env] demo_env (demo_stack [demo_listener])
        [demo_segment TCP_SYN [], demo_segment TCP_ACK []]
      = Inr ((demo_stack [demo_listener])\<lparr>tcb_set := c\<lparr>status := TCP_ESTABLISHED\<rparr> # [demo_listener]\<rparr>)"
proof -
  have l: "demo_listener \<in> set (tcb_set (demo_stack [demo_listener]))"
    "dport demo_listener = dst_port (hdr_of_fragment (demo_fragment TCP_SYN []))" "status demo_listener = TCP_LISTEN"
    by (simp_all add: demo_listener_def)
  have syn: "incoming demo_env client_ip server_ip (hdr_of_fragment (demo_fragment TCP_SYN [])) 20 (demo_segment TCP_SYN [])"
    and ack: "incoming demo_env client_ip server_ip (hdr_of_fragment (demo_fragment TCP_ACK [])) 20 (demo_segment TCP_ACK [])"
    using demo_incoming [of "[]"] by simp_all
  have c: "0 < (1023 :: nat)" "fifo (tcp_api demo_env) id 1023" by (simp_all add: list_ring_fifo)
  show ?thesis
    using tcp_handshake [OF c(2,1) l _ syn _ ack, of demo_packet_env demo_packet_env]
    by (fastforce simp: demo_listener_def client_ip_def MAKE_IPV4_ADDR_def get32_def)
qed

section \<open>Receiving data\<close>

text \<open>The payload of a segment, the fragment that is queued for the application and the acknowledgement.\<close>

definition payload :: "tcp_hdr \<Rightarrow> nat \<Rightarrow> bytes" where
  "payload h n = take (nat (payload_len h (int n))) (drop (unat (drop_bit 4 (data_off h)) * 4) (segment h))"

definition data_fragment :: "tcp_hdr \<Rightarrow> nat \<Rightarrow> ng_tcp_fragment" where
  "data_fragment h n = blank_fragment\<lparr>fr_dport := htons (dst_port h), fr_sport := htons (src_port h),
     fr_data := Some (payload h n), fr_length := length (payload h n)\<rparr>"

definition ack_fragment :: "tcp_hdr \<Rightarrow> 32 word \<Rightarrow> ng_tcp_fragment" where
  "ack_fragment h a = blank_fragment\<lparr>fr_dport := src_port h, fr_sport := dst_port h, acknum := a,
     seqnum := htonl (recv_ack h), tcp_flags := TCP_ACK, windows := TCP_INITIAL_WINDOW, hdrlen_off := 0x50\<rparr>"

text \<open>A segment with data that carries PSH and not FIN, and is as long as its headers say.\<close>

definition data_segment :: "('r, 'u, 'o) env \<Rightarrow> 32 word \<Rightarrow> 32 word \<Rightarrow> 16 word \<Rightarrow> 16 word \<Rightarrow> tcp_hdr \<times> nat \<times> bytes \<Rightarrow> bool" where
  "data_segment V si di sp dp = (\<lambda>(h, n, pkt). incoming V si di h n pkt \<and> src_port h = sp \<and> dst_port h = dp
     \<and> has_flag (flags h) TCP_PSH \<and> \<not> has_flag (flags h) TCP_FIN \<and> 0 < payload_len h (int n)
     \<and> unat (drop_bit 4 (data_off h)) * 4 + nat (payload_len h (int n)) \<le> length (segment h))"

lemma length_payload:
  assumes "data_segment V si di sp dp (h, n, pkt)"
  shows "int (length (payload h n)) = payload_len h (int n)"
proof -
  have "length (payload h n) = nat (payload_len h (int n))"
    using assms by (auto simp: data_segment_def payload_def intro!: min_absorb2)
  then show ?thesis using assms by (simp add: data_segment_def)
qed

lemma handle_established_data:
  assumes ring: "fifo (tcp_api V) items cap" and seg: "data_segment V si di sp dp (h, n, pkt)" and m: "m = malloc_ok"
    and s: "rcvbuf s \<noteq> None" "sndbuf s \<noteq> None" "length (queue items (rcvbuf s)) < cap" "length (queue items (sndbuf s)) < cap"
  obtains r1 r2 where "items r1 = queue items (rcvbuf s) @ [data_fragment h n]"
    "items r2 = queue items (sndbuf s) @ [ack_fragment h (rcv_nxt s + word_of_nat (length (payload h n)))]"
    "ng_tcp_handle_established m V s h (int n) = Inr (s\<lparr>rcvbuf := Some r1, sndbuf := Some r2,
       rcv_nxt := rcv_nxt s + word_of_nat (length (payload h n)), snd_nxt := htonl (recv_ack h)\<rparr>, 0)"
proof -
  let ?a = "rcv_nxt s + word_of_nat (length (payload h n))"
  obtain r1 where r1: "enq (tcp_api V) (rcvbuf s) (data_fragment h n) = Inr (Some r1)"
    "items r1 = queue items (rcvbuf s) @ [data_fragment h n]" by (rule fifo_enq [OF ring s(1,3)])
  obtain r2 where r2: "enq (tcp_api V) (sndbuf s) (ack_fragment h ?a) = Inr (Some r2)"
    "items r2 = queue items (sndbuf s) @ [ack_fragment h ?a]" by (rule fifo_enq [OF ring s(2,4)])
  have l: "int (length (payload h n)) = payload_len h (int n)" by (rule length_payload [OF seg])
  then have ln: "nat (payload_len h (int n)) = length (payload h n)" by simp
  have w: "word_of_int (payload_len h (int n)) = (word_of_nat (length (payload h n)) :: 32 word)" by (simp flip: l)
  have f: "has_flag (flags h) TCP_PSH" "\<not> has_flag (flags h) TCP_FIN" "0 < payload_len h (int n)"
    "\<not> length (segment h) < unat (drop_bit 4 (data_off h)) * 4 + length (payload h n)"
    using seg by (auto simp: data_segment_def simp flip: ln)
  have e1: "ng_tcp_enqueue_recvbuffer m V s h (int n) = Inr (s\<lparr>rcvbuf := Some r1\<rparr>, 0)"
  proof -
    have "take (length (payload h n)) (drop (unat (drop_bit 4 (data_off h)) * 4) (segment h)) = payload h n"
      unfolding ln [symmetric] by (simp add: payload_def)
    then show ?thesis using f r1(1) m ln by (simp add: ng_tcp_enqueue_recvbuffer_def Let_def data_fragment_def)
  qed
  have e2: "ng_tcp_send_ackpkt (m 2) V (s\<lparr>rcvbuf := Some r1, rcv_nxt := ?a, snd_nxt := htonl (recv_ack h)\<rparr>) h
      = Inr (s\<lparr>rcvbuf := Some r1, rcv_nxt := ?a, snd_nxt := htonl (recv_ack h), sndbuf := Some r2\<rparr>, 0)"
    using r2(1) m by (simp add: ng_tcp_send_ackpkt_def ack_fragment_def)
  have "ng_tcp_handle_established m V s h (int n) = Inr (s\<lparr>rcvbuf := Some r1, sndbuf := Some r2,
       rcv_nxt := ?a, snd_nxt := htonl (recv_ack h)\<rparr>, 0)"
    using f e1 e2 by (simp add: ng_tcp_handle_established_def established_psh_def established_fin_def w)
  then show thesis by (rule that [OF r1(2) r2(2)])
qed

text \<open>The acknowledgements of a sequence of segments: each says how much has arrived up to it.\<close>

fun acks :: "32 word \<Rightarrow> (tcp_hdr \<times> nat \<times> bytes) list \<Rightarrow> ng_tcp_fragment list" where
  "acks a [] = []"
| "acks a ((h, n, pkt) # segs) = (let a = a + word_of_nat (length (payload h n)) in ack_fragment h a # acks a segs)"

text \<open>The control block at position \<open>i\<close> is an open connection of the four-tuple, and the first one of it.\<close>

definition open_stream :: "('r, 'u, 'o) ustack \<Rightarrow> nat \<Rightarrow> 32 word \<Rightarrow> 32 word \<Rightarrow> 16 word \<Rightarrow> 16 word \<Rightarrow> bool" where
  "open_stream S i si di sp dp \<longleftrightarrow> i < length (tcb_set S) \<and> status (tcb_set S ! i) = TCP_ESTABLISHED
     \<and> rcvbuf (tcb_set S ! i) \<noteq> None \<and> sndbuf (tcb_set S ! i) \<noteq> None
     \<and> (sip (tcb_set S ! i) = si \<and> dip (tcb_set S ! i) = di \<and> sport (tcb_set S ! i) = sp \<and> dport (tcb_set S ! i) = dp)
     \<and> (\<forall>j < i. \<not> (sip (tcb_set S ! j) = si \<and> dip (tcb_set S ! j) = di \<and> sport (tcb_set S ! j) = sp \<and> dport (tcb_set S ! j) = dp))"

lemma open_stream_search: "open_stream S i si di sp dp \<Longrightarrow> ng_tcp_stream_search S si di sp dp = Some i"
  by (rule search_exact) (auto simp: open_stream_def)

lemma open_stream_put:
  assumes "open_stream S i si di sp dp"
  shows "open_stream (put_tcb S i ((tcb_set S ! i)\<lparr>rcvbuf := Some r1, sndbuf := Some r2, rcv_nxt := a, snd_nxt := b\<rparr>)) i si di sp dp"
  using assms by (simp add: open_stream_def put_tcb_def)

text \<open>
  C3: on an open connection a sequence of data segments is queued for the application whole and in the order of arrival;
  the number of the next expected byte advances by the length of the payloads, modulo 2^32, and each segment is
  acknowledged with the number reached. Neither the sequence number nor the acknowledgement number of a segment is looked at.
\<close>

theorem tcp_receive_in_order:
  assumes ring: "fifo (tcp_api V) items cap"
    and conn: "open_stream S i si di sp dp"
    and segs: "\<forall>x \<in> set segs. data_segment V si di sp dp x"
    and mem: "length es = length segs" "\<forall>e \<in> set es. pk_mallocs e = malloc_ok"
    and room: "length (queue items (rcvbuf (tcb_set S ! i))) + length segs \<le> cap"
      "length (queue items (sndbuf (tcb_set S ! i))) + length segs \<le> cap"
  shows "\<exists>S'. pkt_process_all es V S (map (\<lambda>(_, _, pkt). pkt) segs) = Inr S' \<and> open_stream S' i si di sp dp
    \<and> queue items (rcvbuf (tcb_set S' ! i)) = queue items (rcvbuf (tcb_set S ! i)) @ map (\<lambda>(h, n, _). data_fragment h n) segs
    \<and> queue items (sndbuf (tcb_set S' ! i)) = queue items (sndbuf (tcb_set S ! i)) @ acks (rcv_nxt (tcb_set S ! i)) segs
    \<and> rcv_nxt (tcb_set S' ! i) = rcv_nxt (tcb_set S ! i) + word_of_nat (length (concat (map (\<lambda>(h, n, _). payload h n) segs)))"
  using conn segs mem room
proof (induction segs arbitrary: S es)
  case (Cons x segs)
  obtain h n pkt where x: "x = (h, n, pkt)" by (cases x)
  obtain e es' where es: "es = e # es'" using Cons.prems(3) by (cases es) auto
  let ?s = "tcb_set S ! i" and ?a = "rcv_nxt (tcb_set S ! i) + word_of_nat (length (payload h n))"
  have seg: "data_segment V si di sp dp (h, n, pkt)" using Cons.prems(2) x by simp
  have m: "pk_mallocs e = malloc_ok" using Cons.prems(4) unfolding es by (metis list.set_intros(1))
  have st: "rcvbuf ?s \<noteq> None" "sndbuf ?s \<noteq> None" "status ?s = TCP_ESTABLISHED" "i < length (tcb_set S)"
    using Cons.prems(1) by (auto simp: open_stream_def)
  have rm: "length (queue items (rcvbuf ?s)) < cap" "length (queue items (sndbuf ?s)) < cap" using Cons.prems(5,6) by auto
  obtain r1 r2 where r: "items r1 = queue items (rcvbuf ?s) @ [data_fragment h n]"
      "items r2 = queue items (sndbuf ?s) @ [ack_fragment h ?a]"
    and he: "ng_tcp_handle_established (pk_mallocs e) V ?s h (int n) = Inr (?s\<lparr>rcvbuf := Some r1, sndbuf := Some r2,
       rcv_nxt := ?a, snd_nxt := htonl (recv_ack h)\<rparr>, 0)"
    by (rule handle_established_data [OF ring seg m st(1,2) rm])
  define S1 where "S1 = put_tcb S i (?s\<lparr>rcvbuf := Some r1, sndbuf := Some r2, rcv_nxt := ?a, snd_nxt := htonl (recv_ack h)\<rparr>)"
  have inc: "incoming V si di h n pkt" and ports: "src_port h = sp" "dst_port h = dp"
    using seg by (auto simp: data_segment_def)
  have srch: "ng_tcp_stream_search S si di (src_port h) (dst_port h) = Some i"
    using open_stream_search [OF Cons.prems(1)] ports by simp
  have p1: "pkt_process1 e V S pkt = Inr S1"
    unfolding pkt_process1_incoming [OF inc srch] using st(3) he by (simp add: tcp_dispatch_def S1_def)
  have s1: "tcb_set S1 ! i = ?s\<lparr>rcvbuf := Some r1, sndbuf := Some r2, rcv_nxt := ?a, snd_nxt := htonl (recv_ack h)\<rparr>"
    using st(4) by (simp add: S1_def put_tcb_def)
  have "open_stream S1 i si di sp dp" unfolding S1_def by (rule open_stream_put [OF Cons.prems(1)])
  note os1 = this
  have mem: "length es' = length segs" "\<forall>e \<in> set es'. pk_mallocs e = malloc_ok" "\<forall>x \<in> set segs. data_segment V si di sp dp x"
    using Cons.prems(2-4) unfolding es by (auto simp del: malloc_ok_apply)
  have "length (queue items (rcvbuf (tcb_set S1 ! i))) + length segs \<le> cap"
    "length (queue items (sndbuf (tcb_set S1 ! i))) + length segs \<le> cap"
    using Cons.prems(5,6) r by (simp_all add: s1)
  from Cons.IH [OF os1 mem(3,1,2) this]
  obtain S' where "pkt_process_all es' V S1 (map (\<lambda>(_, _, pkt). pkt) segs) = Inr S'" "open_stream S' i si di sp dp"
    "queue items (rcvbuf (tcb_set S' ! i)) = queue items (rcvbuf ?s) @ data_fragment h n # map (\<lambda>(h, n, _). data_fragment h n) segs"
    "queue items (sndbuf (tcb_set S' ! i)) = queue items (sndbuf ?s) @ ack_fragment h ?a # acks ?a segs"
    "rcv_nxt (tcb_set S' ! i) = ?a + word_of_nat (length (concat (map (\<lambda>(h, n, _). payload h n) segs)))"
    using r by (auto simp: s1)
  then show ?case using p1 by (simp add: x es Let_def algebra_simps)
qed simp

lemma demo_data_segment:
  assumes "d \<noteq> []" "length d \<le> 1994"
  shows "data_segment demo_env client_ip server_ip 1111 (htons 9999)
    (hdr_of_fragment (demo_fragment TCP_PSH d), 20 + length d, demo_segment TCP_PSH d)"
proof -
  have "unat (drop_bit 4 (0x50 :: byte)) = 5" by simp
  then show ?thesis
    using assms demo_incoming [OF assms(2), of TCP_PSH]
    by (simp add: data_segment_def payload_len_def) (simp add: hdr_of_fragment_def)
qed

theorem tcp_receive_in_order_witness:
  "\<exists>S'. pkt_process_all [demo_packet_env, demo_packet_env] demo_env (demo_stack [demo_conn 4 TCP_ESTABLISHED []])
      [demo_segment TCP_PSH [104, 105], demo_segment TCP_PSH [33]] = Inr S'
    \<and> open_stream S' 0 client_ip server_ip 1111 (htons 9999)
    \<and> queue id (rcvbuf (tcb_set S' ! 0)) = [data_fragment (hdr_of_fragment (demo_fragment TCP_PSH [104, 105])) 22,
        data_fragment (hdr_of_fragment (demo_fragment TCP_PSH [33])) 21]"
proof -
  let ?S = "demo_stack [demo_conn 4 TCP_ESTABLISHED []]"
  let ?h1 = "hdr_of_fragment (demo_fragment TCP_PSH [104, 105])" and ?h2 = "hdr_of_fragment (demo_fragment TCP_PSH [33])"
  let ?segs = "[(?h1, 22, demo_segment TCP_PSH [104, 105]), (?h2, 21, demo_segment TCP_PSH [33])]"
  have o: "open_stream ?S 0 client_ip server_ip 1111 (htons 9999)" by (simp add: open_stream_def demo_conn_def)
  have d: "\<forall>x \<in> set ?segs. data_segment demo_env client_ip server_ip 1111 (htons 9999) x"
    using demo_data_segment [of "[104, 105]"] demo_data_segment [of "[33]"] by simp
  have r: "fifo (tcp_api demo_env) id 1023" by (simp add: list_ring_fifo)
  show ?thesis
    using tcp_receive_in_order [OF r o d, of "[demo_packet_env, demo_packet_env]"] by (auto simp: demo_conn_def)
qed

section \<open>Reading\<close>

text \<open>The descriptor \<open>n\<close> is that of the control block at position \<open>i\<close>, a TCP stream with its rings.\<close>

definition tcp_socket :: "('r, 'u, 'o) ustack \<Rightarrow> int \<Rightarrow> nat \<Rightarrow> bool" where
  "tcp_socket S n i \<longleftrightarrow> get_hostinfo_fromfd S n = Some (Tcp i) \<and> protocol (tcb_set S ! i) = IPPROTO_TCP
     \<and> rcvbuf (tcb_set S ! i) \<noteq> None \<and> sndbuf (tcb_set S ! i) \<noteq> None"

lemma tcp_socket_bound: "tcp_socket S n i \<Longrightarrow> i < length (tcb_set S) \<and> fd (tcb_set S ! i) = n"
  by (auto simp: tcp_socket_def get_hostinfo_fromfd_def find_ix_Some split: option.splits)

lemma nrecv_blocked:
  assumes "fifo (tcp_api V) items cap" "tcp_socket S n i" "queue items (rcvbuf (tcb_set S ! i)) = []"
  shows "nrecv V S n len = Inr Blocked"
  using fifo_deq_None [OF assms(1,3)] assms(2) by (simp add: nrecv_def Let_def tcp_socket_def)

lemma nrecv_whole:
  assumes "fifo (tcp_api V) items cap" "tcp_socket S n i" "queue items (rcvbuf (tcb_set S ! i)) = f # fs"
    and "fr_data f = Some d" "fr_length f = length d" "d \<noteq> []" "length d \<le> len"
  shows "\<exists>r. nrecv V S n len = Inr (Returned (put_tcb S i ((tcb_set S ! i)\<lparr>rcvbuf := Some r\<rparr>), d, int (length d))) \<and> items r = fs"
  by (rule fifo_deq_Some [OF assms(1,3)]) (use assms(2,4-) in \<open>auto simp: nrecv_def Let_def tcp_socket_def\<close>)

lemma nrecv_eof:
  assumes "fifo (tcp_api V) items cap" "tcp_socket S n i" "queue items (rcvbuf (tcb_set S ! i)) = f # fs" "fr_length f = 0"
  shows "\<exists>r. nrecv V S n len = Inr (Returned (put_tcb S i ((tcb_set S ! i)\<lparr>rcvbuf := Some r\<rparr>), [], 0)) \<and> items r = fs"
  by (rule fifo_deq_Some [OF assms(1,3)]) (use assms(2,4-) in \<open>auto simp: nrecv_def Let_def tcp_socket_def\<close>)

text \<open>
  A read on a connection waits while nothing is queued, and otherwise delivers the first queued fragment whole when the
  buffer has room for it, and its length, 0 for the end of the stream; the other fragments stay queued.
\<close>

theorem nrecv_delivers:
  assumes "fifo (tcp_api V) items cap" "tcp_socket S n i"
  shows "case queue items (rcvbuf (tcb_set S ! i)) of
      [] \<Rightarrow> nrecv V S n len = Inr Blocked
    | f # fs \<Rightarrow> fr_length f \<le> len \<and> fr_length f = length (case fr_data f of None \<Rightarrow> [] | Some d \<Rightarrow> d) \<longrightarrow>
       (\<exists>r. nrecv V S n len = Inr (Returned (put_tcb S i ((tcb_set S ! i)\<lparr>rcvbuf := Some r\<rparr>),
           case fr_data f of None \<Rightarrow> [] | Some d \<Rightarrow> d, int (fr_length f))) \<and> items r = fs)"
proof (cases "queue items (rcvbuf (tcb_set S ! i))")
  case Nil
  then show ?thesis using nrecv_blocked [OF assms] by simp
next
  case (Cons f fs)
  show ?thesis
  proof (cases "fr_length f = 0")
    case True
    with nrecv_eof [OF assms Cons] Cons show ?thesis by (auto split: option.splits)
  next
    case False
    with nrecv_whole [OF assms Cons] Cons show ?thesis by (auto split: option.splits)
  qed
qed

definition demo_text :: ng_tcp_fragment where
  "demo_text = blank_fragment\<lparr>fr_data := Some [104, 105, 33], fr_length := 3\<rparr>"

lemma demo_socket: "tcp_socket (demo_stack [demo_conn 4 st q]) 4 0"
  by (simp add: tcp_socket_def get_hostinfo_fromfd_def demo_conn_def demo_host_def)

theorem nrecv_delivers_witness:
  "nrecv demo_env (demo_stack [demo_conn 4 TCP_ESTABLISHED []]) 4 1024 = Inr Blocked
   \<and> (\<exists>r. nrecv demo_env (demo_stack [demo_conn 4 TCP_ESTABLISHED [demo_text]]) 4 1024
      = Inr (Returned (put_tcb (demo_stack [demo_conn 4 TCP_ESTABLISHED [demo_text]]) 0
          ((demo_conn 4 TCP_ESTABLISHED [demo_text])\<lparr>rcvbuf := Some r\<rparr>), [104, 105, 33], 3)) \<and> r = [])"
proof -
  have r: "fifo (tcp_api demo_env) id 1023" by (simp add: list_ring_fifo)
  show ?thesis
    using nrecv_delivers [OF r demo_socket, of TCP_ESTABLISHED "[]" 1024]
      nrecv_delivers [OF r demo_socket, of TCP_ESTABLISHED "[demo_text]" 1024]
    by (simp add: demo_conn_def demo_text_def)
qed

text \<open>
  C31: when the first fragment is longer than the buffer, the read fills the buffer but returns the number of bytes that are
  left over instead of the number it delivered, and it puts the rest of the fragment behind what arrived after it.
\<close>

theorem nrecv_short_buffer:
  assumes ring: "fifo (tcp_api V) items cap" and sock: "tcp_socket S n i"
    and q: "queue items (rcvbuf (tcb_set S ! i)) = f # fs" "length fs < cap"
    and f: "fr_data f = Some d" "length d = fr_length f" "len < length d"
  shows "\<exists>r. nrecv V S n len = Inr (Returned (put_tcb S i ((tcb_set S ! i)\<lparr>rcvbuf := Some r\<rparr>), take len d, int (length d - len)))
    \<and> items r = fs @ [f\<lparr>fr_data := Some (drop len d), fr_length := length d - len\<rparr>]"
proof -
  have t: "get_hostinfo_fromfd S n = Some (Tcp i)" "protocol (tcb_set S ! i) = IPPROTO_TCP"
    using sock by (auto simp: tcp_socket_def)
  obtain r where r: "deq (tcp_api V) (rcvbuf (tcb_set S ! i)) = Inr (Some (Some r, f))" "items r = fs"
    by (rule fifo_deq_Some [OF ring q(1)])
  obtain r' where r': "enq (tcp_api V) (Some r) (f\<lparr>fr_data := Some (drop len d), fr_length := length d - len\<rparr>) = Inr (Some r')"
    "items r' = queue items (Some r) @ [f\<lparr>fr_data := Some (drop len d), fr_length := length d - len\<rparr>]"
    by (rule fifo_enq [OF ring, of "Some r" "f\<lparr>fr_data := Some (drop len d), fr_length := length d - len\<rparr>"]) (use r q in simp_all)
  show ?thesis using t r r' f by (auto simp: nrecv_def Let_def)
qed

theorem nrecv_short_buffer_witness:
  "\<exists>r. nrecv demo_env (demo_stack [demo_conn 4 TCP_ESTABLISHED [demo_text, blank_fragment]]) 4 2
      = Inr (Returned (put_tcb (demo_stack [demo_conn 4 TCP_ESTABLISHED [demo_text, blank_fragment]]) 0
          ((demo_conn 4 TCP_ESTABLISHED [demo_text, blank_fragment])\<lparr>rcvbuf := Some r\<rparr>), [104, 105], 1))
    \<and> r = [blank_fragment, demo_text\<lparr>fr_data := Some [33], fr_length := 1\<rparr>]"
proof -
  have r: "fifo (tcp_api demo_env) id 1023" by (simp add: list_ring_fifo)
  show ?thesis
    using nrecv_short_buffer [OF r demo_socket, of TCP_ESTABLISHED "[demo_text, blank_fragment]" demo_text "[blank_fragment]" "[104, 105, 33]" 2]
    by (simp add: demo_conn_def demo_text_def)
qed

section \<open>Closing\<close>

definition fin_fragment :: "ng_tcp_fragment \<Rightarrow> 'r ng_tcp_stream \<Rightarrow> ng_tcp_fragment" where
  "fin_fragment junk s = junk\<lparr>fr_data := None, fr_length := 0, fr_sport := dport s, fr_dport := sport s, seqnum := snd_nxt s,
     acknum := rcv_nxt s, tcp_flags := TCP_FIN OR TCP_ACK, windows := TCP_INITIAL_WINDOW, hdrlen_off := 0x50\<rparr>"

definition eof_fragment :: "tcp_hdr \<Rightarrow> ng_tcp_fragment" where
  "eof_fragment h = blank_fragment\<lparr>fr_dport := htons (dst_port h), fr_sport := htons (src_port h)\<rparr>"

lemma handle_established_fin:
  assumes ring: "fifo (tcp_api V) items cap" and m: "m = malloc_ok"
    and fl: "has_flag (flags h) TCP_FIN" "\<not> has_flag (flags h) TCP_PSH"
    and s: "rcvbuf s \<noteq> None" "sndbuf s \<noteq> None" "length (queue items (rcvbuf s)) < cap" "length (queue items (sndbuf s)) < cap"
  obtains r1 r2 where "items r1 = queue items (rcvbuf s) @ [eof_fragment h]"
    "items r2 = queue items (sndbuf s) @ [ack_fragment h (rcv_nxt s + 1)]"
    "ng_tcp_handle_established m V s h t = Inr (s\<lparr>status := TCP_CLOSE_WAIT, rcvbuf := Some r1, sndbuf := Some r2,
       rcv_nxt := rcv_nxt s + 1, snd_nxt := htonl (recv_ack h)\<rparr>, 0)"
proof -
  obtain r1 where r1: "enq (tcp_api V) (rcvbuf s) (eof_fragment h) = Inr (Some r1)"
    "items r1 = queue items (rcvbuf s) @ [eof_fragment h]" by (rule fifo_enq [OF ring s(1,3)])
  obtain r2 where r2: "enq (tcp_api V) (sndbuf s) (ack_fragment h (rcv_nxt s + 1)) = Inr (Some r2)"
    "items r2 = queue items (sndbuf s) @ [ack_fragment h (rcv_nxt s + 1)]" by (rule fifo_enq [OF ring s(2,4)])
  have "\<not> 0 < payload_len h (int (unat (drop_bit 4 (data_off h))))" by (simp add: payload_len_def)
  then have "ng_tcp_handle_established m V s h t = Inr (s\<lparr>status := TCP_CLOSE_WAIT, rcvbuf := Some r1, sndbuf := Some r2,
       rcv_nxt := rcv_nxt s + 1, snd_nxt := htonl (recv_ack h)\<rparr>, 0)"
    using r1(1) r2(1) m fl by (simp add: ng_tcp_handle_established_def established_psh_def established_fin_def
        ng_tcp_enqueue_recvbuffer_def ng_tcp_send_ackpkt_def eof_fragment_def ack_fragment_def Let_def)
  then show thesis by (rule that [OF r1(2) r2(2)])
qed

lemma hostinfo_put_tcb:
  assumes "fd s = fd (tcb_set S ! i)"
  shows "get_hostinfo_fromfd (put_tcb S i s) n = get_hostinfo_fromfd S n"
proof -
  have "find_ix (\<lambda>s. n = fd s) (xs[i := s]) = find_ix (\<lambda>s. n = fd s) xs" if "fd s = fd (xs ! i)" for xs i
    using that
  proof (induction xs arbitrary: i)
    case (Cons x xs)
    then show ?case by (cases i) auto
  qed simp
  from this [of "tcb_set S" i] assms show ?thesis by (simp add: get_hostinfo_fromfd_def put_tcb_def split: option.split)
qed

lemma put_tcb_simps [simp]:
  "i < length (tcb_set S) \<Longrightarrow> tcb_set (put_tcb S i s) ! i = s" "length (tcb_set (put_tcb S i s)) = length (tcb_set S)"
  "put_tcb (put_tcb S i s) i t = put_tcb S i t" "fd_table (put_tcb S i s) = fd_table S"
  "put_tcb (S\<lparr>fd_table := tbl\<rparr>) i s = put_tcb S i s\<lparr>fd_table := tbl\<rparr>"
  "remove_ix i (tcb_set (put_tcb S i s)) = remove_ix i (tcb_set S)"
  by (simp_all add: put_tcb_def remove_ix_def)

lemma search_first:
  assumes "open_stream S i si di sp dp" "sip s = si" "dip s = di" "sport s = sp" "dport s = dp"
  shows "ng_tcp_stream_search (put_tcb S i s\<lparr>fd_table := tbl\<rparr>) si di sp dp = Some i"
  using assms by (intro search_exact) (auto simp: open_stream_def put_tcb_def)

lemma nclose_stream:
  assumes ring: "fifo (tcp_api V) items cap" and sock: "tcp_socket S n i" and st: "status (tcb_set S ! i) \<noteq> TCP_LISTEN"
    and n: "0 \<le> n" "n < int MAX_FD_COUNT" and room: "length (queue items (sndbuf (tcb_set S ! i))) < cap"
  obtains r tbl where "items r = queue items (sndbuf (tcb_set S ! i)) @ [fin_fragment junk (tcb_set S ! i)]"
    "set_fd_frombitmap (fd_table S) n = Inr (tbl, 0)"
    "nclose malloc_ok junk V S n
       = Inr (put_tcb S i ((tcb_set S ! i)\<lparr>sndbuf := Some r, status := TCP_LAST_ACK\<rparr>)\<lparr>fd_table := tbl\<rparr>, 0)"
proof -
  have t: "get_hostinfo_fromfd S n = Some (Tcp i)" "protocol (tcb_set S ! i) = IPPROTO_TCP" "sndbuf (tcb_set S ! i) \<noteq> None"
    using sock by (auto simp: tcp_socket_def)
  obtain r where r: "enq (tcp_api V) (sndbuf (tcb_set S ! i)) (fin_fragment junk (tcb_set S ! i)) = Inr (Some r)"
    "items r = queue items (sndbuf (tcb_set S ! i)) @ [fin_fragment junk (tcb_set S ! i)]"
    by (rule fifo_enq [OF ring t(3) room])
  obtain tbl where tbl: "set_fd_frombitmap (fd_table S) n = Inr (tbl, 0)" using n by (simp add: set_fd_frombitmap_def)
  show thesis
    by (rule that [OF r(2) tbl]) (use t st r(1) tbl in \<open>simp add: nclose_def Let_def fin_fragment_def\<close>)
qed

text \<open>
  C30: when the peer closes, its FIN moves the connection to CLOSE_WAIT, queues the end of the stream behind the data and an
  acknowledgement; the application's close queues a FIN behind it, frees the descriptor and moves the connection to LAST_ACK;
  the peer's ACK removes the control block and leaves the others as they were.
\<close>

theorem tcp_passive_close:
  assumes ring: "fifo (tcp_api V) items cap"
    and conn: "open_stream S i si di sp dp" "tcp_socket S n i" "0 \<le> n" "n < int MAX_FD_COUNT"
    and fin: "incoming V si di h k pkt" "src_port h = sp" "dst_port h = dp" "has_flag (flags h) TCP_FIN" "\<not> has_flag (flags h) TCP_PSH"
    and ack: "incoming V si di h' k' pkt'" "src_port h' = sp" "dst_port h' = dp" "has_flag (flags h') TCP_ACK"
    and mem: "pk_mallocs e = malloc_ok"
    and room: "length (queue items (rcvbuf (tcb_set S ! i))) < cap" "length (queue items (sndbuf (tcb_set S ! i))) + 1 < cap"
  shows "\<exists>S1 S2 tbl. pkt_process1 e V S pkt = Inr S1 \<and> status (tcb_set S1 ! i) = TCP_CLOSE_WAIT
    \<and> queue items (rcvbuf (tcb_set S1 ! i)) = queue items (rcvbuf (tcb_set S ! i)) @ [eof_fragment h]
    \<and> nclose malloc_ok junk V S1 n = Inr (S2, 0) \<and> status (tcb_set S2 ! i) = TCP_LAST_ACK
    \<and> queue items (sndbuf (tcb_set S2 ! i)) = queue items (sndbuf (tcb_set S ! i))
        @ [ack_fragment h (rcv_nxt (tcb_set S ! i) + 1), fin_fragment junk (tcb_set S1 ! i)]
    \<and> set_fd_frombitmap (fd_table S) n = Inr (tbl, 0)
    \<and> pkt_process1 e' V S2 pkt' = Inr (S\<lparr>tcb_set := remove_ix i (tcb_set S), fd_table := tbl\<rparr>)"
proof -
  let ?s = "tcb_set S ! i"
  have st: "i < length (tcb_set S)" "rcvbuf ?s \<noteq> None" "sndbuf ?s \<noteq> None" "status ?s = TCP_ESTABLISHED"
    "sip ?s = si" "dip ?s = di" "sport ?s = sp" "dport ?s = dp"
    using conn(1) by (auto simp: open_stream_def)
  have rm: "length (queue items (sndbuf ?s)) < cap" using room(2) by simp
  obtain r1 r2 where r: "items r1 = queue items (rcvbuf ?s) @ [eof_fragment h]"
      "items r2 = queue items (sndbuf ?s) @ [ack_fragment h (rcv_nxt ?s + 1)]"
    and he: "ng_tcp_handle_established (pk_mallocs e) V ?s h (int k) = Inr (?s\<lparr>status := TCP_CLOSE_WAIT, rcvbuf := Some r1,
      sndbuf := Some r2, rcv_nxt := rcv_nxt ?s + 1, snd_nxt := htonl (recv_ack h)\<rparr>, 0)"
    by (rule handle_established_fin [OF ring mem fin(4,5) st(2,3) room(1) rm, of "int k"])
  define s1 where "s1 = ?s\<lparr>status := TCP_CLOSE_WAIT, rcvbuf := Some r1, sndbuf := Some r2, rcv_nxt := rcv_nxt ?s + 1,
    snd_nxt := htonl (recv_ack h)\<rparr>"
  define S1 where "S1 = put_tcb S i s1"
  have "ng_tcp_stream_search S si di (src_port h) (dst_port h) = Some i"
    using open_stream_search [OF conn(1)] fin(2,3) by simp
  note p1 = pkt_process1_incoming [OF fin(1) this, of e]
  have p1: "pkt_process1 e V S pkt = Inr S1" using p1 st(4) he by (simp add: tcp_dispatch_def S1_def s1_def)
  have t1: "tcb_set S1 ! i = s1" using st(1) by (simp add: S1_def)
  have sock1: "tcp_socket S1 n i"
    using conn(2) st(1) by (simp add: tcp_socket_def S1_def hostinfo_put_tcb s1_def)
  have cl: "status (tcb_set S1 ! i) \<noteq> TCP_LISTEN" "length (queue items (sndbuf (tcb_set S1 ! i))) < cap"
    using r room(2) by (simp_all add: t1 s1_def)
  obtain r3 tbl where r3: "items r3 = queue items (sndbuf (tcb_set S1 ! i)) @ [fin_fragment junk (tcb_set S1 ! i)]"
    and tbl: "set_fd_frombitmap (fd_table S1) n = Inr (tbl, 0)"
    and c: "nclose malloc_ok junk V S1 n
       = Inr (put_tcb S1 i ((tcb_set S1 ! i)\<lparr>sndbuf := Some r3, status := TCP_LAST_ACK\<rparr>)\<lparr>fd_table := tbl\<rparr>, 0)"
    by (rule nclose_stream [OF ring sock1 cl(1) conn(3,4) cl(2), of junk])
  define s2 where "s2 = s1\<lparr>sndbuf := Some r3, status := TCP_LAST_ACK\<rparr>"
  define S2 where "S2 = put_tcb S i s2\<lparr>fd_table := tbl\<rparr>"
  have c2: "nclose malloc_ok junk V S1 n = Inr (S2, 0)" using c unfolding t1 by (simp add: S1_def S2_def s2_def)
  have tbl2: "set_fd_frombitmap (fd_table S) n = Inr (tbl, 0)" using tbl by (simp add: S1_def)
  have t2: "tcb_set S2 ! i = s2" using st(1) by (simp add: S2_def put_tcb_def)
  have "ng_tcp_stream_search S2 si di (src_port h') (dst_port h') = Some i"
    unfolding S2_def using st(5-8) ack(2,3) by (intro search_first) (auto simp: s2_def s1_def conn(1))
  note p2 = pkt_process1_incoming [OF ack(1) this, of e']
  have p2: "pkt_process1 e' V S2 pkt' = Inr (S\<lparr>tcb_set := remove_ix i (tcb_set S), fd_table := tbl\<rparr>)"
    using p2 ack(4) t2 by (simp add: tcp_dispatch_def s2_def ng_tcp_handle_last_ack_def S2_def) (simp add: put_tcb_def)
  show ?thesis
    by (rule exI [of _ S1], rule exI [of _ S2], rule exI [of _ tbl])
      (use p1 p2 c2 tbl2 r r3 in \<open>simp add: t1 t2 s2_def s1_def\<close>)
qed

theorem tcp_passive_close_witness:
  "\<exists>S1 S2 tbl. pkt_process1 demo_packet_env demo_env (demo_stack [demo_conn 4 TCP_ESTABLISHED [], demo_listener]) (demo_segment TCP_FIN []) = Inr S1
    \<and> nclose malloc_ok blank_fragment demo_env S1 4 = Inr (S2, 0)
    \<and> pkt_process1 demo_packet_env demo_env S2 (demo_segment TCP_ACK [])
      = Inr ((demo_stack [demo_conn 4 TCP_ESTABLISHED [], demo_listener])\<lparr>tcb_set := [demo_listener], fd_table := tbl\<rparr>)"
proof -
  let ?S = "demo_stack [demo_conn 4 TCP_ESTABLISHED [], demo_listener]"
  have o: "open_stream ?S 0 client_ip server_ip 1111 (htons 9999)" by (simp add: open_stream_def demo_conn_def)
  have t: "tcp_socket ?S 4 0" by (simp add: tcp_socket_def get_hostinfo_fromfd_def demo_conn_def demo_host_def)
  have r: "fifo (tcp_api demo_env) id 1023" by (simp add: list_ring_fifo)
  have fin: "incoming demo_env client_ip server_ip (hdr_of_fragment (demo_fragment TCP_FIN [])) 20 (demo_segment TCP_FIN [])"
    and ack: "incoming demo_env client_ip server_ip (hdr_of_fragment (demo_fragment TCP_ACK [])) 20 (demo_segment TCP_ACK [])"
    using demo_incoming [of "[]"] by simp_all
  have n: "(0::int) \<le> 4" "(4::int) < int MAX_FD_COUNT" by (simp_all add: MAX_FD_COUNT_def)
  show ?thesis
    using tcp_passive_close [OF r o t n fin _ _ _ _ ack, of demo_packet_env blank_fragment demo_packet_env]
    by (fastforce simp: demo_conn_def remove_ix_def)
qed

end
