(* ===== verification/Ustack_Props.thy ===== *)
theory Ustack_Props
  imports Ustack_Demo
begin

text \<open>
  Properties of the descriptors, of the answers to echo requests and of UDP in the user-space stack.
\<close>

section \<open>Descriptors\<close>

lemma fd_bit_roundtrip:
  assumes "(w :: byte) AND fd_bit n = 0"
  shows "(w OR fd_bit n) AND NOT (fd_bit n) = w"
proof (rule bit_word_eqI)
  fix k assume "k < LENGTH(8)"
  have "\<not> bit w (n mod 8)" using assms by (simp add: fd_bit_test)
  then show "bit ((w OR fd_bit n) AND NOT (fd_bit n)) k = bit w k" by (auto simp: fd_bit_def bit_simps dest: bit_imp_le_length)
qed

text \<open>
  C32: allocating a descriptor gives the lowest free one from 3 on and marks it and no other, or -1 with the bitmap unchanged
  if all are in use; freeing it restores the bitmap.
\<close>

theorem fd_bitmap_alloc_free:
  assumes "length tbl = MAX_FD_COUNT" "get_fd_frombitmap tbl = (tbl', n)"
  shows "n = -1 \<and> tbl' = tbl \<and> (\<forall>k. DEFAULT_FD_NUM \<le> k \<and> k < MAX_FD_COUNT \<longrightarrow> fd_used tbl k)
    \<or> (\<exists>j. n = int j \<and> DEFAULT_FD_NUM \<le> j \<and> j < MAX_FD_COUNT \<and> \<not> fd_used tbl j
        \<and> (\<forall>k. DEFAULT_FD_NUM \<le> k \<and> k < j \<longrightarrow> fd_used tbl k) \<and> (\<forall>k. fd_used tbl' k \<longleftrightarrow> k = j \<or> fd_used tbl k)
        \<and> set_fd_frombitmap tbl' n = Inr (tbl, 0))"
proof (cases "n = -1")
  case True
  with fd_scan_spec [OF assms(1) assms(2) [unfolded get_fd_frombitmap_def]] show ?thesis by auto
next
  case False
  with fd_scan_spec [OF assms(1) assms(2) [unfolded get_fd_frombitmap_def]]
  obtain j where j: "n = int j" "DEFAULT_FD_NUM \<le> j" "j < MAX_FD_COUNT" "\<not> fd_used tbl j"
    "\<forall>k. DEFAULT_FD_NUM \<le> k \<and> k < j \<longrightarrow> fd_used tbl k" "tbl' = tbl[j div 8 := tbl ! (j div 8) OR fd_bit j]" by auto
  have b: "j div 8 < length tbl" using j(3) assms(1) by simp
  have "tbl ! (j div 8) AND fd_bit j = 0" using j(4) by (simp add: fd_bit_test fd_used_def)
  then have "set_fd_frombitmap tbl' n = Inr (tbl, 0)"
    using j(1,3) b by (simp add: set_fd_frombitmap_def j(6) fd_bit_roundtrip)
  with j fd_used_set(1) [OF b] show ?thesis by auto
qed

theorem fd_bitmap_alloc_free_witness:
  "\<exists>tbl' n. get_fd_frombitmap (replicate MAX_FD_COUNT 0) = (tbl', n) \<and> set_fd_frombitmap tbl' n = Inr (replicate MAX_FD_COUNT 0, 0)"
proof -
  obtain tbl' n where g: "get_fd_frombitmap (replicate MAX_FD_COUNT 0) = (tbl', n)" by fastforce
  have "\<not> fd_used (replicate MAX_FD_COUNT 0) DEFAULT_FD_NUM"
    by (simp add: fd_used_def MAX_FD_COUNT_def DEFAULT_FD_NUM_def)
  moreover have "DEFAULT_FD_NUM < MAX_FD_COUNT" by (simp add: MAX_FD_COUNT_def DEFAULT_FD_NUM_def)
  ultimately show ?thesis using fd_bitmap_alloc_free [OF _ g] g by force
qed

section \<open>Descriptor reuse\<close>

lemma find_ix_update_later:
  assumes "find_ix P xs = Some a" "a < b"
  shows "find_ix P (xs[b := x]) = Some a"
  using assms by (auto simp: find_ix_Some)



section \<open>ICMP\<close>

text \<open>
  C33: an echo request is answered with one packet to the Ethernet and IP address it came from, from the addresses it was sent
  to, with its identifier and sequence number and an ICMP checksum that verifies. The answer ends after the ICMP header: the
  data of the request is not returned.
\<close>

theorem icmp_echo_reply:
  assumes "42 \<le> length pkt" "get16 pkt 12 = htons 0x0800" "pkt ! 23 = IPPROTO_ICMP" "pkt ! 34 = 8" "pk_alloc e"
    and "length (gSrcMac V) = 6"
  shows "\<exists>p. pkt_process1 e V S pkt = Inr (emit V S p) \<and> length p = 42
    \<and> take 6 p = take 6 (drop 6 pkt) \<and> take 6 (drop 6 p) = gSrcMac V \<and> get16 p 12 = htons 0x0800
    \<and> get32 p 26 = get32 pkt 30 \<and> get32 p 30 = get32 pkt 26
    \<and> p ! 34 = 0 \<and> get16 p 38 = get16 pkt 38 \<and> get16 p 40 = get16 pkt 40 \<and> ng_checksum (drop 34 p) = 0"
proof -
  let ?p = "ng_encode_icmp_pkt (ipv4_cksum (sums V)) (gSrcMac V) (take 6 (drop 6 pkt)) (get32 pkt 30) (get32 pkt 26)
    (get16 pkt 38) (get16 pkt 40)"
  have "pkt_process1 e V S pkt = Inr (emit V S ?p)"
    using assms by (simp add: pkt_process1_def process_icmp_def ng_send_icmp_def IPPROTO_ICMP_def IPPROTO_TCP_def IPPROTO_UDP_def)
  moreover have "length ?p = 42" "take 6 ?p = take 6 (drop 6 pkt)" "take 6 (drop 6 ?p) = gSrcMac V" "get16 ?p 12 = htons 0x0800"
    using assms(1,6) by (simp_all add: ng_encode_icmp_pkt_def icmp_hdr_fields) (simp_all add: ether_hdr_def)
  moreover have "get32 ?p 26 = get32 pkt 30" "get32 ?p 30 = get32 pkt 26"
    using assms(1,6) by (simp_all add: ng_encode_icmp_pkt_def ipv4_hdr_fields)
  moreover have "?p ! 34 = 0" "get16 ?p 38 = get16 pkt 38" "get16 ?p 40 = get16 pkt 40" "ng_checksum (drop 34 ?p) = 0"
    using assms(1,6) by (simp_all add: ng_encode_icmp_pkt_def icmp_hdr_fields nth_append)
  ultimately show ?thesis by blast
qed

definition demo_ping :: bytes where
  "demo_ping = ether_hdr (gSrcMac demo_env) (replicate 6 7) 0x0800 @ ipv4_hdr ng_checksum 28 1 client_ip server_ip @ icmp_hdr 8 77 1"

theorem icmp_echo_reply_witness:
  "\<exists>p. pkt_process1 demo_packet_env demo_env (demo_stack []) demo_ping = Inr (emit demo_env (demo_stack []) p)
    \<and> get32 p 30 = client_ip \<and> get16 p 38 = 77 \<and> ng_checksum (drop 34 p) = 0"
proof -
  have p: "42 \<le> length demo_ping" "get16 demo_ping 12 = htons 0x0800" "demo_ping ! 23 = IPPROTO_ICMP" "demo_ping ! 34 = 8"
    "get32 demo_ping 26 = client_ip" "get16 demo_ping 38 = 77"
    by (simp_all add: demo_ping_def icmp_hdr_fields ipv4_hdr_fields nth_append IPPROTO_ICMP_def) (simp add: ether_hdr_def)
  show ?thesis using icmp_echo_reply [OF p(1-4), of demo_packet_env demo_env "demo_stack []"] p(5,6) by auto
qed

section \<open>UDP\<close>

text \<open>
  C34: a datagram is queued with the length of the UDP header counted in but without the header's bytes; reading it, with a
  buffer of any size, copies bytes from behind the queued data (or, with a buffer that takes it all, reads the
  structure after it was freed).
\<close>

theorem udp_receive_overread:
  assumes ring: "fifo (udp_api V) items cap" "0 < cap"
    and sock: "get_hostinfo_fromfd S n = Some (Udp i)"
    and host: "get_hostinfo_fromip_port S (get32 pkt 30) (get16 pkt 36) (pkt ! 23) = Some i"
    and buf: "h_rcvbuf (lhost S ! i) \<noteq> None" "queue items (h_rcvbuf (lhost S ! i)) = []"
    and recv: "udp_process m V S pkt = Inr (S', 0)"
  shows "nrecvfrom m' V S' n len \<in> {Inl OutOfBounds, Inl Segv}"
proof -
  let ?h = "lhost S ! i"
  let ?ol = "\<lparr>ol_sip = get32 pkt 26, ol_dip = get32 pkt 30, ol_sport = get16 pkt 34, ol_dport = get16 pkt 36,
    ol_data = take (unat (htons (get16 pkt 38)) - 8) (drop 42 pkt), ol_length = htons (get16 pkt 38)\<rparr>"
  have i: "i < length (lhost S)" using host by (simp add: get_hostinfo_fromip_port_def find_ix_Some)
  obtain r where r: "enq (udp_api V) (h_rcvbuf ?h) ?ol = Inr (Some r)" "items r = queue items (h_rcvbuf ?h) @ [?ol]"
    by (rule fifo_enq [OF ring(1) buf(1)]) (use ring(2) buf(2) in simp_all)
  have S': "S' = put_host S i (?h\<lparr>h_rcvbuf := Some r\<rparr>)" and len: "8 < htons (get16 pkt 38)"
    using recv host r(1) by (auto simp: udp_process_def Let_def split: if_splits)
  have short: "length (ol_data ?ol) < unat (ol_length ?ol)" using len by (simp add: word_less_nat_alt)
  have fds: "find_ix (\<lambda>h. n = h_fd h) (lhost S) = Some i"
    using sock by (auto simp: get_hostinfo_fromfd_def split: option.splits)
  then have "find_ix (\<lambda>h. n = h_fd h) (lhost S') = Some i"
    using i by (auto simp: find_ix_Some S' put_host_def)
  then have sock': "get_hostinfo_fromfd S' n = Some (Udp i)" by (simp add: get_hostinfo_fromfd_def)
  have h': "lhost S' ! i = ?h\<lparr>h_rcvbuf := Some r\<rparr>" using i by (simp add: S' put_host_def)
  obtain r' where "deq (udp_api V) (Some r) = Inr (Some (Some r', ?ol))"
    by (rule fifo_deq_Some [OF ring(1), of "Some r" ?ol "[]"]) (use r(2) buf(2) in simp_all)
  with sock' h' short show ?thesis by (simp add: nrecvfrom_def Let_def)
qed

definition demo_datagram :: bytes where
  "demo_datagram = ether_hdr (gSrcMac demo_env) (replicate 6 7) 0x0800 @ ipv4_hdr ng_checksum 30 17 client_ip server_ip
     @ raw16 (htons 5353) @ raw16 (htons 8889) @ raw16 (htons 10) @ raw16 0 @ [104, 105]"

theorem udp_receive_overread_witness:
  "\<exists>S'. udp_process malloc_ok demo_env (demo_stack []) demo_datagram = Inr (S', 0)
    \<and> nrecvfrom malloc_ok demo_env S' 5 128 \<in> {Inl OutOfBounds, Inl Segv}"
proof -
  have p: "length demo_datagram = 44" "get32 demo_datagram 30 = server_ip" "get16 demo_datagram 36 = htons 8889"
    "demo_datagram ! 23 = 17" "get16 demo_datagram 38 = htons 10"
    by (simp_all add: demo_datagram_def ipv4_hdr_fields nth_append)
  have s: "get_hostinfo_fromfd (demo_stack []) 5 = Some (Udp 0)"
    "get_hostinfo_fromip_port (demo_stack []) (get32 demo_datagram 30) (get16 demo_datagram 36) (demo_datagram ! 23) = Some 0"
    "h_rcvbuf (lhost (demo_stack []) ! 0) \<noteq> None" "queue id (h_rcvbuf (lhost (demo_stack []) ! 0)) = []"
    by (simp_all add: get_hostinfo_fromfd_def get_hostinfo_fromip_port_def demo_host_def p IPPROTO_UDP_def)
  obtain S' where u: "udp_process malloc_ok demo_env (demo_stack []) demo_datagram = Inr (S', 0)"
    using s(2) p by (auto simp: udp_process_def enq_def demo_host_def Let_def)
  have r: "fifo (udp_api demo_env) id 1023" by (simp add: list_ring_fifo)
  show ?thesis using udp_receive_overread [OF r _ s u, of malloc_ok 128] u by auto
qed

text \<open>
  A datagram that an application sends makes the encoder copy eight bytes more than the application gave, from behind
  its data.
\<close>

theorem udp_send_overread:
  assumes ring: "fifo (udp_api V) items cap" "0 < cap"
    and sock: "get_hostinfo_fromfd S n = Some (Udp i)"
    and buf: "h_sndbuf (lhost S ! i) \<noteq> None" "queue items (h_sndbuf (lhost S ! i)) = []"
    and send: "nsendto m V S n d ip port = Inr (S', k)" "0 \<le> k" "length d < 65536"
    and arp: "arpt S = Some t" "ng_get_dst_macaddr t ip = Some mac" and mem: "m' 1"
  shows "udp_out1 m' V S' i = Inl OutOfBounds"
proof -
  let ?h = "lhost S ! i"
  let ?ol = "\<lparr>ol_sip = localip ?h, ol_dip = ip, ol_sport = localport ?h, ol_dport = port, ol_data = d,
    ol_length = word_of_nat (length d)\<rparr>"
  have i: "i < length (lhost S)" using sock by (auto simp: get_hostinfo_fromfd_def find_ix_Some split: option.splits)
  obtain r where r: "enq (udp_api V) (h_sndbuf ?h) ?ol = Inr (Some r)" "items r = queue items (h_sndbuf ?h) @ [?ol]"
    by (rule fifo_enq [OF ring(1) buf(1)]) (use ring(2) buf(2) in simp_all)
  have S': "S' = put_host S i (?h\<lparr>h_sndbuf := Some r\<rparr>)"
    using send sock r(1) by (auto simp: nsendto_def Let_def split: if_splits)
  obtain r' where dq: "deq (udp_api V) (Some r) = Inr (Some (Some r', ?ol))"
    by (rule fifo_deq_Some [OF ring(1), of "Some r" ?ol "[]"]) (use r(2) buf(2) in simp_all)
  have "ng_udp_pkt True ck a b c e f g d (word_of_nat (length d)) = Inl OutOfBounds" for ck a b c e f g
  proof (cases "MBUF_DATAROOM < length d + 42")
    case False
    then have "unat (8 + word_of_nat (length d) :: 16 word) = length d + 8"
      by (simp add: unat_word_ariths unat_of_nat MBUF_DATAROOM_def)
    then show ?thesis by (simp add: ng_udp_pkt_def ng_encode_udp_apppkt_def Let_def)
  qed (use send(3) in \<open>simp add: ng_udp_pkt_def unat_of_nat\<close>)
  then show ?thesis
    using i dq arp mem by (simp add: udp_out1_def S' put_host_def Let_def arp_table_instance_def)
qed

theorem udp_send_overread_witness:
  "\<exists>S'. nsendto malloc_ok demo_env (demo_stack []) 5 [104, 105] client_ip 1111 = Inr (S', 2)
    \<and> udp_out1 malloc_ok demo_env S' 0 = Inl OutOfBounds"
proof -
  have s: "get_hostinfo_fromfd (demo_stack []) 5 = Some (Udp 0)"
    "h_sndbuf (lhost (demo_stack []) ! 0) \<noteq> None" "queue id (h_sndbuf (lhost (demo_stack []) ! 0)) = []"
    by (simp_all add: get_hostinfo_fromfd_def demo_host_def)
  obtain S' where u: "nsendto malloc_ok demo_env (demo_stack []) 5 [104, 105] client_ip 1111 = Inr (S', 2)"
    using s(1) by (auto simp: nsendto_def enq_def demo_host_def)
  have r: "fifo (udp_api demo_env) id 1023" by (simp add: list_ring_fifo)
  let ?t = "\<lparr>entries = [\<lparr>arp_ip = client_ip, hwaddr = replicate 6 7, arp_type = 0\<rparr>], arp_count = 1\<rparr>"
  have t: "arpt (demo_stack []) = Some ?t" "ng_get_dst_macaddr ?t client_ip = Some (replicate 6 7)"
    by (simp_all add: demo_stack_def ng_get_dst_macaddr_def)
  show ?thesis using udp_send_overread [OF r _ s u _ _ t, of malloc_ok] u by auto
qed

end
