(* ===== verification/Contacts.thy ===== *)
theory Contacts
  imports C_Prelude
begin

text \<open>
  The address book of \<^verbatim>\<open>src/00/02_contacts/Contacts_task.c\<close> on an explicit heap: a doubly linked list of persons per
  initial letter, kept in the order of \<^verbatim>\<open>strcmp\<close>. Addresses are natural numbers (0 is NULL); an access to an address that
  is not live is a fault, as is a word that does not fit the array it is read into. What the user types and whether
  files open are arguments; the operations return the text they write. Loops take fuel, of which the operations have as
  much as there are addresses.
\<close>

section \<open>Data\<close>

type_synonym addr = nat

record person =
  pname :: string
  phone_number :: string
  pnext :: addr
  previous :: addr

record contacts =
  groups :: "addr list"
  contact_count :: int
  people :: "addr \<Rightarrow> person option"
  top :: addr

definition NAME_LENGTH :: nat where "NAME_LENGTH = 16"
definition PHONE_NUMBER_LENGTH :: nat where "PHONE_NUMBER_LENGTH = 32"
definition ALPHABET_COUNT :: nat where "ALPHABET_COUNT = 26"

definition load_at :: "contacts \<Rightarrow> addr \<Rightarrow> person res" where
  "load_at B p = (case people B p of None \<Rightarrow> Inl Segv | Some c \<Rightarrow> Inr c)"

definition store_at :: "contacts \<Rightarrow> addr \<Rightarrow> (person \<Rightarrow> person) \<Rightarrow> contacts res" where
  "store_at B p f = (case people B p of None \<Rightarrow> Inl Segv | Some c \<Rightarrow> Inr (B\<lparr>people := (people B)(p \<mapsto> f c)\<rparr>))"

text \<open>A fresh person, with what the memory holds in the link fields.\<close>

definition new_person :: "contacts \<Rightarrow> person \<Rightarrow> contacts \<times> addr" where
  "new_person B c = (B\<lparr>people := (people B)(top B \<mapsto> c), top := Suc (top B)\<rparr>, top B)"

definition free_person :: "contacts \<Rightarrow> addr \<Rightarrow> contacts" where
  "free_person B p = B\<lparr>people := (people B)(p := None)\<rparr>"

section \<open>Groups\<close>

definition toupper :: "char \<Rightarrow> nat" where
  "toupper c = (let n = of_char c in if 97 \<le> n \<and> n \<le> 122 then n - 32 else n)"

fun get_name_index :: "string \<Rightarrow> int" where
  "get_name_index [] = -1"
| "get_name_index (c # _) = (if 65 \<le> toupper c \<and> toupper c \<le> 90 then int (toupper c) - 65 else -1)"

text \<open>The search for the place of a name: the node it goes in front of and the one it goes behind.\<close>

fun insert_place :: "nat \<Rightarrow> contacts \<Rightarrow> string \<Rightarrow> addr \<Rightarrow> addr \<Rightarrow> (addr \<times> addr) res" where
  "insert_place 0 B name current prev = Inl NoFuel"
| "insert_place (Suc fuel) B name current prev =
     (if current = 0 then Inr (current, prev)
      else andthen (load_at B current) (\<lambda>c.
        if strcmp_sign name (pname c) > 0 then insert_place fuel B name (pnext c) current else Inr (current, prev)))"

definition set_group :: "contacts \<Rightarrow> nat \<Rightarrow> addr \<Rightarrow> contacts" where
  "set_group B g p = B\<lparr>groups := (groups B)[g := p]\<rparr>"

definition person_insert :: "contacts \<Rightarrow> nat \<Rightarrow> addr \<Rightarrow> (contacts \<times> int) res" where
  "person_insert B g p =
     (if p = 0 then Inr (B, -1)
      else if groups B ! g = 0 then
        andthen (store_at B p (\<lambda>c. c\<lparr>pnext := 0, previous := 0\<rparr>)) (\<lambda>B. Inr (set_group B g p, 0))
      else andthen (load_at B p) (\<lambda>n.
        andthen (insert_place (Suc (top B)) B (pname n) (groups B ! g) 0) (\<lambda>(current, prev).
        andthen (store_at B p (\<lambda>c. c\<lparr>pnext := current, previous := prev\<rparr>)) (\<lambda>B.
        andthen (if prev \<noteq> 0 then store_at B prev (\<lambda>c. c\<lparr>pnext := p\<rparr>) else Inr (set_group B g p)) (\<lambda>B.
        andthen (if current \<noteq> 0 then store_at B current (\<lambda>c. c\<lparr>previous := p\<rparr>) else Inr B) (\<lambda>B.
        Inr (B, 0)))))))"

text \<open>\<^verbatim>\<open>LIST_REMOVE\<close>.\<close>

definition person_delete :: "contacts \<Rightarrow> nat \<Rightarrow> addr \<Rightarrow> (contacts \<times> int) res" where
  "person_delete B g p =
     (if p = 0 then Inr (B, -1)
      else andthen (load_at B p) (\<lambda>c.
        andthen (if previous c \<noteq> 0 then store_at B (previous c) (\<lambda>d. d\<lparr>pnext := pnext c\<rparr>) else Inr B) (\<lambda>B.
        andthen (if pnext c \<noteq> 0 then store_at B (pnext c) (\<lambda>d. d\<lparr>previous := previous c\<rparr>) else Inr B) (\<lambda>B.
        andthen (Inr (if groups B ! g = p then set_group B g (pnext c) else B)) (\<lambda>B.
        andthen (store_at B p (\<lambda>d. d\<lparr>previous := 0, pnext := 0\<rparr>)) (\<lambda>B. Inr (B, 0)))))))"

fun person_search_in_group :: "nat \<Rightarrow> contacts \<Rightarrow> addr \<Rightarrow> string \<Rightarrow> addr res" where
  "person_search_in_group 0 B item name = Inl NoFuel"
| "person_search_in_group (Suc fuel) B item name =
     (if item = 0 then Inr 0
      else andthen (load_at B item) (\<lambda>c.
        if strcmp_sign (pname c) name = 0 then Inr item else person_search_in_group fuel B (pnext c) name))"

definition person_search_global :: "contacts \<Rightarrow> string \<Rightarrow> addr res" where
  "person_search_global B name =
     (let index = get_name_index name in
      if index < 0 \<or> int ALPHABET_COUNT \<le> index then Inr 0
      else person_search_in_group (Suc (top B)) B (groups B ! nat index) name)"

text \<open>The persons of a list, in order: what the loops that print and save go through.\<close>

fun walk :: "nat \<Rightarrow> contacts \<Rightarrow> addr \<Rightarrow> (string \<times> string) list res" where
  "walk 0 B item = Inl NoFuel"
| "walk (Suc fuel) B item =
     (if item = 0 then Inr []
      else andthen (load_at B item) (\<lambda>c.
           andthen (walk fuel B (pnext c)) (\<lambda>r. Inr ((pname c, phone_number c) # r))))"

fun walk_groups :: "contacts \<Rightarrow> addr list \<Rightarrow> (string \<times> string) list list res" where
  "walk_groups B [] = Inr []"
| "walk_groups B (g # gs) = andthen (walk (Suc (top B)) B g) (\<lambda>r. andthen (walk_groups B gs) (\<lambda>rs. Inr (r # rs)))"

section \<open>Text\<close>

definition entry_line :: "string \<times> string \<Rightarrow> string" where
  "entry_line e = ''name: '' @ fst e @ '', phone: '' @ snd e @ [CHR 0x0A]"

text \<open>
  What is printed: every group that is not empty with its persons, a line for each, and the number of persons.
\<close>

definition person_traversal :: "contacts \<Rightarrow> ((nat \<times> (string \<times> string) list) list \<times> nat) res" where
  "person_traversal B = andthen (walk_groups B (groups B)) (\<lambda>rs.
     Inr (filter (\<lambda>(i, r). r \<noteq> []) (enumerate 0 rs), length (concat rs)))"

text \<open>Printing one group: nothing but a note when it is empty, its persons otherwise.\<close>

definition person_traversal_group :: "contacts \<Rightarrow> addr \<Rightarrow> (string \<times> string) list option res" where
  "person_traversal_group B group_head =
     (if group_head = 0 then Inr None else andthen (walk (Suc (top B)) B group_head) (\<lambda>r. Inr (Some r)))"

section \<open>The entries of the menu\<close>

text \<open>\<open>ok\<close> is whether memory is available; \<open>name\<close> and \<open>phone\<close> are the words the user types.\<close>

definition insert_entry :: "bool \<Rightarrow> person \<Rightarrow> contacts \<Rightarrow> string \<Rightarrow> string \<Rightarrow> (contacts \<times> int) res" where
  "insert_entry ok junk B name phone =
     (if \<not> ok then Inr (B, -2)
      else if NAME_LENGTH \<le> length name \<or> PHONE_NUMBER_LENGTH \<le> length phone then Inl OutOfBounds
      else case new_person B (junk\<lparr>pname := name, phone_number := phone\<rparr>) of (B, p) \<Rightarrow>
        let index = get_name_index name in
        if index < 0 \<or> int ALPHABET_COUNT \<le> index then Inr (free_person B p, -3)
        else andthen (person_insert B (nat index) p) (\<lambda>(B, r).
          if r \<noteq> 0 then Inr (free_person B p, -3) else Inr (B\<lparr>contact_count := contact_count B + 1\<rparr>, 0)))"

definition print_entry :: "contacts \<Rightarrow> ((nat \<times> (string \<times> string) list) list \<times> nat) res" where
  "print_entry B = person_traversal B"

definition delete_entry :: "contacts \<Rightarrow> string \<Rightarrow> (contacts \<times> int) res" where
  "delete_entry B name =
     (if NAME_LENGTH \<le> length name then Inl OutOfBounds
      else let index = get_name_index name in
      if index < 0 \<or> int ALPHABET_COUNT \<le> index then Inr (B, -2)
      else andthen (person_search_in_group (Suc (top B)) B (groups B ! nat index) name) (\<lambda>ps.
        if ps = 0 then Inr (B, -2)
        else andthen (person_delete B (nat index) ps) (\<lambda>(B, _).
          Inr ((free_person B ps)\<lparr>contact_count := contact_count B - 1\<rparr>, 0))))"

definition search_entry :: "contacts \<Rightarrow> string \<Rightarrow> ((string \<times> string) option \<times> int) res" where
  "search_entry B name =
     (if NAME_LENGTH \<le> length name then Inl OutOfBounds
      else andthen (person_search_global B name) (\<lambda>ps.
        if ps = 0 then Inr (None, -2)
        else andthen (load_at B ps) (\<lambda>c. Inr (Some (pname c, phone_number c), 0))))"

section \<open>Files\<close>

definition save_file :: "bool \<Rightarrow> contacts \<Rightarrow> (string \<times> int) res" where
  "save_file opened B =
     (if \<not> opened then Inr ([], -1)
      else andthen (walk_groups B (groups B)) (\<lambda>rs. Inr (concat (map entry_line (concat rs)), 0)))"

text \<open>
  One call of \<^verbatim>\<open>fscanf\<close> with the format \<^verbatim>\<open>"name: %[^,], phone: %s\n"\<close>: a blank or newline of the format takes any
  white space, the two conversions take at least one character and store it in arrays of \<open>nmax\<close> and \<open>pmax\<close>; the text has no NUL. The result is the two
  words and the rest of the input, if both were converted.
\<close>

definition isspace :: "char \<Rightarrow> bool" where
  "isspace c \<longleftrightarrow> c \<in> {CHR 0x20, CHR 0x09, CHR 0x0A, CHR 0x0B, CHR 0x0C, CHR 0x0D}"

definition skip_ws :: "string \<Rightarrow> string" where
  "skip_ws s = dropWhile isspace s"

definition literal :: "string \<Rightarrow> string \<Rightarrow> string option" where
  "literal w s = (if take (length w) s = w then Some (drop (length w) s) else None)"

definition scan_entry :: "nat \<Rightarrow> nat \<Rightarrow> string \<Rightarrow> (string \<times> string \<times> string) option res" where
  "scan_entry nmax pmax s =
     (case literal ''name:'' s of None \<Rightarrow> Inr None | Some s \<Rightarrow>
      let s = skip_ws s; name = takeWhile (\<lambda>c. c \<noteq> CHR '','') s in
      if name = [] then Inr None
      else if nmax \<le> length name then Inl OutOfBounds
      else case literal '','' (drop (length name) s) of None \<Rightarrow> Inr None | Some s \<Rightarrow>
      case literal ''phone:'' (skip_ws s) of None \<Rightarrow> Inr None | Some s \<Rightarrow>
      let s = skip_ws s; phone = takeWhile (\<lambda>c. \<not> isspace c) s in
      if phone = [] then Inr None
      else if pmax \<le> length phone then Inl OutOfBounds
      else Inr (Some (name, phone, skip_ws (drop (length phone) s))))"

lemma skip_ws_length: "length (skip_ws s) \<le> length s"
  by (simp add: skip_ws_def length_dropWhile_le)

lemma literal_length: "literal w s = Some r \<Longrightarrow> length r = length s - length w \<and> length w \<le> length s"
  by (auto simp: literal_def split: if_splits dest: arg_cong [where f = length])

lemma scan_entry_length:
  assumes "scan_entry nmax pmax s = Inr (Some (name, phone, r))"
  shows "length r < length s"
proof -
  obtain s1 s2 s3 where s: "literal ''name:'' s = Some s1"
    "literal '','' (drop (length name) (skip_ws s1)) = Some s2" "literal ''phone:'' (skip_ws s2) = Some s3"
    "r = skip_ws (drop (length phone) (skip_ws s3))"
    using assms by (auto simp: scan_entry_def Let_def split: option.splits if_splits)
  show ?thesis
    using literal_length [OF s(1)] literal_length [OF s(2)] literal_length [OF s(3)] s(4) skip_ws_length [of s1]
      skip_ws_length [of s2] skip_ws_length [of s3] skip_ws_length [of "drop (length phone) (skip_ws s3)"]
    by simp linarith
qed

function load_loop :: "mallocs \<Rightarrow> person \<Rightarrow> nat \<Rightarrow> contacts \<Rightarrow> int \<Rightarrow> string \<Rightarrow> (contacts \<times> int) res" where
  "load_loop m junk i B count text =
     (case scan_entry NAME_LENGTH PHONE_NUMBER_LENGTH text of
        Inl e \<Rightarrow> Inl e
      | Inr None \<Rightarrow> Inr (B\<lparr>contact_count := count\<rparr>, 0)
      | Inr (Some (name, phone, rest)) \<Rightarrow>
          if \<not> m i then Inr (B, -2)
          else case new_person B (junk\<lparr>pname := name, phone_number := phone, pnext := 0, previous := 0\<rparr>) of (B, p) \<Rightarrow>
            let index = get_name_index name in
            if 0 \<le> index \<and> index < int ALPHABET_COUNT
            then andthen (person_insert B (nat index) p) (\<lambda>(B, _). load_loop m junk (Suc i) B (count + 1) rest)
            else load_loop m junk (Suc i) (free_person B p) count rest)"
  by pat_completeness auto
termination
  by (relation "measure (\<lambda>(_, _, _, _, _, text). length text)") (auto dest: scan_entry_length)

declare load_loop.simps [simp del]

definition load_file :: "bool \<Rightarrow> mallocs \<Rightarrow> person \<Rightarrow> contacts \<Rightarrow> string \<Rightarrow> (contacts \<times> int) res" where
  "load_file opened m junk B text =
     (if \<not> opened then Inr (B, -1) else load_loop m junk 0 B 0 text)"

definition save_entry :: "bool \<Rightarrow> contacts \<Rightarrow> string \<Rightarrow> (string \<times> int) res" where
  "save_entry opened B filename =
     (if NAME_LENGTH \<le> length filename then Inl OutOfBounds else save_file opened B)"

definition load_entry :: "bool \<Rightarrow> mallocs \<Rightarrow> person \<Rightarrow> contacts \<Rightarrow> string \<Rightarrow> string \<Rightarrow> (contacts \<times> int) res" where
  "load_entry opened m junk B filename text =
     (if NAME_LENGTH \<le> length filename then Inl OutOfBounds else load_file opened m junk B text)"

text \<open>
  One round of the menu: the number that is chosen, the words that are typed after it, and the files. The loop ignores
  the value an entry returns; any other number only shows the menu again.
\<close>

record menu_input =
  select :: int
  word1 :: string
  word2 :: string
  file_ok :: bool
  file_text :: string

definition menu_round :: "mallocs \<Rightarrow> person \<Rightarrow> contacts \<Rightarrow> menu_input \<Rightarrow> contacts res" where
  "menu_round m junk B i =
     (if select i = 1 then andthen (insert_entry (m 0) junk B (word1 i) (word2 i)) (\<lambda>(B, _). Inr B)
      else if select i = 2 then andthen (delete_entry B (word1 i)) (\<lambda>(B, _). Inr B)
      else if select i = 3 then andthen (search_entry B (word1 i)) (\<lambda>_. Inr B)
      else if select i = 4 then andthen (print_entry B) (\<lambda>_. Inr B)
      else if select i = 5 then andthen (save_entry (file_ok i) B (word1 i)) (\<lambda>_. Inr B)
      else if select i = 6 then andthen (load_entry (file_ok i) m junk B (word1 i) (file_text i)) (\<lambda>(B, _). Inr B)
      else Inr B)"

text \<open>A session: one round after the other, each with the allocations and the memory it meets.\<close>

fun menu_session :: "(mallocs \<times> person \<times> menu_input) list \<Rightarrow> contacts \<Rightarrow> contacts res" where
  "menu_session [] B = Inr B"
| "menu_session ((m, junk, i) # rds) B = andthen (menu_round m junk B i) (menu_session rds)"

text \<open>The book that \<^verbatim>\<open>main\<close> starts with.\<close>

definition empty_book :: contacts where
  "empty_book = \<lparr>groups = replicate ALPHABET_COUNT 0, contact_count = 0, people = Map.empty, top = 1\<rparr>"

end
