(* ===== verification/Contacts_Rep.thy ===== *)
theory Contacts_Rep
  imports Contacts
begin

text \<open>
  The lists of the address book as the heap holds them, and what the operations of the interface layer do to them.
\<close>

section \<open>Doubly linked segments\<close>

type_synonym node = "addr \<times> string \<times> string"

text \<open>
  The nodes from \<open>p\<close> on, the first one with \<open>pr\<close> as its predecessor; the last one is \<open>l\<close> and its successor \<open>q\<close>.
\<close>

fun dseg :: "(addr \<Rightarrow> person option) \<Rightarrow> addr \<Rightarrow> addr \<Rightarrow> node list \<Rightarrow> addr \<Rightarrow> addr \<Rightarrow> bool" where
  "dseg h pr p [] q l \<longleftrightarrow> p = q \<and> l = pr"
| "dseg h pr p ((a, n, ph) # xs) q l \<longleftrightarrow> p = a \<and> a \<noteq> 0 \<and>
     (\<exists>c. h a = Some c \<and> pname c = n \<and> phone_number c = ph \<and> previous c = pr \<and> dseg h a (pnext c) xs q l)"

lemma dseg_append: "dseg h pr p (xs @ ys) q l \<longleftrightarrow> (\<exists>r m. dseg h pr p xs r m \<and> dseg h m r ys q l)"
  by (induction xs arbitrary: pr p) (simp, fastforce)

lemma dseg_frame [simp]: "a \<notin> fst ` set xs \<Longrightarrow> dseg (h(a := c)) pr p xs q l = dseg h pr p xs q l"
  by (induction xs arbitrary: pr p) auto

lemma dseg_cong:
  assumes "dseg h pr p xs q l" "\<forall>a \<in> fst ` set xs. h' a = h a"
  shows "dseg h' pr p xs q l"
  using assms by (induction xs arbitrary: pr p) auto

lemma dseg_live: "dseg h pr p xs q l \<Longrightarrow> a \<in> fst ` set xs \<Longrightarrow> a \<noteq> 0 \<and> h a \<noteq> None"
proof (induction xs arbitrary: pr p)
  case (Cons x xs)
  obtain b n ph where x: "x = (b, n, ph)" by (cases x)
  with Cons.prems(1) obtain c where "h b = Some c" "b \<noteq> 0" "dseg h b (pnext c) xs q l" by auto
  with Cons.IH [of b "pnext c"] Cons.prems(2) x show ?case by auto
qed simp

lemma dseg_first:
  assumes "dseg h pr p xs q l" "xs \<noteq> []"
  shows "p = fst (hd xs) \<and> p \<noteq> 0"
  using assms by (cases xs) auto

lemma dseg_last:
  assumes "dseg h pr p xs q l" "xs \<noteq> []"
  shows "l = fst (last xs) \<and> l \<noteq> 0"
  using assms by (induction xs arbitrary: pr p) (auto split: if_splits)

text \<open>Redirecting the last node, and the first one backwards.\<close>

lemma dseg_set_next:
  assumes "dseg h pr p xs q l" "xs \<noteq> []" "distinct (map fst xs)" "h l = Some c"
  shows "dseg (h(l \<mapsto> c\<lparr>pnext := q'\<rparr>)) pr p xs q' l"
  using assms
proof (induction xs arbitrary: pr p)
  case (Cons x xs)
  obtain a n ph where x: "x = (a, n, ph)" by (cases x)
  show ?case
  proof (cases "xs = []")
    case False
    with Cons.prems x have "l = fst (last xs)" "last xs \<in> set xs" using dseg_last [of h a _ xs q l] by auto
    with Cons.prems x have "a \<noteq> l" by auto
    with Cons False x show ?thesis by auto
  qed (use Cons.prems x in auto)
qed simp

lemma dseg_set_previous:
  assumes "dseg h pr p xs q l" "xs \<noteq> []" "distinct (map fst xs)" "h p = Some c"
  shows "dseg (h(p \<mapsto> c\<lparr>previous := pr'\<rparr>)) pr' p xs q l"
  using assms by (cases xs) auto

section \<open>Linking and unlinking\<close>

lemma hd_not_before: "distinct (map fst (us @ vs)) \<Longrightarrow> vs \<noteq> [] \<Longrightarrow> fst (hd vs) \<notin> fst ` set us"
  by (cases vs) auto

lemma last_not_behind: "distinct (map fst (us @ vs)) \<Longrightarrow> us \<noteq> [] \<Longrightarrow> fst (last us) \<notin> fst ` set vs"
  by (cases us rule: rev_cases) auto

lemma dseg_insert:
  assumes u: "dseg h 0 p us r m" and v: "dseg h m r vs 0 l" and dist: "distinct (map fst (us @ vs))"
    and a: "a \<notin> fst ` set (us @ vs)" "a \<noteq> 0"
    and h1: "h1 = h(a \<mapsto> c\<lparr>pnext := r, previous := m\<rparr>)"
    and h2: "h2 = (if m \<noteq> 0 then h1(m \<mapsto> (the (h1 m))\<lparr>pnext := a\<rparr>) else h1)"
    and h3: "h3 = (if r \<noteq> 0 then h2(r \<mapsto> (the (h2 r))\<lparr>previous := a\<rparr>) else h2)"
  shows "\<exists>l'. dseg h3 0 (if m = 0 then a else p) (us @ (a, pname c, phone_number c) # vs) 0 l'"
proof -
  have m: "m = (if us = [] then 0 else fst (last us))" using dseg_last [OF u] u by (cases us) auto
  have m0: "m = 0 \<longleftrightarrow> us = []" using dseg_last [OF u] u by (cases us) auto
  have r: "r = (if vs = [] then 0 else fst (hd vs))" using dseg_first [OF v] v by (cases vs) auto
  have r0: "r = 0 \<longleftrightarrow> vs = []" using dseg_first [OF v] v by (cases vs) auto
  have am: "a \<noteq> m" "a \<noteq> r" using a by (auto simp: m r)
  have av: "a \<notin> fst ` set us" "a \<notin> fst ` set vs" using a(1) by auto
  have ru: "r \<notin> fst ` set us" if "vs \<noteq> []"
    using hd_not_before [OF dist that] that by (simp add: r)
  have mv: "m \<notin> fst ` set vs" if "us \<noteq> []"
    using last_not_behind [OF dist that] that by (simp add: m)
  have rm: "r \<noteq> m" if "us \<noteq> []" "vs \<noteq> []" using ru [OF that(2)] last_in_set [OF that(1)] m that by auto
  have us2: "dseg h2 0 (if m = 0 then a else p) us a m"
  proof (cases "us = []")
    case False
    have live: "h m \<noteq> None" using dseg_live [OF u, of m] False m by auto
    then obtain d where d: "h m = Some d" by auto
    have "dseg h1 0 p us r m" using u av by (simp add: h1)
    then have "dseg (h1(m \<mapsto> d\<lparr>pnext := a\<rparr>)) 0 p us a m"
      by (rule dseg_set_next) (use False dist d am in \<open>auto simp: h1\<close>)
    with False m0 d am show ?thesis by (simp add: h2 h1)
  qed (use u m0 in \<open>simp add: h2\<close>)
  have us3: "dseg h3 0 (if m = 0 then a else p) us a m"
    using us2 ru r0 by (cases "vs = []") (simp_all add: h3)
  have a3: "h3 a = Some (c\<lparr>pnext := r, previous := m\<rparr>)" using am by (simp add: h3 h2 h1)
  have vs2: "dseg h2 m r vs 0 l" using v av mv m0 by (cases "us = []") (simp_all add: h2 h1)
  have "\<exists>l'. dseg h3 a r vs 0 l'"
  proof (cases "vs = []")
    case False
    then obtain d where d: "h2 r = Some d" using dseg_live [OF vs2, of r] r by auto
    have "dseg (h2(r \<mapsto> d\<lparr>previous := a\<rparr>)) a r vs 0 l"
      by (rule dseg_set_previous [OF vs2 False _ d]) (use dist in auto)
    with False r0 d show ?thesis by (auto simp: h3)
  qed (use r0 in \<open>simp add: h3\<close>)
  with us3 a3 a(2) show ?thesis unfolding dseg_append by auto
qed

lemma dseg_remove:
  assumes u: "dseg h 0 p us a m" and v: "dseg h a r vs 0 l" and dist: "distinct (map fst (us @ vs))"
    and a: "a \<notin> fst ` set (us @ vs)" "a \<noteq> 0"
    and h1: "h1 = (if m \<noteq> 0 then h(m \<mapsto> (the (h m))\<lparr>pnext := r\<rparr>) else h)"
    and h2: "h2 = (if r \<noteq> 0 then h1(r \<mapsto> (the (h1 r))\<lparr>previous := m\<rparr>) else h1)"
    and h3: "\<forall>b. b \<noteq> a \<longrightarrow> h3 b = h2 b"
  shows "\<exists>l'. dseg h3 0 (if p = a then r else p) (us @ vs) 0 l'"
proof -
  have m: "m = (if us = [] then 0 else fst (last us))" using dseg_last [OF u] u by (cases us) auto
  have m0: "m = 0 \<longleftrightarrow> us = []" using dseg_last [OF u] u by (cases us) auto
  have r: "r = (if vs = [] then 0 else fst (hd vs))" using dseg_first [OF v] v by (cases vs) auto
  have r0: "r = 0 \<longleftrightarrow> vs = []" using dseg_first [OF v] v by (cases vs) auto
  have pa: "p = a \<longleftrightarrow> us = []" using u a(1) dseg_first [OF u] by (cases us) auto
  have ru: "r \<notin> fst ` set us" if "vs \<noteq> []"
    using hd_not_before [OF dist that] that by (simp add: r)
  have mv: "m \<notin> fst ` set vs" if "us \<noteq> []"
    using last_not_behind [OF dist that] that by (simp add: m)
  have us1: "dseg h1 0 (if p = a then r else p) us r m"
  proof (cases "us = []")
    case False
    then obtain d where d: "h m = Some d" using dseg_live [OF u, of m] m by auto
    have "dseg (h(m \<mapsto> d\<lparr>pnext := r\<rparr>)) 0 p us r m"
      by (rule dseg_set_next [OF u False _ d]) (use dist in auto)
    with False m0 pa d show ?thesis by (simp add: h1)
  qed (use u m0 pa in \<open>simp add: h1\<close>)
  have us2: "dseg h2 0 (if p = a then r else p) us r m"
    using us1 ru r0 by (cases "vs = []") (simp_all add: h2)
  have vs1: "dseg h1 a r vs 0 l" using v mv m0 by (cases "us = []") (simp_all add: h1)
  have "\<exists>l'. dseg h2 m r vs 0 l'"
  proof (cases "vs = []")
    case False
    then obtain d where d: "h1 r = Some d" using dseg_live [OF vs1, of r] r by auto
    have "dseg (h1(r \<mapsto> d\<lparr>previous := m\<rparr>)) m r vs 0 l"
      by (rule dseg_set_previous [OF vs1 False _ d]) (use dist in auto)
    with False r0 d show ?thesis by (auto simp: h2)
  qed (use r0 in \<open>simp add: h2\<close>)
  with us2 obtain l' where "dseg h2 0 (if p = a then r else p) (us @ vs) 0 l'" unfolding dseg_append by blast
  then have "dseg h3 0 (if p = a then r else p) (us @ vs) 0 l'"
    by (rule dseg_cong) (use h3 a(1) in auto)
  then show ?thesis ..
qed

section \<open>Inserting into a group\<close>

definition insert_node :: "node \<Rightarrow> node list \<Rightarrow> node list" where
  "insert_node x xs = insort_key (\<lambda>(_, n, _). n) x xs"

lemma insort_split:
  "insert_node x xs = takeWhile (\<lambda>y. fst (snd y) < fst (snd x)) xs @ x # dropWhile (\<lambda>y. fst (snd y) < fst (snd x)) xs"
  unfolding insert_node_def by (induction xs) (auto simp: case_prod_unfold not_le)

lemma insert_place_spec:
  assumes "dseg (people B) pr p xs 0 l" "length xs < fuel"
  shows "insert_place fuel B name p pr =
    Inr (case dropWhile (\<lambda>y. fst (snd y) < name) xs of [] \<Rightarrow> 0 | y # _ \<Rightarrow> fst y,
      (case takeWhile (\<lambda>y. fst (snd y) < name) xs of [] \<Rightarrow> pr | ys \<Rightarrow> fst (last ys)))"
  using assms
proof (induction xs arbitrary: pr p fuel)
  case Nil
  then show ?case by (cases fuel) auto
next
  case (Cons x xs)
  obtain a n ph where x: "x = (a, n, ph)" by (cases x)
  obtain f where f: "fuel = Suc f" using Cons.prems(2) by (cases fuel) auto
  obtain c where c: "people B a = Some c" "pname c = n" "dseg (people B) a (pnext c) xs 0 l" "p = a" "a \<noteq> 0"
    using Cons.prems(1) x by auto
  have "insert_place f B name (pnext c) a =
    Inr (case dropWhile (\<lambda>y. fst (snd y) < name) xs of [] \<Rightarrow> 0 | y # _ \<Rightarrow> fst y,
      (case takeWhile (\<lambda>y. fst (snd y) < name) xs of [] \<Rightarrow> a | ys \<Rightarrow> fst (last ys)))"
    using Cons.IH [OF c(3)] Cons.prems(2) f by simp
  with c f x show ?case by (auto simp: load_at_def split: list.splits)
qed

section \<open>The book on the heap\<close>

definition book_rep :: "contacts \<Rightarrow> node list list \<Rightarrow> bool" where
  "book_rep B gs \<longleftrightarrow> length (groups B) = ALPHABET_COUNT \<and> length gs = ALPHABET_COUNT \<and> 0 < top B
     \<and> (\<forall>g < ALPHABET_COUNT. (\<exists>l. dseg (people B) 0 (groups B ! g) (gs ! g) 0 l) \<and> distinct (map fst (gs ! g))
         \<and> (\<forall>a \<in> fst ` set (gs ! g). a < top B))
     \<and> (\<forall>g < ALPHABET_COUNT. \<forall>g' < ALPHABET_COUNT. g \<noteq> g' \<longrightarrow> fst ` set (gs ! g) \<inter> fst ` set (gs ! g') = {})"

lemma book_repD:
  assumes "book_rep B gs" "g < ALPHABET_COUNT"
  shows "length (groups B) = ALPHABET_COUNT" "length gs = ALPHABET_COUNT" "0 < top B"
    "\<exists>l. dseg (people B) 0 (groups B ! g) (gs ! g) 0 l" "distinct (map fst (gs ! g))" "\<forall>a \<in> fst ` set (gs ! g). a < top B"
  using assms by (auto simp: book_rep_def)

lemma book_rep_disjoint:
  assumes "book_rep B gs" "g < ALPHABET_COUNT" "k < ALPHABET_COUNT" "g \<noteq> k"
  shows "fst ` set (gs ! g) \<inter> fst ` set (gs ! k) = {}"
  using assms by (simp add: book_rep_def)

text \<open>The fuel of the loops is enough.\<close>

lemma book_rep_fuel:
  assumes "book_rep B gs" "g < ALPHABET_COUNT"
  shows "length (gs ! g) < Suc (top B)"
proof -
  have "fst ` set (gs ! g) \<subseteq> {..<top B}" using book_repD(6) [OF assms] by auto
  then have "card (fst ` set (gs ! g)) \<le> top B" using card_mono [of "{..<top B}"] by fastforce
  then show ?thesis using distinct_card [OF book_repD(5) [OF assms]] by simp
qed

text \<open>Replacing the list of one group, with the heap unchanged on the others.\<close>

lemma book_rep_update:
  assumes rep: "book_rep B gs" and g: "g < ALPHABET_COUNT"
    and new: "dseg (people B') 0 (groups B' ! g) xs 0 l" "distinct (map fst xs)" "\<forall>a \<in> fst ` set xs. a < top B'"
    and len: "length (groups B') = ALPHABET_COUNT" "\<forall>g'. g' \<noteq> g \<longrightarrow> groups B' ! g' = groups B ! g'"
    and frame: "\<forall>g' < ALPHABET_COUNT. g' \<noteq> g \<longrightarrow> (\<forall>a \<in> fst ` set (gs ! g'). people B' a = people B a)"
    and top: "top B \<le> top B'" "\<forall>a \<in> fst ` set xs. a \<in> fst ` set (gs ! g) \<or> top B \<le> a"
  shows "book_rep B' (gs[g := xs])"
proof -
  have d: "\<exists>l. dseg (people B') 0 (groups B' ! k) (gs ! k) 0 l" if k: "k < ALPHABET_COUNT" "k \<noteq> g" for k
  proof -
    obtain l where "dseg (people B) 0 (groups B ! k) (gs ! k) 0 l" using book_repD(4) [OF rep k(1)] by blast
    then have "dseg (people B') 0 (groups B ! k) (gs ! k) 0 l" by (rule dseg_cong) (use frame k in auto)
    with len(2) k show ?thesis by auto
  qed
  have old: "a < top B" if "k < ALPHABET_COUNT" "a \<in> fst ` set (gs ! k)" for k a
    using book_repD(6) [OF rep that(1)] that(2) by blast
  have disj: "fst ` set xs \<inter> fst ` set (gs ! k) = {}" if k: "k < ALPHABET_COUNT" "k \<noteq> g" for k
  proof -
    have "fst ` set (gs ! g) \<inter> fst ` set (gs ! k) = {}" using rep g k by (auto simp: book_rep_def)
    then show ?thesis using top(2) old [OF k(1)] by (metis (no_types, lifting) disjoint_iff leD)
  qed
  have ln: "length gs = ALPHABET_COUNT" "0 < top B" using book_repD [OF rep g] by auto
  show ?thesis
    unfolding book_rep_def
  proof (intro conjI allI impI)
    fix k assume k: "k < ALPHABET_COUNT"
    show "\<exists>l. dseg (people B') 0 (groups B' ! k) (gs[g := xs] ! k) 0 l" using d [OF k] new(1) g ln by (cases "k = g") auto
    show "distinct (map fst (gs[g := xs] ! k))" using book_repD(5) [OF rep k] new(2) g ln by (cases "k = g") auto
    show "\<forall>a \<in> fst ` set (gs[g := xs] ! k). a < top B'"
      using book_repD(6) [OF rep k] new(3) top(1) g ln by (cases "k = g") force+
    fix k' assume k': "k' < ALPHABET_COUNT" "k \<noteq> k'"
    show "fst ` set (gs[g := xs] ! k) \<inter> fst ` set (gs[g := xs] ! k') = {}"
    proof (cases "k = g \<or> k' = g")
      case True
      then show ?thesis using disj [OF k] disj [OF k'(1)] k' g ln by (metis Int_commute nth_list_update_eq nth_list_update_neq)
    next
      case False
      then show ?thesis using rep k k' by (simp add: book_rep_def)
    qed
  qed (use len ln top in auto)
qed

lemma dseg_ends:
  assumes "dseg h 0 p us r m" "dseg h m r vs 0 l"
  shows "r = (case vs of [] \<Rightarrow> 0 | y # _ \<Rightarrow> fst y)" "m = (case us of [] \<Rightarrow> 0 | ys \<Rightarrow> fst (last ys))"
    "r \<noteq> 0 \<Longrightarrow> h r \<noteq> None \<and> r \<in> fst ` set vs" "m \<noteq> 0 \<Longrightarrow> h m \<noteq> None \<and> m \<in> fst ` set us"
proof -
  show "r = (case vs of [] \<Rightarrow> 0 | y # _ \<Rightarrow> fst y)" using assms(2) dseg_first [OF assms(2)] by (cases vs) auto
  show "m = (case us of [] \<Rightarrow> 0 | ys \<Rightarrow> fst (last ys))" using assms(1) dseg_last [OF assms(1)] by (cases us) auto
  show "h r \<noteq> None \<and> r \<in> fst ` set vs" if "r \<noteq> 0"
    using that assms(2) by (cases vs) auto
  show "h m \<noteq> None \<and> m \<in> fst ` set us" if "m \<noteq> 0"
  proof -
    have "us \<noteq> []" using assms(1) that by auto
    then have "m \<in> fst ` set us" using dseg_last [OF assms(1)] by simp
    with dseg_live [OF assms(1)] show ?thesis by blast
  qed
qed

lemma set_insert_node: "set (insert_node x xs) = insert x (set xs)"
  by (simp add: insert_node_def set_insort_key)

lemma distinct_insert_node: "distinct (map fst (insert_node x xs)) \<longleftrightarrow> distinct (map fst xs) \<and> fst x \<notin> fst ` set xs"
proof -
  define us vs where "us = takeWhile (\<lambda>y. fst (snd y) < fst (snd x)) xs" and "vs = dropWhile (\<lambda>y. fst (snd y) < fst (snd x)) xs"
  have "xs = us @ vs" "insert_node x xs = us @ x # vs" by (simp_all add: us_def vs_def insort_split)
  then show ?thesis by auto
qed

text \<open>What inserting does to the heap, for the place that was found.\<close>

definition linked :: "(addr \<Rightarrow> person option) \<Rightarrow> addr \<Rightarrow> addr \<Rightarrow> addr \<Rightarrow> (addr \<Rightarrow> person option)" where
  "linked h p r m =
     (let h1 = h(p \<mapsto> (the (h p))\<lparr>pnext := r, previous := m\<rparr>);
          h2 = (if m \<noteq> 0 then h1(m \<mapsto> (the (h1 m))\<lparr>pnext := p\<rparr>) else h1)
      in if r \<noteq> 0 then h2(r \<mapsto> (the (h2 r))\<lparr>previous := p\<rparr>) else h2)"

lemma linked_other: "b \<notin> {p, r, m} \<Longrightarrow> linked h p r m b = h b"
  by (simp add: linked_def Let_def)

lemma person_insert_linked:
  assumes p: "p \<noteq> 0" "people B p = Some c"
    and place: "insert_place (Suc (top B)) B (pname c) (groups B ! g) 0 = Inr (r, m)"
    and live: "r \<noteq> 0 \<Longrightarrow> people B r \<noteq> None" "m \<noteq> 0 \<Longrightarrow> people B m \<noteq> None" and first: "groups B ! g = 0 \<Longrightarrow> r = 0 \<and> m = 0"
  shows "person_insert B g p = Inr (B\<lparr>people := linked (people B) p r m,
    groups := if m = 0 then (groups B)[g := p] else groups B\<rparr>, 0)"
proof (cases "groups B ! g = 0")
  case True
  with p first show ?thesis by (simp add: person_insert_def store_at_def linked_def set_group_def)
next
  case False
  with p place live show ?thesis
    by (cases "m = 0"; cases "r = 0"; cases "m = p"; cases "r = p"; cases "r = m")
      (auto simp: person_insert_def store_at_def load_at_def linked_def set_group_def Let_def)
qed

lemma person_insert_rep:
  assumes rep: "book_rep B0 gs" and g: "g < ALPHABET_COUNT" and new: "new_person B0 c = (B, p)"
  obtains B' where "person_insert B g p = Inr (B', 0)"
    "book_rep B' (gs[g := insert_node (p, pname c, phone_number c) (gs ! g)])" "contact_count B' = contact_count B0"
proof -
  let ?xs = "gs ! g" and ?P = "\<lambda>y :: node. fst (snd y) < pname c"
  have B: "people B = (people B0)(p \<mapsto> c)" "groups B = groups B0" "top B = Suc (top B0)" "p = top B0" "contact_count B = contact_count B0"
    using new by (auto simp: new_person_def)
  have p0: "p \<noteq> 0" using book_repD(3) [OF rep g] B by simp
  have fresh: "p \<notin> fst ` set (gs ! k)" if "k < ALPHABET_COUNT" for k
    using book_repD(6) [OF rep that] B by auto
  obtain l where l: "dseg (people B) 0 (groups B ! g) ?xs 0 l"
    using book_repD(4) [OF rep g] fresh [OF g] B by auto
  define us vs where "us = takeWhile ?P ?xs" and "vs = dropWhile ?P ?xs"
  have xs: "?xs = us @ vs" by (simp add: us_def vs_def)
  obtain r m where u: "dseg (people B) 0 (groups B ! g) us r m" and v: "dseg (people B) m r vs 0 l"
    using l unfolding xs dseg_append by blast
  note ends = dseg_ends [OF u v]
  have ins: "insert_node (p, pname c, phone_number c) ?xs = us @ (p, pname c, phone_number c) # vs"
    by (simp add: insort_split us_def vs_def)
  have place: "insert_place (Suc (top B)) B (pname c) (groups B ! g) 0 = Inr (r, m)"
    using insert_place_spec [OF l, of "Suc (top B)" "pname c"] book_rep_fuel [OF rep g] B(3) ends(1,2)
    by (simp add: us_def vs_def del: insert_place.simps)
  have first: "groups B ! g = 0 \<Longrightarrow> r = 0 \<and> m = 0"
    using u v dseg_first [OF u] dseg_first [OF v] by (cases us; cases vs) auto
  define B' where "B' = B\<lparr>people := linked (people B) p r m, groups := if m = 0 then (groups B)[g := p] else groups B\<rparr>"
  have pi: "person_insert B g p = Inr (B', 0)"
    unfolding B'_def by (rule person_insert_linked [OF p0 _ place]) (use ends first B in auto)
  have dist: "distinct (map fst (us @ vs))" "p \<notin> fst ` set (us @ vs)"
    using book_repD(5) [OF rep g] fresh [OF g] unfolding xs by auto
  obtain l' where l': "dseg (people B') 0 (if m = 0 then p else groups B ! g) (us @ (p, pname c, phone_number c) # vs) 0 l'"
  proof -
    define h1 where "h1 = (people B)(p \<mapsto> c\<lparr>pnext := r, previous := m\<rparr>)"
    define h2 where "h2 = (if m \<noteq> 0 then h1(m \<mapsto> (the (h1 m))\<lparr>pnext := p\<rparr>) else h1)"
    have "people B' = (if r \<noteq> 0 then h2(r \<mapsto> (the (h2 r))\<lparr>previous := p\<rparr>) else h2)"
      by (simp add: B'_def linked_def Let_def h1_def h2_def B(1))
    with dseg_insert [OF u v dist p0 h1_def h2_def, of "people B'"] that show thesis by blast
  qed
  have rm: "r \<noteq> 0 \<Longrightarrow> r \<in> fst ` set ?xs" "m \<noteq> 0 \<Longrightarrow> m \<in> fst ` set ?xs" using ends(3,4) unfolding xs by auto
  have "book_rep B' (gs[g := insert_node (p, pname c, phone_number c) ?xs])"
  proof (rule book_rep_update [OF rep g])
    show "dseg (people B') 0 (groups B' ! g) (insert_node (p, pname c, phone_number c) ?xs) 0 l'"
      using l' g book_repD(1) [OF rep g] B(2) by (auto simp: ins B'_def)
    show "distinct (map fst (insert_node (p, pname c, phone_number c) ?xs))"
      using book_repD(5) [OF rep g] fresh [OF g] by (simp add: distinct_insert_node)
    show "\<forall>a \<in> fst ` set (insert_node (p, pname c, phone_number c) ?xs). a < top B'"
      using book_repD(6) [OF rep g] B by (auto simp: set_insert_node B'_def)
    show "\<forall>a \<in> fst ` set (insert_node (p, pname c, phone_number c) ?xs). a \<in> fst ` set ?xs \<or> top B0 \<le> a"
      using B(4) by (simp add: set_insert_node)
    show "\<forall>k < ALPHABET_COUNT. k \<noteq> g \<longrightarrow> (\<forall>a \<in> fst ` set (gs ! k). people B' a = people B0 a)"
    proof (intro allI impI ballI)
      fix k a assume k: "k < ALPHABET_COUNT" "k \<noteq> g" and a: "a \<in> fst ` set (gs ! k)"
      have "a \<noteq> p" using fresh [OF k(1)] a by auto
      moreover have "a \<notin> fst ` set ?xs" using book_rep_disjoint [OF rep k(1) g k(2)] a by blast
      moreover have "a \<noteq> 0" using book_repD(4) [OF rep k(1)] dseg_live a by blast
      ultimately have "a \<notin> {p, r, m}" using rm by auto
      then show "people B' a = people B0 a" using \<open>a \<noteq> p\<close> by (simp add: B'_def linked_other B(1))
    qed
  qed (use book_repD(1) [OF rep g] B in \<open>auto simp: B'_def\<close>)
  then show thesis using pi B(5) by (intro that [of B']) (auto simp: B'_def)
qed

section \<open>Searching, walking and deleting\<close>

lemma search_in_group_spec:
  assumes "dseg (people B) pr p xs 0 l" "length xs < fuel"
  shows "person_search_in_group fuel B p name = Inr (case find (\<lambda>(_, n, _). n = name) xs of None \<Rightarrow> 0 | Some (a, _) \<Rightarrow> a)"
  using assms
proof (induction xs arbitrary: pr p fuel)
  case (Cons x xs)
  obtain a n ph where x: "x = (a, n, ph)" by (cases x)
  obtain f where f: "fuel = Suc f" using Cons.prems(2) by (cases fuel) auto
  obtain c where c: "people B a = Some c" "pname c = n" "dseg (people B) a (pnext c) xs 0 l" "p = a" "a \<noteq> 0"
    using Cons.prems(1) x by auto
  with Cons.IH [OF c(3), of f] Cons.prems(2) f x show ?case by (simp add: load_at_def)
next
  case Nil
  then show ?case by (cases fuel) auto
qed

lemma walk_spec:
  assumes "dseg (people B) pr p xs 0 l" "length xs < fuel"
  shows "walk fuel B p = Inr (map snd xs)"
  using assms
proof (induction xs arbitrary: pr p fuel)
  case (Cons x xs)
  obtain a n ph where x: "x = (a, n, ph)" by (cases x)
  obtain f where f: "fuel = Suc f" using Cons.prems(2) by (cases fuel) auto
  obtain c where c: "people B a = Some c" "pname c = n" "phone_number c = ph" "dseg (people B) a (pnext c) xs 0 l" "p = a" "a \<noteq> 0"
    using Cons.prems(1) x by auto
  with Cons.IH [OF c(4), of f] Cons.prems(2) f x show ?case by (simp add: load_at_def)
next
  case Nil
  then show ?case by (cases fuel) auto
qed

lemma walk_groups_all:
  assumes "\<forall>g < length ps. walk (Suc (top B)) B (ps ! g) = Inr (rs ! g)" "length rs = length ps"
  shows "walk_groups B ps = Inr rs"
  using assms
proof (induction ps arbitrary: rs)
  case (Cons p ps)
  obtain r rs' where rs: "rs = r # rs'" using Cons.prems(2) by (cases rs) auto
  have "walk (Suc (top B)) B p = Inr r" using Cons.prems(1) rs by (auto simp del: walk.simps)
  moreover have "walk_groups B ps = Inr rs'"
    by (rule Cons.IH) (use Cons.prems rs in \<open>auto simp del: walk.simps\<close>)
  ultimately show ?case by (simp add: rs del: walk.simps)
qed simp

lemma walk_groups_rep:
  assumes "book_rep B gs"
  shows "walk_groups B (groups B) = Inr (map (map snd) gs)"
proof (rule walk_groups_all)
  have len: "length (groups B) = ALPHABET_COUNT" "length gs = ALPHABET_COUNT" using assms by (auto simp: book_rep_def)
  show "\<forall>g < length (groups B). walk (Suc (top B)) B (groups B ! g) = Inr (map (map snd) gs ! g)"
  proof (intro allI impI)
    fix g assume "g < length (groups B)"
    then have g: "g < ALPHABET_COUNT" using len by simp
    obtain l where "dseg (people B) 0 (groups B ! g) (gs ! g) 0 l" using book_repD(4) [OF assms g] by blast
    from walk_spec [OF this book_rep_fuel [OF assms g]] g len
    show "walk (Suc (top B)) B (groups B ! g) = Inr (map (map snd) gs ! g)" by simp
  qed
qed (use assms in \<open>simp add: book_rep_def\<close>)

text \<open>Unlinking the node at the end of \<open>us\<close>.\<close>

definition unlinked :: "(addr \<Rightarrow> person option) \<Rightarrow> addr \<Rightarrow> addr \<Rightarrow> (addr \<Rightarrow> person option)" where
  "unlinked h r m =
     (let h1 = (if m \<noteq> 0 then h(m \<mapsto> (the (h m))\<lparr>pnext := r\<rparr>) else h)
      in if r \<noteq> 0 then h1(r \<mapsto> (the (h1 r))\<lparr>previous := m\<rparr>) else h1)"

lemma unlinked_other: "b \<notin> {r, m} \<Longrightarrow> unlinked h r m b = h b"
  by (simp add: unlinked_def Let_def)

lemma person_delete_unlinked:
  assumes "p \<noteq> 0" "people B p = Some c" "pnext c \<noteq> 0 \<Longrightarrow> people B (pnext c) \<noteq> None" "previous c \<noteq> 0 \<Longrightarrow> people B (previous c) \<noteq> None"
    "p \<noteq> pnext c" "p \<noteq> previous c"
  shows "person_delete B g p = Inr (B\<lparr>people := (unlinked (people B) (pnext c) (previous c))(p \<mapsto> c\<lparr>previous := 0, pnext := 0\<rparr>),
    groups := if groups B ! g = p then (groups B)[g := pnext c] else groups B\<rparr>, 0)"
  using assms
  by (cases "pnext c = 0"; cases "previous c = 0"; cases "pnext c = previous c")
    (auto simp: person_delete_def load_at_def store_at_def unlinked_def set_group_def Let_def)

lemma person_delete_rep:
  assumes rep: "book_rep B gs" and g: "g < ALPHABET_COUNT" and xs: "gs ! g = us @ (p, n, ph) # vs"
  obtains B' where "person_delete B g p = Inr (B', 0)" "book_rep (free_person B' p) (gs[g := us @ vs])"
    "contact_count B' = contact_count B"
proof -
  obtain l where l: "dseg (people B) 0 (groups B ! g) (us @ (p, n, ph) # vs) 0 l"
    using book_repD(4) [OF rep g] unfolding xs by blast
  then obtain m c where u: "dseg (people B) 0 (groups B ! g) us p m" and p: "p \<noteq> 0" "people B p = Some c" "previous c = m"
      "pname c = n" "phone_number c = ph"
    and v: "dseg (people B) p (pnext c) vs 0 l"
    unfolding dseg_append by auto
  have dist: "distinct (map fst (us @ vs))" "p \<notin> fst ` set (us @ vs)"
    using book_repD(5) [OF rep g] unfolding xs by auto
  have r: "pnext c \<noteq> 0 \<Longrightarrow> people B (pnext c) \<noteq> None \<and> pnext c \<in> fst ` set vs"
    using v by (cases vs) auto
  have m: "m \<noteq> 0 \<Longrightarrow> people B m \<noteq> None \<and> m \<in> fst ` set us"
    using dseg_ends(4) [OF u, of "(p, n, ph) # vs" l] p v by auto
  have neq: "p \<noteq> pnext c" "p \<noteq> m" using r m dist(2) p(1) by auto
  define B' where "B' = B\<lparr>people := (unlinked (people B) (pnext c) m)(p \<mapsto> c\<lparr>previous := 0, pnext := 0\<rparr>),
    groups := if groups B ! g = p then (groups B)[g := pnext c] else groups B\<rparr>"
  have pd: "person_delete B g p = Inr (B', 0)"
    using person_delete_unlinked [OF p(1,2), of g] r m neq p(3) by (simp add: B'_def)
  have ul: "\<forall>b. b \<noteq> p \<longrightarrow> people (free_person B' p) b = unlinked (people B) (pnext c) m b"
    by (simp add: B'_def free_person_def)
  obtain l' where l': "dseg (people (free_person B' p)) 0 (if groups B ! g = p then pnext c else groups B ! g) (us @ vs) 0 l'"
  proof -
    define h1 where "h1 = (if m \<noteq> 0 then (people B)(m \<mapsto> (the (people B m))\<lparr>pnext := pnext c\<rparr>) else people B)"
    have "unlinked (people B) (pnext c) m = (if pnext c \<noteq> 0 then h1(pnext c \<mapsto> (the (h1 (pnext c)))\<lparr>previous := m\<rparr>) else h1)"
      by (simp add: unlinked_def Let_def h1_def)
    from dseg_remove [OF u v dist p(1) h1_def this ul] that show thesis by blast
  qed
  have "book_rep (free_person B' p) (gs[g := us @ vs])"
  proof (rule book_rep_update [OF rep g])
    show "dseg (people (free_person B' p)) 0 (groups (free_person B' p) ! g) (us @ vs) 0 l'"
      using l' g book_repD(1) [OF rep g] by (auto simp: B'_def free_person_def)
    show "\<forall>a \<in> fst ` set (us @ vs). a < top (free_person B' p)"
      using book_repD(6) [OF rep g] unfolding xs by (auto simp: B'_def free_person_def)
    show "\<forall>a \<in> fst ` set (us @ vs). a \<in> fst ` set (gs ! g) \<or> top B \<le> a" unfolding xs by auto
    show "\<forall>k < ALPHABET_COUNT. k \<noteq> g \<longrightarrow> (\<forall>a \<in> fst ` set (gs ! k). people (free_person B' p) a = people B a)"
    proof (intro allI impI ballI)
      fix k a assume k: "k < ALPHABET_COUNT" "k \<noteq> g" and a: "a \<in> fst ` set (gs ! k)"
      have nin: "a \<notin> fst ` set (gs ! g)" using book_rep_disjoint [OF rep k(1) g k(2)] a by blast
      have "a \<noteq> 0" using book_repD(4) [OF rep k(1)] dseg_live a by blast
      with nin r m have "a \<notin> {pnext c, m}" "a \<noteq> p" unfolding xs by auto
      then show "people (free_person B' p) a = people B a" using ul by (simp add: unlinked_other)
    qed
  qed (use book_repD(1) [OF rep g] dist in \<open>auto simp: B'_def free_person_def\<close>)
  then show thesis by (intro that [OF pd]) (simp_all add: B'_def)
qed

end
