(* ===== verification/Contacts_Props.thy ===== *)
theory Contacts_Props
  imports Contacts_Rep
begin

text \<open>
  The address book refines a table of 26 sorted lists: what the entries of the menu do, and that a book that is saved can
  be loaded again.
\<close>

section \<open>The abstract book\<close>

type_synonym entry = "string \<times> string"

definition entry_ok :: "nat \<Rightarrow> entry \<Rightarrow> bool" where
  "entry_ok g e \<longleftrightarrow> get_name_index (fst e) = int g \<and> length (fst e) < NAME_LENGTH \<and> length (snd e) < PHONE_NUMBER_LENGTH"

definition book_lists :: "contacts \<Rightarrow> entry list list \<Rightarrow> bool" where
  "book_lists B D \<longleftrightarrow> (\<exists>gs. book_rep B gs \<and> D = map (map snd) gs
     \<and> (\<forall>g < ALPHABET_COUNT. sorted (map fst (D ! g)) \<and> (\<forall>e \<in> set (D ! g). entry_ok g e)))"

definition book :: "contacts \<Rightarrow> entry list list \<Rightarrow> bool" where
  "book B D \<longleftrightarrow> book_lists B D \<and> contact_count B = int (length (concat D))"

definition group_of :: "string \<Rightarrow> nat" where
  "group_of name = nat (get_name_index name)"

definition add_entry :: "entry list list \<Rightarrow> entry \<Rightarrow> entry list list" where
  "add_entry D e = D[group_of (fst e) := insort_key fst e (D ! group_of (fst e))]"

definition remove_name :: "string \<Rightarrow> entry list \<Rightarrow> entry list" where
  "remove_name name es = takeWhile (\<lambda>e. fst e \<noteq> name) es @ tl (dropWhile (\<lambda>e. fst e \<noteq> name) es)"

lemma get_name_index_less: "get_name_index name < int ALPHABET_COUNT"
  by (cases name) (auto simp: ALPHABET_COUNT_def)

lemma group_of_index:
  assumes "0 \<le> get_name_index name"
  shows "int (group_of name) = get_name_index name" "group_of name < ALPHABET_COUNT"
  using assms get_name_index_less [of name] by (simp_all add: group_of_def)

lemma length_concat_update:
  "g < length D \<Longrightarrow> length (concat (D[g := ys])) + length (D ! g) = length (concat D) + length ys"
proof (induction D arbitrary: g)
  case (Cons d D)
  then show ?case by (cases g) auto
qed simp

lemma map_snd_insert_node: "map snd (insert_node x xs) = insort_key fst (snd x) (map snd xs)"
  unfolding insert_node_def by (induction xs) (auto simp: case_prod_unfold)

lemma lists_length: "book_lists B D \<Longrightarrow> length D = ALPHABET_COUNT"
  by (auto simp: book_lists_def book_rep_def)

lemma lists_nth: "book_lists B D \<Longrightarrow> g < ALPHABET_COUNT \<Longrightarrow> sorted (map fst (D ! g)) \<and> (\<forall>e \<in> set (D ! g). entry_ok g e)"
  by (auto simp only: book_lists_def)

lemma lists_count [simp]: "book_lists (B\<lparr>contact_count := k\<rparr>) D \<longleftrightarrow> book_lists B D"
  by (simp add: book_lists_def book_rep_def)

section \<open>Inserting\<close>

lemma lists_insert:
  assumes l: "book_lists B0 D" and e: "0 \<le> get_name_index (pname c)" "length (pname c) < NAME_LENGTH"
    "length (phone_number c) < PHONE_NUMBER_LENGTH" and new: "new_person B0 c = (B, p)"
  obtains B' where "person_insert B (group_of (pname c)) p = Inr (B', 0)"
    "book_lists B' (add_entry D (pname c, phone_number c))" "contact_count B' = contact_count B0"
proof -
  let ?g = "group_of (pname c)" and ?e = "(pname c, phone_number c)"
  have g: "?g < ALPHABET_COUNT" "entry_ok ?g ?e" using group_of_index [OF e(1)] e by (auto simp: entry_ok_def)
  obtain gs where gs: "book_rep B0 gs" "D = map (map snd) gs"
    "\<forall>g < ALPHABET_COUNT. sorted (map fst (D ! g)) \<and> (\<forall>e \<in> set (D ! g). entry_ok g e)"
    using l by (auto simp: book_lists_def)
  obtain B' where B': "person_insert B ?g p = Inr (B', 0)" "book_rep B' (gs[?g := insert_node (p, ?e) (gs ! ?g)])"
    "contact_count B' = contact_count B0"
    by (rule person_insert_rep [OF gs(1) g(1) new])
  have len: "length gs = ALPHABET_COUNT" using gs(1) by (simp add: book_rep_def)
  have D': "add_entry D ?e = map (map snd) (gs[?g := insert_node (p, ?e) (gs ! ?g)])"
    using g(1) len by (simp add: add_entry_def gs(2) map_update map_snd_insert_node)
  have "\<forall>k < ALPHABET_COUNT. sorted (map fst (add_entry D ?e ! k)) \<and> (\<forall>e \<in> set (add_entry D ?e ! k). entry_ok k e)"
  proof (intro allI impI)
    fix k assume k: "k < ALPHABET_COUNT"
    show "sorted (map fst (add_entry D ?e ! k)) \<and> (\<forall>e \<in> set (add_entry D ?e ! k). entry_ok k e)"
      using gs(3) k g len gs(2) by (cases "k = ?g") (auto simp: add_entry_def sorted_insort_key set_insort_key)
  qed
  with B'(2) D' have "book_lists B' (add_entry D ?e)" unfolding book_lists_def by blast
  with B' show thesis by (intro that)
qed

lemma insert_entry_lists:
  assumes l: "book_lists B D" and n: "0 \<le> get_name_index name" "length name < NAME_LENGTH" "length phone < PHONE_NUMBER_LENGTH"
  shows "\<exists>B'. insert_entry True junk B name phone = Inr (B', 0) \<and> book_lists B' (add_entry D (name, phone))
    \<and> contact_count B' = contact_count B + 1"
proof -
  let ?c = "junk\<lparr>pname := name, phone_number := phone\<rparr>"
  obtain B1 p where new: "new_person B ?c = (B1, p)" by fastforce
  obtain B' where B': "person_insert B1 (group_of name) p = Inr (B', 0)" "book_lists B' (add_entry D (name, phone))"
    "contact_count B' = contact_count B"
    by (rule lists_insert [OF l _ _ _ new]) (use n in auto)
  have "insert_entry True junk B name phone = Inr (B'\<lparr>contact_count := contact_count B' + 1\<rparr>, 0)"
    using n get_name_index_less [of name] new B'(1) by (simp add: insert_entry_def group_of_def)
  with B' show ?thesis by simp
qed

lemma insert_entry_book:
  assumes "book B D" "0 \<le> get_name_index name" "length name < NAME_LENGTH" "length phone < PHONE_NUMBER_LENGTH"
  shows "\<exists>B'. insert_entry True junk B name phone = Inr (B', 0) \<and> book B' (add_entry D (name, phone))"
proof -
  have l: "book_lists B D" using assms(1) by (simp add: book_def)
  have g: "group_of name < length D" using group_of_index(2) [OF assms(2)] lists_length [OF l] by simp
  have "length (concat (add_entry D (name, phone))) = length (concat D) + 1"
    using length_concat_update [OF g, of "insort_key fst (name, phone) (D ! group_of name)"] by (simp add: add_entry_def)
  with insert_entry_lists [OF l assms(2-4), of junk] assms(1) show ?thesis by (auto simp: book_def)
qed

section \<open>Searching and deleting\<close>

lemma search_in_group_lists:
  assumes "book_rep B gs" "g < ALPHABET_COUNT"
  shows "person_search_in_group (Suc (top B)) B (groups B ! g) name
    = Inr (case find (\<lambda>(_, n, _). n = name) (gs ! g) of None \<Rightarrow> 0 | Some (a, _) \<Rightarrow> a)"
  using book_repD(4) [OF assms] search_in_group_spec [OF _ book_rep_fuel [OF assms]] by blast

lemma find_map_snd: "find (\<lambda>e. fst e = name) (map snd xs) = map_option snd (find (\<lambda>(_, n, _). n = name) xs)"
  by (induction xs) auto

lemma find_node:
  assumes "book_rep B gs" "g < ALPHABET_COUNT" "find (\<lambda>(_, n, _). n = name) (gs ! g) = Some (a, n, ph)"
  shows "a \<noteq> 0" "n = name" "\<exists>c. people B a = Some c \<and> pname c = n \<and> phone_number c = ph"
proof -
  have m: "(a, n, ph) \<in> set (gs ! g)" "n = name" using assms(3) by (force simp: find_Some_iff in_set_conv_nth)+
  then show "n = name" by simp
  obtain l where "dseg (people B) 0 (groups B ! g) (gs ! g) 0 l" using book_repD(4) [OF assms(1,2)] by blast
  moreover obtain us vs where "gs ! g = us @ (a, n, ph) # vs" using m(1) by (meson split_list)
  ultimately show "a \<noteq> 0" "\<exists>c. people B a = Some c \<and> pname c = n \<and> phone_number c = ph" by (auto simp: dseg_append)
qed

lemma search_entry_book:
  assumes "book_lists B D" "0 \<le> get_name_index name" "length name < NAME_LENGTH"
  shows "search_entry B name = Inr (case find (\<lambda>e. fst e = name) (D ! group_of name) of
    None \<Rightarrow> (None, -2) | Some e \<Rightarrow> (Some e, 0))"
proof -
  obtain gs where gs: "book_rep B gs" "D = map (map snd) gs" using assms(1) by (auto simp: book_lists_def)
  have g: "group_of name < ALPHABET_COUNT" by (rule group_of_index(2) [OF assms(2)])
  have len: "length gs = ALPHABET_COUNT" using gs(1) by (simp add: book_rep_def)
  have s: "person_search_global B name = Inr (case find (\<lambda>(_, n, _). n = name) (gs ! group_of name) of None \<Rightarrow> 0 | Some (a, _) \<Rightarrow> a)"
    using search_in_group_lists [OF gs(1) g, of name] assms(2) get_name_index_less [of name]
    by (simp add: person_search_global_def group_of_def del: person_search_in_group.simps)
  show ?thesis
  proof (cases "find (\<lambda>(_, n, _). n = name) (gs ! group_of name)")
    case None
    with s assms(3) g len show ?thesis by (simp add: search_entry_def gs(2) find_map_snd)
  next
    case (Some x)
    obtain a n ph where x: "x = (a, n, ph)" by (cases x)
    with find_node [OF gs(1) g] Some obtain c where "a \<noteq> 0" "people B a = Some c" "pname c = n" "phone_number c = ph" by blast
    with s assms(3) g len Some x show ?thesis by (simp add: search_entry_def gs(2) find_map_snd load_at_def)
  qed
qed

lemma find_split:
  "find P xs = Some x \<Longrightarrow> xs = takeWhile (\<lambda>y. \<not> P y) xs @ x # tl (dropWhile (\<lambda>y. \<not> P y) xs)"
  by (induction xs) (auto split: if_splits)

lemma remove_name_map_snd:
  assumes "find (\<lambda>(_, n, _). n = name) xs = Some (a, n, ph)"
  shows "\<exists>us vs. xs = us @ (a, n, ph) # vs \<and> remove_name name (map snd xs) = map snd (us @ vs)"
proof -
  let ?us = "takeWhile (\<lambda>y. \<not> (case y of (_, n, _) \<Rightarrow> n = name)) xs"
  let ?vs = "tl (dropWhile (\<lambda>y. \<not> (case y of (_, n, _) \<Rightarrow> n = name)) xs)"
  have "xs = ?us @ (a, n, ph) # ?vs" by (rule find_split [OF assms])
  moreover have "remove_name name (map snd xs) = map snd (?us @ ?vs)"
    by (simp add: remove_name_def takeWhile_map dropWhile_map map_tl comp_def case_prod_unfold)
  ultimately show ?thesis by blast
qed

lemma remove_name_present:
  assumes "name \<in> fst ` set es"
  shows "length (remove_name name es) + 1 = length es" "set (remove_name name es) \<subseteq> set es"
    "sorted (map fst es) \<Longrightarrow> sorted (map fst (remove_name name es))"
proof -
  have "find (\<lambda>e. fst e = name) es \<noteq> None" using assms by (auto simp: find_None_iff)
  then obtain x where "find (\<lambda>e. fst e = name) es = Some x" by blast
  from find_split [OF this] obtain us vs where es: "es = us @ x # vs" "remove_name name es = us @ vs"
    unfolding remove_name_def by metis
  then show "length (remove_name name es) + 1 = length es" "set (remove_name name es) \<subseteq> set es"
    "sorted (map fst es) \<Longrightarrow> sorted (map fst (remove_name name es))"
    by (auto simp: sorted_append)
qed

lemma delete_entry_lists:
  assumes b: "book_lists B D" and n: "0 \<le> get_name_index name" "length name < NAME_LENGTH"
  shows "if name \<in> fst ` set (D ! group_of name)
    then \<exists>B'. delete_entry B name = Inr (B', 0) \<and> book_lists B' (D[group_of name := remove_name name (D ! group_of name)])
      \<and> contact_count B' = contact_count B - 1
    else delete_entry B name = Inr (B, -2)"
proof -
  let ?g = "group_of name"
  obtain gs where gs: "book_rep B gs" "D = map (map snd) gs"
    "\<forall>g < ALPHABET_COUNT. sorted (map fst (D ! g)) \<and> (\<forall>e \<in> set (D ! g). entry_ok g e)"
    using b by (auto simp: book_lists_def)
  have g: "?g < ALPHABET_COUNT" by (rule group_of_index(2) [OF n(1)])
  have len: "length gs = ALPHABET_COUNT" using gs(1) by (simp add: book_rep_def)
  have Dg: "D ! ?g = map snd (gs ! ?g)" using g len by (simp add: gs(2))
  have s: "person_search_in_group (Suc (top B)) B (groups B ! nat (get_name_index name)) name
    = Inr (case find (\<lambda>(_, n, _). n = name) (gs ! ?g) of None \<Rightarrow> 0 | Some (a, _) \<Rightarrow> a)"
    using search_in_group_lists [OF gs(1) g, of name] by (simp add: group_of_def del: person_search_in_group.simps)
  show ?thesis
  proof (cases "find (\<lambda>(_, n, _). n = name) (gs ! ?g)")
    case None
    then have "name \<notin> fst ` set (D ! ?g)" by (force simp: Dg find_None_iff)
    with None s n get_name_index_less [of name] show ?thesis
      by (simp add: delete_entry_def del: person_search_in_group.simps)
  next
    case (Some x)
    obtain a nm ph where x: "x = (a, nm, ph)" by (cases x)
    note Some' = Some [unfolded x]
    obtain us vs where uv: "gs ! ?g = us @ (a, nm, ph) # vs" "remove_name name (map snd (gs ! ?g)) = map snd (us @ vs)"
      using remove_name_map_snd [OF Some'] by blast
    have a: "a \<noteq> 0" "nm = name" using find_node [OF gs(1) g Some'] by auto
    have mem: "name \<in> fst ` set (D ! ?g)" using uv(1) a(2) by (force simp: Dg)
    obtain B' where B': "person_delete B ?g a = Inr (B', 0)" "book_rep (free_person B' a) (gs[?g := us @ vs])"
      "contact_count B' = contact_count B"
      by (rule person_delete_rep [OF gs(1) g uv(1)])
    let ?D = "D[?g := remove_name name (D ! ?g)]"
    have D': "?D = map (map snd) (gs[?g := us @ vs])" using uv(2) g len by (simp add: Dg gs(2) map_update)
    have "\<forall>k < ALPHABET_COUNT. sorted (map fst (?D ! k)) \<and> (\<forall>e \<in> set (?D ! k). entry_ok k e)"
    proof (intro allI impI)
      fix k assume k: "k < ALPHABET_COUNT"
      show "sorted (map fst (?D ! k)) \<and> (\<forall>e \<in> set (?D ! k). entry_ok k e)"
      proof (cases "k = ?g")
        case True
        then have "?D ! k = remove_name name (D ! ?g)" using g len gs(2) by simp
        with gs(3) [rule_format, OF g] remove_name_present(2,3) [OF mem] True show ?thesis by auto
      qed (use gs(3) k in simp)
    qed
    with B'(2) D' have "book_lists (free_person B' a) ?D" unfolding book_lists_def by blast
    then have bk: "book_lists ((free_person B' a)\<lparr>contact_count := contact_count B' - 1\<rparr>) ?D" by simp
    have "delete_entry B name = Inr ((free_person B' a)\<lparr>contact_count := contact_count B' - 1\<rparr>, 0)"
      using s Some x a n get_name_index_less [of name] B'(1)
      by (simp add: delete_entry_def group_of_def del: person_search_in_group.simps)
    with bk mem B'(3) show ?thesis by auto
  qed
qed

lemma delete_entry_book:
  assumes b: "book B D" and n: "0 \<le> get_name_index name" "length name < NAME_LENGTH"
  shows "if name \<in> fst ` set (D ! group_of name)
    then \<exists>B'. delete_entry B name = Inr (B', 0) \<and> book B' (D[group_of name := remove_name name (D ! group_of name)])
    else delete_entry B name = Inr (B, -2)"
proof -
  have l: "book_lists B D" and cnt: "contact_count B = int (length (concat D))" using b by (auto simp: book_def)
  have g: "group_of name < length D" using group_of_index(2) [OF n(1)] lists_length [OF l] by simp
  have "name \<in> fst ` set (D ! group_of name) \<Longrightarrow>
    length (concat (D[group_of name := remove_name name (D ! group_of name)])) + 1 = length (concat D)"
    using length_concat_update [OF g, of "remove_name name (D ! group_of name)"] remove_name_present(1) by fastforce
  with delete_entry_lists [OF l n] cnt show ?thesis by (auto simp: book_def split: if_splits)
qed

lemma print_entry_book:
  assumes "book B D"
  shows "\<exists>shown. print_entry B = Inr (shown, nat (contact_count B)) \<and> shown = filter (\<lambda>(i, r). r \<noteq> []) (enumerate 0 D)"
  using assms walk_groups_rep by (fastforce simp: book_def book_lists_def print_entry_def person_traversal_def)

section \<open>Saving and loading\<close>

text \<open>Entries that the format of the file can hold.\<close>

definition plain :: "entry \<Rightarrow> bool" where
  "plain e \<longleftrightarrow> CHR '','' \<notin> set (fst e) \<and> snd e \<noteq> [] \<and> (\<forall>c \<in> set (snd e). \<not> isspace c)"

lemma empty_book_book: "book empty_book (replicate ALPHABET_COUNT [])"
proof -
  have "book_rep empty_book (replicate ALPHABET_COUNT [])" by (simp add: book_rep_def empty_book_def)
  then show ?thesis unfolding book_def book_lists_def by (auto simp: empty_book_def concat_eq_Nil_conv intro!: exI)
qed

lemma letter_not_space:
  assumes "0 \<le> get_name_index name"
  shows "\<exists>c r. name = c # r \<and> \<not> isspace c"
proof -
  obtain c r where n: "name = c # r" using assms by (cases name) auto
  have "\<not> isspace c" using assms unfolding n by (auto simp: isspace_def toupper_def)
  with n show ?thesis by blast
qed

lemma skip_ws_Cons: "skip_ws (c # s) = (if isspace c then skip_ws s else c # s)"
  by (simp add: skip_ws_def)

lemma scan_entry_line:
  assumes "plain (n, ph)" "entry_ok g (n, ph)" "skip_ws rest = rest"
  shows "scan_entry NAME_LENGTH PHONE_NUMBER_LENGTH (entry_line (n, ph) @ rest) = Inr (Some (n, ph, rest))"
proof -
  obtain c r where n: "n = c # r" "\<not> isspace c" using letter_not_space [of n] assms(2) by (auto simp: entry_ok_def)
  obtain d q where ph: "ph = d # q" "\<not> isspace d" using assms(1) by (cases ph) (auto simp: plain_def)
  let ?t = "'' phone: '' @ ph @ [CHR 0x0A] @ rest"
  have sp: "isspace CHR 0x20" "isspace CHR 0x0A" "\<not> isspace CHR ''p''" by (simp_all add: isspace_def)
  have l1: "literal ''name:'' (entry_line (n, ph) @ rest) = Some (CHR 0x20 # n @ CHR '','' # ?t)"
    by (simp add: entry_line_def literal_def)
  have s1: "skip_ws (CHR 0x20 # n @ CHR '','' # ?t) = n @ CHR '','' # ?t" using n sp by (simp add: skip_ws_Cons)
  have t1: "takeWhile (\<lambda>c. c \<noteq> CHR '','') (n @ CHR '','' # ?t) = n"
    using assms(1) by (simp add: plain_def takeWhile_tail) (metis takeWhile_eq_all_conv)
  have l2: "literal '','' (drop (length n) (n @ CHR '','' # ?t)) = Some ?t" by (simp add: literal_def)
  have l3: "literal ''phone:'' (skip_ws ?t) = Some (CHR 0x20 # ph @ CHR 0x0A # rest)"
    using sp by (simp add: skip_ws_Cons literal_def)
  have s3: "skip_ws (CHR 0x20 # ph @ CHR 0x0A # rest) = ph @ CHR 0x0A # rest" using ph sp by (simp add: skip_ws_Cons)
  have t3: "takeWhile (\<lambda>c. \<not> isspace c) (ph @ CHR 0x0A # rest) = ph"
    using assms(1) sp by (simp add: plain_def takeWhile_tail)
  have e: "skip_ws (drop (length ph) (ph @ CHR 0x0A # rest)) = rest" using sp assms(3) by (simp add: skip_ws_Cons)
  have len: "length n < NAME_LENGTH" "length ph < PHONE_NUMBER_LENGTH" "n \<noteq> []" "ph \<noteq> []"
    using assms(2) n ph by (auto simp: entry_ok_def)
  show ?thesis
    unfolding scan_entry_def l1 option.case Let_def s1 t1 l2 l3 s3 t3 e using len by simp
qed

lemma skip_ws_lines: "skip_ws (concat (map entry_line es)) = concat (map entry_line es)"
  by (cases es) (auto simp: skip_ws_def entry_line_def isspace_def)

lemma load_loop_lines:
  assumes m: "\<And>i. m i" and "book_lists B D" "\<forall>e \<in> set es. plain e \<and> (\<exists>g. entry_ok g e)"
  shows "\<exists>B'. load_loop m junk i B k (concat (map entry_line es)) = Inr (B', 0)
    \<and> book_lists B' (foldl add_entry D es) \<and> contact_count B' = k + int (length es)"
  using assms(2-)
proof (induction es arbitrary: i B k D)
  case Nil
  have "scan_entry NAME_LENGTH PHONE_NUMBER_LENGTH [] = Inr None" by (simp add: scan_entry_def literal_def)
  with Nil show ?case by (subst load_loop.simps) simp
next
  case (Cons e es)
  obtain n ph where e: "e = (n, ph)" by (cases e)
  obtain g where ok: "plain (n, ph)" "entry_ok g (n, ph)" using Cons.prems(2) e by auto
  have sc: "scan_entry NAME_LENGTH PHONE_NUMBER_LENGTH (concat (map entry_line (e # es))) = Inr (Some (n, ph, concat (map entry_line es)))"
    using scan_entry_line [OF ok skip_ws_lines, of es] e by simp
  let ?c = "junk\<lparr>pname := n, phone_number := ph, pnext := 0, previous := 0\<rparr>"
  obtain B1 p where new: "new_person B ?c = (B1, p)" by fastforce
  have idx: "0 \<le> get_name_index n" using ok(2) by (simp add: entry_ok_def)
  obtain B2 where B2: "person_insert B1 (group_of n) p = Inr (B2, 0)" "book_lists B2 (add_entry D (n, ph))"
    by (rule lists_insert [OF Cons.prems(1) _ _ _ new]) (use idx ok(2) in \<open>auto simp: entry_ok_def\<close>)
  have "\<forall>e \<in> set es. plain e \<and> (\<exists>g. entry_ok g e)" using Cons.prems(2) by simp
  from Cons.IH [OF B2(2) this, of "Suc i" "k + 1"]
  show ?case
    using idx get_name_index_less [of n] new B2(1) m [of i]
    by (subst load_loop.simps) (simp add: sc group_of_def del: map_append concat.simps list.map, simp add: e algebra_simps)
qed

lemma length_foldl_add [simp]: "length (foldl add_entry D es) = length D"
  by (induction es arbitrary: D) (simp_all add: add_entry_def)

lemma foldl_add_nth:
  "g < length D \<Longrightarrow> foldl add_entry D es ! g = foldl (\<lambda>xs e. insort_key fst e xs) (D ! g) (filter (\<lambda>e. group_of (fst e) = g) es)"
  by (induction es arbitrary: D) (auto simp: add_entry_def)

lemma insort_key_last: "\<forall>x \<in> set xs. f x < f e \<Longrightarrow> insort_key f e xs = xs @ [e]" for f :: "'a \<Rightarrow> 'b :: linorder"
  by (induction xs) auto

lemma foldl_insort_sorted:
  "sorted_wrt (<) (map fst (xs @ es)) \<Longrightarrow> foldl (\<lambda>xs e. insort_key fst e xs) xs es = xs @ es"
  for es :: "('a :: linorder \<times> 'b) list"
  by (induction es arbitrary: xs) (simp_all add: insort_key_last sorted_wrt_append)

lemma concat_filter_one:
  assumes "\<forall>k < length D. filter P (D ! k) = (if k = g then D ! k else [])" "g < length D"
  shows "filter P (concat D) = D ! g"
  using assms
proof (induction D arbitrary: g)
  case (Cons d D)
  have t: "filter P (D ! k) = (if Suc k = g then D ! k else [])" if "k < length D" for k
    using Cons.prems(1) that by (auto dest!: spec [of _ "Suc k"])
  show ?case
  proof (cases g)
    case 0
    then have "filter P x = []" if "x \<in> set D" for x using t that by (auto simp: in_set_conv_nth)
    then have "filter P (concat D) = []" by (auto simp: filter_concat)
    moreover have "filter P d = d" using Cons.prems(1) 0 by (auto dest!: spec [of _ 0])
    ultimately show ?thesis using 0 by simp
  next
    case (Suc h)
    moreover have "filter P d = []" using Cons.prems(1) Suc by (auto dest!: spec [of _ 0])
    moreover have "filter P (concat D) = D ! h" by (rule Cons.IH) (use t Suc Cons.prems(2) in auto)
    ultimately show ?thesis by simp
  qed
qed simp

lemma foldl_add_concat:
  assumes "book_lists B D" "\<forall>g < ALPHABET_COUNT. distinct (map fst (D ! g))"
  shows "foldl add_entry (replicate ALPHABET_COUNT []) (concat D) = D"
proof (rule nth_equalityI)
  have len: "length D = ALPHABET_COUNT" by (rule lists_length [OF assms(1)])
  then show "length (foldl add_entry (replicate ALPHABET_COUNT []) (concat D)) = length D" by simp
  have ok: "sorted (map fst (D ! g)) \<and> (\<forall>e \<in> set (D ! g). group_of (fst e) = g)" if "g < ALPHABET_COUNT" for g
    using lists_nth [OF assms(1) that] by (auto simp: entry_ok_def group_of_def)
  fix g assume "g < length (foldl add_entry (replicate ALPHABET_COUNT []) (concat D))"
  then have g: "g < ALPHABET_COUNT" by simp
  have "filter (\<lambda>e. group_of (fst e) = g) (concat D) = D ! g"
    by (rule concat_filter_one) (use ok g len in \<open>auto simp: filter_empty_conv filter_id_conv\<close>)
  moreover have "sorted_wrt (<) (map fst ([] @ D ! g))" using ok [OF g] assms(2) g by (simp add: strict_sorted_iff)
  ultimately show "foldl add_entry (replicate ALPHABET_COUNT []) (concat D) ! g = D ! g"
    using foldl_insort_sorted [of "[]" "D ! g"] g by (simp add: foldl_add_nth)
qed

lemma save_entry_book:
  assumes "book_lists B D" "length filename < NAME_LENGTH"
  shows "save_entry True B filename = Inr (concat (map entry_line (concat D)), 0)"
  using assms walk_groups_rep by (fastforce simp: book_lists_def save_entry_def save_file_def)

section \<open>Sessions\<close>

text \<open>What a step has to establish: the lists are in order, or a word was too long for the array it goes to.\<close>

definition kept :: "contacts res \<Rightarrow> bool" where
  "kept r \<longleftrightarrow> (case r of Inl e \<Rightarrow> e = OutOfBounds | Inr B \<Rightarrow> \<exists>D. book_lists B D)"

lemma kept_simps [simp]: "kept (Inr B) \<longleftrightarrow> (\<exists>D. book_lists B D)" "kept (Inl e) \<longleftrightarrow> e = OutOfBounds"
  by (simp_all add: kept_def)

lemma lists_new_free:
  assumes "book_lists B D" "new_person B c = (B1, p)"
  shows "book_lists (free_person B1 p) D"
proof -
  obtain gs where gs: "book_rep B gs" "D = map (map snd) gs"
    "\<forall>g < ALPHABET_COUNT. sorted (map fst (D ! g)) \<and> (\<forall>e \<in> set (D ! g). entry_ok g e)"
    using assms(1) by (auto simp: book_lists_def)
  have B1: "free_person B1 p = B\<lparr>people := (people B)(top B := None), top := Suc (top B)\<rparr>"
    using assms(2) by (auto simp: new_person_def free_person_def)
  have old: "a < top B" if "k < ALPHABET_COUNT" "a \<in> fst ` set (gs ! k)" for k a
    using book_repD(6) [OF gs(1) that(1)] that(2) by blast
  have d: "\<exists>l. dseg ((people B)(top B := None)) 0 (groups B ! k) (gs ! k) 0 l" if k: "k < ALPHABET_COUNT" for k
  proof -
    obtain l where "dseg (people B) 0 (groups B ! k) (gs ! k) 0 l" using book_repD(4) [OF gs(1) k] by blast
    then have "dseg ((people B)(top B := None)) 0 (groups B ! k) (gs ! k) 0 l" by (rule dseg_cong) (use old k in fastforce)
    then show ?thesis by blast
  qed
  have "book_rep (free_person B1 p) gs"
    using gs(1) d old unfolding B1 book_rep_def by (auto simp: less_Suc_eq)
  with gs(2,3) show ?thesis unfolding book_lists_def by blast
qed

lemma kept_insert:
  assumes "book_lists B D"
  shows "kept (andthen (insert_entry ok junk B name phone) (\<lambda>(B, _). Inr B))"
proof (cases "0 \<le> get_name_index name \<and> ok \<and> length name < NAME_LENGTH \<and> length phone < PHONE_NUMBER_LENGTH")
  case True
  with insert_entry_lists [OF assms, of name phone junk] show ?thesis by auto
next
  case False
  obtain B1 p where new: "new_person B (junk\<lparr>pname := name, phone_number := phone\<rparr>) = (B1, p)" by fastforce
  with lists_new_free [OF assms new] assms False show ?thesis by (auto simp: insert_entry_def not_less not_le)
qed

lemma kept_delete:
  assumes "book_lists B D"
  shows "kept (andthen (delete_entry B name) (\<lambda>(B, _). Inr B))"
proof (cases "0 \<le> get_name_index name \<and> length name < NAME_LENGTH")
  case True
  with delete_entry_lists [OF assms, of name] assms show ?thesis by (auto split: if_splits)
next
  case False
  with assms show ?thesis by (auto simp: delete_entry_def not_less not_le)
qed

lemma kept_search:
  assumes "book_lists B D"
  shows "kept (andthen (search_entry B name) (\<lambda>_. Inr B))"
proof (cases "0 \<le> get_name_index name \<and> length name < NAME_LENGTH")
  case True
  with search_entry_book [OF assms, of name] assms show ?thesis by (auto split: option.splits)
next
  case False
  with assms show ?thesis by (auto simp: search_entry_def person_search_global_def not_less not_le)
qed

lemma kept_print: "book_lists B D \<Longrightarrow> kept (andthen (print_entry B) (\<lambda>_. Inr B))"
  using walk_groups_rep by (fastforce simp: book_lists_def print_entry_def person_traversal_def)

lemma kept_save: "book_lists B D \<Longrightarrow> kept (andthen (save_entry opn B f) (\<lambda>_. Inr B))"
  using save_entry_book [of B D f] by (cases "length f < NAME_LENGTH"; cases opn) (auto simp: save_entry_def save_file_def)

lemma scan_entry_fits:
  "scan_entry nmax pmax s = Inr (Some (name, phone, r)) \<Longrightarrow> length name < nmax \<and> length phone < pmax"
  "scan_entry nmax pmax s = Inl e \<Longrightarrow> e = OutOfBounds"
  by (auto simp: scan_entry_def Let_def split: option.splits if_splits)

lemma kept_load_loop:
  assumes "book_lists B D"
  shows "kept (andthen (load_loop m junk i B count inp) (\<lambda>(B, _). Inr B))"
  using assms
proof (induction "length inp" arbitrary: i B count inp D rule: less_induct)
  case less
  show ?case
  proof (cases "scan_entry NAME_LENGTH PHONE_NUMBER_LENGTH inp")
    case (Inl e)
    then show ?thesis by (subst load_loop.simps) (simp add: scan_entry_fits)
  next
    case (Inr r)
    consider "r = None \<or> \<not> m i" | name phone rest where "r = Some (name, phone, rest)" "m i" by (cases r) auto
    then show ?thesis
    proof cases
      case 1
      with Inr less.prems show ?thesis by (subst load_loop.simps) (auto split: option.split prod.split)
    next
      case 2
      let ?c = "junk\<lparr>pname := name, phone_number := phone, pnext := 0, previous := 0\<rparr>"
      obtain B1 p where new: "new_person B ?c = (B1, p)" by fastforce
      have fits: "length name < NAME_LENGTH" "length phone < PHONE_NUMBER_LENGTH" and dec: "length rest < length inp"
        using scan_entry_fits(1) scan_entry_length Inr 2(1) by blast+
      show ?thesis
      proof (cases "0 \<le> get_name_index name")
        case True
        obtain B' where B': "person_insert B1 (group_of name) p = Inr (B', 0)" "book_lists B' (add_entry D (name, phone))"
          by (rule lists_insert [OF less.prems _ _ _ new]) (use True fits in auto)
        then show ?thesis
          using less.hyps [OF dec B'(2), of "Suc i" "count + 1"] Inr 2 True new get_name_index_less [of name]
          by (subst load_loop.simps) (simp add: group_of_def)
      next
        case False
        then show ?thesis
          using less.hyps [OF dec lists_new_free [OF less.prems new], of "Suc i" count] Inr 2 new
          by (subst load_loop.simps) simp
      qed
    qed
  qed
qed

lemma kept_load: "book_lists B D \<Longrightarrow> kept (andthen (load_entry opn m junk B f inp) (\<lambda>(B, _). Inr B))"
  using kept_load_loop [of B D m junk 0 0 inp] by (auto simp: load_entry_def load_file_def)

lemma kept_round: "book_lists B D \<Longrightarrow> kept (menu_round m junk B i)"
  by (auto simp: menu_round_def intro: kept_insert kept_delete kept_search kept_print kept_save kept_load)

lemma round_fits:
  assumes D: "book_lists B D" and fit: "select i \<noteq> 6" "length (word1 i) < NAME_LENGTH" "length (word2 i) < PHONE_NUMBER_LENGTH"
  shows "menu_round m junk B i \<noteq> Inl OutOfBounds"
proof -
  let ?n = "get_name_index (word1 i)"
  have ins: "\<exists>x. insert_entry (m 0) junk B (word1 i) (word2 i) = Inr x"
    using insert_entry_lists [OF D _ fit(2,3), of junk] fit
    by (cases "0 \<le> ?n \<and> m 0") (auto simp: insert_entry_def not_le split: prod.split)
  have del: "\<exists>x. delete_entry B (word1 i) = Inr x"
    using delete_entry_lists [OF D _ fit(2)] fit by (cases "0 \<le> ?n") (auto simp: delete_entry_def not_le split: if_splits)
  have srch: "\<exists>x. search_entry B (word1 i) = Inr x"
    using search_entry_book [OF D _ fit(2)] fit
    by (cases "0 \<le> ?n") (auto simp: search_entry_def person_search_global_def not_le split: option.splits)
  have prt: "\<exists>x. print_entry B = Inr x"
    using D walk_groups_rep by (fastforce simp: book_lists_def print_entry_def person_traversal_def)
  have sv: "\<exists>x. save_entry (file_ok i) B (word1 i) = Inr x"
    using save_entry_book [OF D fit(2)] fit by (cases "file_ok i") (auto simp: save_entry_def save_file_def)
  show ?thesis using ins del srch prt sv fit(1) by (auto simp: menu_round_def)
qed

lemma kept_session: "book_lists B D \<Longrightarrow> kept (menu_session rds B)"
proof (induction rds arbitrary: B D)
  case (Cons x rds)
  obtain m junk i where x: "x = (m, junk, i)" by (cases x)
  show ?case
  proof (cases "menu_round m junk B i")
    case (Inr B')
    with kept_round [OF Cons.prems, of m junk i] Cons.IH show ?thesis by (auto simp: x)
  qed (use kept_round [OF Cons.prems, of m junk i] in \<open>simp add: x\<close>)
qed auto

section \<open>Properties\<close>

text \<open>A book of three persons for the examples.\<close>

definition demo_person :: person where
  "demo_person = \<lparr>pname = [], phone_number = [], pnext = 7, previous = 9\<rparr>"

definition demo_entries :: "entry list" where
  "demo_entries = [(''bob'', ''555''), (''ann'', ''111''), (''Al'', ''42'')]"

definition demo_lists :: "entry list list" where
  "demo_lists = foldl add_entry (replicate ALPHABET_COUNT []) demo_entries"

lemma demo_entries_ok: "\<forall>e \<in> set demo_entries. plain e \<and> (\<exists>g. entry_ok g e)"
proof -
  have "entry_ok 1 (''bob'', ''555'')" "entry_ok 0 (''ann'', ''111'')" "entry_ok 0 (''Al'', ''42'')"
    by (simp_all add: entry_ok_def toupper_def NAME_LENGTH_def PHONE_NUMBER_LENGTH_def)
  moreover have "\<forall>e \<in> set demo_entries. plain e" by (simp add: demo_entries_def plain_def isspace_def)
  ultimately show ?thesis unfolding demo_entries_def by auto
qed

lemma demo_book: "\<exists>B. book B demo_lists"
proof -
  obtain B where "book_lists B demo_lists" "contact_count B = int (length demo_entries)"
    using load_loop_lines [of malloc_ok empty_book "replicate ALPHABET_COUNT []" demo_entries demo_person 0 0] empty_book_book
      demo_entries_ok
    by (auto simp: demo_lists_def book_def)
  moreover have "length (concat demo_lists) = length demo_entries"
    by (simp add: demo_lists_def demo_entries_def add_entry_def group_of_def toupper_def ALPHABET_COUNT_def numeral_eq_Suc)
  ultimately show ?thesis by (auto simp: book_def)
qed

text \<open>
  C6: the entries of the menu work on the book as on 26 sorted lists: inserting puts a person in its place in the list of the
  initial, deleting removes the first of that name and reports an absent one, searching finds the first of that name, printing
  shows the lists that are not empty and the number of persons; the lists stay sorted and linked both ways, and the counter
  right.
\<close>

theorem contacts_book:
  assumes "book B D" "0 \<le> get_name_index name" "length name < NAME_LENGTH" "length phone < PHONE_NUMBER_LENGTH"
  shows "(\<exists>B'. insert_entry True junk B name phone = Inr (B', 0) \<and> book B' (add_entry D (name, phone)))
    \<and> (if name \<in> fst ` set (D ! group_of name)
       then \<exists>B'. delete_entry B name = Inr (B', 0) \<and> book B' (D[group_of name := remove_name name (D ! group_of name)])
       else delete_entry B name = Inr (B, -2))
    \<and> search_entry B name = Inr (case find (\<lambda>e. fst e = name) (D ! group_of name) of None \<Rightarrow> (None, -2) | Some e \<Rightarrow> (Some e, 0))
    \<and> print_entry B = Inr (filter (\<lambda>(i, r). r \<noteq> []) (enumerate 0 D), nat (contact_count B))"
proof (intro conjI)
  show "\<exists>B'. insert_entry True junk B name phone = Inr (B', 0) \<and> book B' (add_entry D (name, phone))"
    by (rule insert_entry_book [OF assms])
  show "if name \<in> fst ` set (D ! group_of name)
    then \<exists>B'. delete_entry B name = Inr (B', 0) \<and> book B' (D[group_of name := remove_name name (D ! group_of name)])
    else delete_entry B name = Inr (B, -2)"
    by (rule delete_entry_book [OF assms(1-3)])
  show "search_entry B name = Inr (case find (\<lambda>e. fst e = name) (D ! group_of name) of None \<Rightarrow> (None, -2) | Some e \<Rightarrow> (Some e, 0))"
    by (rule search_entry_book [OF _ assms(2,3)]) (use assms(1) in \<open>simp add: book_def\<close>)
  show "print_entry B = Inr (filter (\<lambda>(i, r). r \<noteq> []) (enumerate 0 D), nat (contact_count B))"
    using print_entry_book [OF assms(1)] by blast
qed

theorem contacts_book_witness:
  "\<exists>B B'. book B demo_lists \<and> insert_entry True demo_person B ''bea'' ''7'' = Inr (B', 0)
    \<and> book B' (add_entry demo_lists (''bea'', ''7''))"
proof -
  obtain B where B: "book B demo_lists" using demo_book by blast
  have "0 \<le> get_name_index ''bea''" "length ''bea'' < NAME_LENGTH" "length ''7'' < PHONE_NUMBER_LENGTH"
    by (simp_all add: toupper_def NAME_LENGTH_def PHONE_NUMBER_LENGTH_def)
  from contacts_book [OF B this, of demo_person] B show ?thesis by blast
qed

text \<open>
  C16: whatever is typed and whatever files hold, a session with the menu keeps 26 sorted lists linked both ways, whichever
  allocations fail and whatever fresh memory contains; the only fault is a word that is too long for the array it is read
  into, and words of the user that fit cause none.
\<close>

theorem contacts_session:
  "(case menu_session rds empty_book of Inl e \<Rightarrow> e = OutOfBounds | Inr B \<Rightarrow> \<exists>D. book_lists B D)
   \<and> (menu_session rds empty_book = Inr B \<and> select i \<noteq> 6 \<and> length (word1 i) < NAME_LENGTH \<and> length (word2 i) < PHONE_NUMBER_LENGTH
      \<longrightarrow> (\<exists>B' D'. menu_round m junk B i = Inr B' \<and> book_lists B' D'))"
proof (intro conjI impI)
  have e: "book_lists empty_book (replicate ALPHABET_COUNT [])" using empty_book_book by (simp add: book_def)
  show k: "case menu_session rds empty_book of Inl e \<Rightarrow> e = OutOfBounds | Inr B \<Rightarrow> \<exists>D. book_lists B D"
    using kept_session [OF e, of rds] by (simp only: kept_def)
  assume a: "menu_session rds empty_book = Inr B \<and> select i \<noteq> 6 \<and> length (word1 i) < NAME_LENGTH \<and> length (word2 i) < PHONE_NUMBER_LENGTH"
  then obtain D where D: "book_lists B D" using k by auto
  have "menu_round m junk B i \<noteq> Inl OutOfBounds" by (rule round_fits [OF D]) (use a in auto)
  with kept_round [OF D, of m junk i] show "\<exists>B' D'. menu_round m junk B i = Inr B' \<and> book_lists B' D'"
    by (cases "menu_round m junk B i") auto
qed

theorem contacts_session_witness:
  "\<exists>B B' D'. menu_session [(malloc_ok, demo_person, \<lparr>select = 1, word1 = ''bea'', word2 = ''7'', file_ok = False, file_text = []\<rparr>)]
      empty_book = Inr B
    \<and> menu_round malloc_ok demo_person B \<lparr>select = 2, word1 = ''bea'', word2 = [], file_ok = False, file_text = []\<rparr> = Inr B'
    \<and> book_lists B' D'"
proof -
  let ?i = "\<lparr>select = 1, word1 = ''bea'', word2 = ''7'', file_ok = False, file_text = []\<rparr>"
  let ?j = "\<lparr>select = 2, word1 = ''bea'', word2 = [], file_ok = False, file_text = []\<rparr>"
  have "\<exists>B. menu_session [(malloc_ok, demo_person, ?i)] empty_book = Inr B"
    using insert_entry_book [OF empty_book_book, of "''bea''" "''7''" demo_person]
    by (auto simp: menu_round_def toupper_def NAME_LENGTH_def PHONE_NUMBER_LENGTH_def malloc_ok_def)
  then obtain B where B: "menu_session [(malloc_ok, demo_person, ?i)] empty_book = Inr B" by blast
  with contacts_session [of "[(malloc_ok, demo_person, ?i)]" B ?j malloc_ok demo_person] show ?thesis
    by (auto simp: NAME_LENGTH_def PHONE_NUMBER_LENGTH_def)
qed



text \<open>
  Loading a file adds its persons to those of the book, but sets the counter to the number of persons in the file.
\<close>

theorem contacts_load_count:
  assumes "book B D" "\<forall>e \<in> set es. plain e \<and> (\<exists>g. entry_ok g e)" "length f < NAME_LENGTH" "\<forall>i. m i"
  shows "\<exists>B'. load_entry True m junk B f (concat (map entry_line es)) = Inr (B', 0)
    \<and> book_lists B' (foldl add_entry D es) \<and> contact_count B' = int (length es)"
  using load_loop_lines [of m B D es junk 0 0] assms by (simp add: load_entry_def load_file_def book_def)

theorem contacts_load_count_witness:
  "\<exists>B B'. book B demo_lists \<and> contact_count B = 3
    \<and> load_entry True malloc_ok demo_person B ''f'' (concat (map entry_line demo_entries)) = Inr (B', 0)
    \<and> book_lists B' (foldl add_entry demo_lists demo_entries) \<and> contact_count B' = 3"
proof -
  obtain B where B: "book B demo_lists" using demo_book by blast
  have "length (concat demo_lists) = 3"
    by (simp add: demo_lists_def demo_entries_def add_entry_def group_of_def toupper_def ALPHABET_COUNT_def numeral_eq_Suc)
  then have "contact_count B = 3" using B by (simp add: book_def)
  then show ?thesis
    using contacts_load_count [OF B demo_entries_ok, of "''f''" malloc_ok demo_person] B
    by (auto simp: NAME_LENGTH_def demo_entries_def)
qed

end
