(* ===== verification/Contacts_Flat.thy ===== *)
theory Contacts_Flat
  imports Contacts_Rep
begin

text \<open>
  The first version of the address book, \<^verbatim>\<open>src/00/02_contacts/Contacts.c\<close>: one list, to which \<^verbatim>\<open>LIST_INSERT\<close> adds in
  front without setting the \<^verbatim>\<open>previous\<close> pointer of the node that was first. Names carry the suffix \<open>flat\<close>; memory,
  persons and the text of the files are those of the theory \<open>Contacts\<close>.
\<close>

section \<open>Operations\<close>

record contacts_flat =
  memory :: contacts
  people_flat :: addr

definition person_insert_flat :: "contacts_flat \<Rightarrow> addr \<Rightarrow> (contacts_flat \<times> int) res" where
  "person_insert_flat C p =
     (if p = 0 then Inr (C, -1)
      else andthen (store_at (memory C) p (\<lambda>c. c\<lparr>previous := 0, pnext := people_flat C\<rparr>)) (\<lambda>B.
           Inr (\<lparr>memory = B, people_flat = p\<rparr>, 0)))"

definition person_delete_flat :: "contacts_flat \<Rightarrow> addr \<Rightarrow> (contacts_flat \<times> int) res" where
  "person_delete_flat C p =
     (if p = 0 then Inr (C, -1)
      else andthen (load_at (memory C) p) (\<lambda>c.
        andthen (if previous c \<noteq> 0 then store_at (memory C) (previous c) (\<lambda>d. d\<lparr>pnext := pnext c\<rparr>) else Inr (memory C)) (\<lambda>B.
        andthen (if pnext c \<noteq> 0 then store_at B (pnext c) (\<lambda>d. d\<lparr>previous := previous c\<rparr>) else Inr B) (\<lambda>B.
        andthen (store_at B p (\<lambda>d. d\<lparr>previous := 0, pnext := 0\<rparr>)) (\<lambda>B.
        Inr (\<lparr>memory = B, people_flat = if people_flat C = p then pnext c else people_flat C\<rparr>, 0))))))"

definition person_search_flat :: "contacts_flat \<Rightarrow> string \<Rightarrow> addr res" where
  "person_search_flat C name = person_search_in_group (Suc (top (memory C))) (memory C) (people_flat C) name"

definition person_traversal_flat :: "contacts_flat \<Rightarrow> (string \<times> string) list res" where
  "person_traversal_flat C = walk (Suc (top (memory C))) (memory C) (people_flat C)"

definition insert_entry_flat :: "bool \<Rightarrow> person \<Rightarrow> contacts_flat \<Rightarrow> string \<Rightarrow> string \<Rightarrow> (contacts_flat \<times> int) res" where
  "insert_entry_flat ok junk C name phone =
     (if \<not> ok then Inr (C, -2)
      else if NAME_LENGTH \<le> length name \<or> PHONE_NUMBER_LENGTH \<le> length phone then Inl OutOfBounds
      else case new_person (memory C) (junk\<lparr>pname := name, phone_number := phone\<rparr>) of (B, p) \<Rightarrow>
        andthen (person_insert_flat (C\<lparr>memory := B\<rparr>) p) (\<lambda>(C, r).
          if r \<noteq> 0 then Inr (C\<lparr>memory := free_person (memory C) p\<rparr>, -3)
          else Inr (C\<lparr>memory := (memory C)\<lparr>contact_count := contact_count (memory C) + 1\<rparr>\<rparr>, 0)))"

definition print_entry_flat :: "contacts_flat \<Rightarrow> (string \<times> string) list res" where
  "print_entry_flat C = person_traversal_flat C"

text \<open>The counter is not decremented.\<close>

definition delete_entry_flat :: "contacts_flat \<Rightarrow> string \<Rightarrow> (contacts_flat \<times> int) res" where
  "delete_entry_flat C name =
     (if NAME_LENGTH \<le> length name then Inl OutOfBounds
      else andthen (person_search_flat C name) (\<lambda>ps.
        if ps = 0 then Inr (C, -2)
        else andthen (person_delete_flat C ps) (\<lambda>(C, _). Inr (C\<lparr>memory := free_person (memory C) ps\<rparr>, 0))))"

definition search_entry_flat :: "contacts_flat \<Rightarrow> string \<Rightarrow> ((string \<times> string) option \<times> int) res" where
  "search_entry_flat C name =
     (if NAME_LENGTH \<le> length name then Inl OutOfBounds
      else andthen (person_search_flat C name) (\<lambda>ps.
        if ps = 0 then Inr (None, -2)
        else andthen (load_at (memory C) ps) (\<lambda>c. Inr (Some (pname c, phone_number c), 0))))"

definition save_file_flat :: "bool \<Rightarrow> contacts_flat \<Rightarrow> string res" where
  "save_file_flat opened C =
     (if \<not> opened then Inr []
      else andthen (walk (Suc (top (memory C))) (memory C) (people_flat C)) (\<lambda>es. Inr (concat (map entry_line es))))"

text \<open>
  Loading reads into arrays of 32 and 64; \<^verbatim>\<open>strncpy\<close> then copies at most 15 and 31 characters and does not terminate a
  text that is as long: \<open>tail\<close> is what the memory behind it holds.
\<close>

definition strncpy_text :: "nat \<Rightarrow> string \<Rightarrow> string \<Rightarrow> string" where
  "strncpy_text n tail s = (if length s < n then s else take n s @ tail)"

function load_loop_flat :: "mallocs \<Rightarrow> string \<Rightarrow> nat \<Rightarrow> contacts_flat \<Rightarrow> string \<Rightarrow> (contacts_flat \<times> int) res" where
  "load_loop_flat m tail i C text =
     (case scan_entry 32 64 text of
        Inl e \<Rightarrow> Inl e
      | Inr None \<Rightarrow> Inr (C, 0)
      | Inr (Some (name, phone, rest)) \<Rightarrow>
          if \<not> m i then Inr (C, -2)
          else case new_person (memory C) \<lparr>pname = strncpy_text (NAME_LENGTH - 1) tail name,
              phone_number = strncpy_text (PHONE_NUMBER_LENGTH - 1) tail phone, pnext = 0, previous = 0\<rparr> of (B, p) \<Rightarrow>
            andthen (person_insert_flat (C\<lparr>memory := B\<rparr>) p) (\<lambda>(C, _). load_loop_flat m tail (Suc i) C rest))"
  by pat_completeness auto
termination
  by (relation "measure (\<lambda>(_, _, _, _, text). length text)") (auto dest: scan_entry_length)

declare load_loop_flat.simps [simp del]

definition load_file_flat :: "bool \<Rightarrow> mallocs \<Rightarrow> string \<Rightarrow> contacts_flat \<Rightarrow> string \<Rightarrow> (contacts_flat \<times> int) res" where
  "load_file_flat opened m tail C text = (if \<not> opened then Inr (C, -1) else load_loop_flat m tail 0 C text)"

definition save_entry_flat :: "bool \<Rightarrow> contacts_flat \<Rightarrow> string \<Rightarrow> string res" where
  "save_entry_flat opened C filename =
     (if NAME_LENGTH \<le> length filename then Inl OutOfBounds else save_file_flat opened C)"

definition load_entry_flat :: "bool \<Rightarrow> mallocs \<Rightarrow> string \<Rightarrow> contacts_flat \<Rightarrow> string \<Rightarrow> string \<Rightarrow> (contacts_flat \<times> int) res" where
  "load_entry_flat opened m tail C filename text =
     (if NAME_LENGTH \<le> length filename then Inl OutOfBounds else load_file_flat opened m tail C text)"

section \<open>The list\<close>

text \<open>A list in which no node knows its predecessor: what inserting builds.\<close>

fun sseg :: "(addr \<Rightarrow> person option) \<Rightarrow> addr \<Rightarrow> node list \<Rightarrow> addr \<Rightarrow> bool" where
  "sseg h p [] q \<longleftrightarrow> p = q"
| "sseg h p ((a, n, ph) # xs) q \<longleftrightarrow> p = a \<and> a \<noteq> 0 \<and>
     (\<exists>c. h a = Some c \<and> pname c = n \<and> phone_number c = ph \<and> previous c = 0 \<and> sseg h (pnext c) xs q)"

definition flat_rep :: "contacts_flat \<Rightarrow> node list \<Rightarrow> bool" where
  "flat_rep C xs \<longleftrightarrow> sseg (people (memory C)) (people_flat C) xs 0 \<and> distinct (map fst xs) \<and> 0 < top (memory C)
     \<and> (\<forall>a \<in> fst ` set xs. a < top (memory C))"

lemma sseg_append: "sseg h p (xs @ ys) q \<longleftrightarrow> (\<exists>r. sseg h p xs r \<and> sseg h r ys q)"
  by (induction xs arbitrary: p) (simp, fastforce)

lemma sseg_cong:
  assumes "sseg h p xs q" "\<forall>a \<in> fst ` set xs. h' a = h a"
  shows "sseg h' p xs q"
  using assms by (induction xs arbitrary: p) auto

lemma flat_rep_fuel: "flat_rep C xs \<Longrightarrow> length xs < Suc (top (memory C))"
proof -
  assume a: "flat_rep C xs"
  then have "fst ` set xs \<subseteq> {..<top (memory C)}" by (auto simp: flat_rep_def)
  then have "card (fst ` set xs) \<le> top (memory C)" using card_mono [of "{..<top (memory C)}"] by fastforce
  then show ?thesis using a distinct_card [of "map fst xs"] by (simp add: flat_rep_def)
qed

lemma flat_search_spec:
  assumes "sseg (people B) p xs 0" "length xs < fuel"
  shows "person_search_in_group fuel B p name = Inr (case find (\<lambda>(_, n, _). n = name) xs of None \<Rightarrow> 0 | Some (a, _) \<Rightarrow> a)"
  using assms
proof (induction xs arbitrary: p fuel)
  case (Cons x xs)
  obtain a n ph where x: "x = (a, n, ph)" by (cases x)
  obtain f where f: "fuel = Suc f" using Cons.prems(2) by (cases fuel) auto
  obtain c where c: "people B a = Some c" "pname c = n" "sseg (people B) (pnext c) xs 0" "p = a" "a \<noteq> 0"
    using Cons.prems(1) x by auto
  with Cons.IH [OF c(3), of f] Cons.prems(2) f x show ?case by (simp add: load_at_def)
next
  case Nil
  then show ?case by (cases fuel) auto
qed

text \<open>Walking to a node that is not live.\<close>

lemma walk_dangling:
  assumes "sseg (people B) p xs q" "q \<noteq> 0" "people B q = None" "length xs < fuel"
  shows "walk fuel B p = Inl Segv"
  using assms
proof (induction xs arbitrary: p fuel)
  case (Cons x xs)
  obtain a n ph where x: "x = (a, n, ph)" by (cases x)
  obtain f where f: "fuel = Suc f" using Cons.prems(4) by (cases fuel) auto
  obtain c where c: "people B a = Some c" "sseg (people B) (pnext c) xs q" "p = a" "a \<noteq> 0"
    using Cons.prems(1) x by auto
  with Cons.IH [OF c(2) assms(2,3), of f] Cons.prems(4) f show ?case by (simp add: load_at_def)
next
  case Nil
  then show ?case by (cases fuel) (auto simp: load_at_def)
qed

lemma walk_sseg:
  assumes "sseg (people B) p xs 0" "length xs < fuel"
  shows "walk fuel B p = Inr (map snd xs)"
  using assms
proof (induction xs arbitrary: p fuel)
  case (Cons x xs)
  obtain a n ph where x: "x = (a, n, ph)" by (cases x)
  obtain f where f: "fuel = Suc f" using Cons.prems(2) by (cases fuel) auto
  obtain c where c: "people B a = Some c" "pname c = n" "phone_number c = ph" "sseg (people B) (pnext c) xs 0" "p = a" "a \<noteq> 0"
    using Cons.prems(1) x by auto
  with Cons.IH [OF c(4), of f] Cons.prems(2) f x show ?case by (simp add: load_at_def)
next
  case Nil
  then show ?case by (cases fuel) auto
qed

lemma insert_entry_flat_rep:
  assumes rep: "flat_rep C xs" and len: "length name < NAME_LENGTH" "length phone < PHONE_NUMBER_LENGTH"
  shows "\<exists>C' p. insert_entry_flat True junk C name phone = Inr (C', 0) \<and> flat_rep C' ((p, name, phone) # xs)"
proof -
  let ?B = "memory C" and ?p = "top (memory C)"
  define C' where "C' = \<lparr>memory = ?B\<lparr>people := (people ?B)(?p \<mapsto> junk\<lparr>pname := name, phone_number := phone, previous := 0,
    pnext := people_flat C\<rparr>), top := Suc ?p, contact_count := contact_count ?B + 1\<rparr>, people_flat = ?p\<rparr>"
  have "insert_entry_flat True junk C name phone = Inr (C', 0)"
    using len rep by (simp add: insert_entry_flat_def new_person_def person_insert_flat_def store_at_def C'_def flat_rep_def)
  moreover have "flat_rep C' ((?p, name, phone) # xs)"
  proof -
    have f: "?p \<notin> fst ` set xs" using rep by (auto simp: flat_rep_def)
    have "sseg (people (memory C')) (people_flat C) xs 0"
      by (rule sseg_cong [of "people ?B"]) (use rep f in \<open>auto simp: flat_rep_def C'_def\<close>)
    then show ?thesis using rep f by (auto simp: flat_rep_def C'_def)
  qed
  ultimately show ?thesis by blast
qed

section \<open>Properties\<close>

text \<open>
  C36: in the flat list a person that was inserted stays reachable and is found, but deleting any person other than the one
  inserted last frees its node and leaves its predecessor linked to it: printing the book, or saving it, then follows a
  pointer to freed memory. Deleting the one inserted last is right.
\<close>

theorem contacts_flat_delete:
  assumes rep: "flat_rep C xs" and name: "length name < NAME_LENGTH"
    and found: "find (\<lambda>(_, n, _). n = name) xs = Some (a, n, ph)"
  shows "\<exists>C'. delete_entry_flat C name = Inr (C', 0)
    \<and> (if a = people_flat C then print_entry_flat C' = Inr (map snd (tl xs)) \<and> flat_rep C' (tl xs)
       else print_entry_flat C' = Inl Segv \<and> save_file_flat True C' = Inl Segv)"
proof -
  let ?B = "memory C"
  have "(a, n, ph) \<in> set xs" using found by (force simp: find_Some_iff in_set_conv_nth)
  then obtain us vs where xs: "xs = us @ (a, n, ph) # vs" by (meson split_list)
  have s: "sseg (people ?B) (people_flat C) us a" "a \<noteq> 0"
    and "\<exists>c. people ?B a = Some c \<and> previous c = 0 \<and> sseg (people ?B) (pnext c) vs 0"
    using rep unfolding flat_rep_def xs sseg_append by auto
  then obtain c where c: "people ?B a = Some c" "previous c = 0" "sseg (people ?B) (pnext c) vs 0" by blast
  have dist: "distinct (map fst (us @ vs))" "a \<notin> fst ` set us" "a \<notin> fst ` set vs"
    using rep unfolding flat_rep_def xs by auto
  have r: "pnext c \<noteq> 0 \<Longrightarrow> \<exists>d. people ?B (pnext c) = Some d \<and> previous d = 0 \<and> pnext c \<noteq> a" using c(3) dist(3) by (cases vs) auto
  have srch: "person_search_flat C name = Inr a"
    using flat_search_spec [of ?B "people_flat C" xs "Suc (top ?B)" name] rep flat_rep_fuel [OF rep] found
    by (simp add: person_search_flat_def flat_rep_def del: person_search_in_group.simps)
  define h where "h = (people ?B)(a := None)"
  define C' where "C' = \<lparr>memory = ?B\<lparr>people := h\<rparr>, people_flat = if people_flat C = a then pnext c else people_flat C\<rparr>"
  have same: "(people ?B)(pnext c \<mapsto> d\<lparr>previous := 0\<rparr>) = people ?B" if "people ?B (pnext c) = Some d" "previous d = 0" for d
    using that by (cases d) auto
  have "person_delete_flat C a = Inr (\<lparr>memory = ?B\<lparr>people := (people ?B)(a \<mapsto> c\<lparr>previous := 0, pnext := 0\<rparr>)\<rparr>,
      people_flat = if people_flat C = a then pnext c else people_flat C\<rparr>, 0)"
    using s(2) c r same by (cases "pnext c = 0") (auto simp: person_delete_flat_def load_at_def store_at_def)
  then have del: "delete_entry_flat C name = Inr (C', 0)"
    using name srch s(2) by (simp add: delete_entry_flat_def free_person_def C'_def h_def)
  have us': "sseg h (people_flat C) us a" by (rule sseg_cong [OF s(1)]) (use dist(2) in \<open>auto simp: h_def\<close>)
  have vs': "sseg h (pnext c) vs 0" by (rule sseg_cong [OF c(3)]) (use dist(3) in \<open>auto simp: h_def\<close>)
  have fuel: "length us < Suc (top ?B)" "length vs < Suc (top ?B)" using flat_rep_fuel [OF rep] xs by auto
  show ?thesis
  proof (cases "a = people_flat C")
    case True
    then have u: "us = []" using s dist(2) by (cases us) auto
    have f: "flat_rep C' (tl xs)" using rep vs' True unfolding flat_rep_def xs u by (auto simp: C'_def)
    have "print_entry_flat C' = Inr (map snd (tl xs))"
      using walk_sseg [of "memory C'" "pnext c" vs "Suc (top ?B)"] vs' fuel True
      by (simp add: print_entry_flat_def person_traversal_flat_def C'_def xs u del: walk.simps)
    with del f True show ?thesis by auto
  next
    case False
    have "walk (Suc (top ?B)) (memory C') (people_flat C) = Inl Segv"
      by (rule walk_dangling [OF _ s(2) _ fuel(1)]) (use us' in \<open>simp_all add: C'_def h_def\<close>)
    with del False show ?thesis
      by (auto simp: print_entry_flat_def person_traversal_flat_def save_file_flat_def C'_def simp del: walk.simps)
  qed
qed

theorem contacts_flat_delete_witness:
  "\<exists>C C'. flat_rep C [(2, ''bob'', ''2''), (1, ''ann'', ''1'')] \<and> delete_entry_flat C ''ann'' = Inr (C', 0)
    \<and> print_entry_flat C' = Inl Segv"
proof -
  define C where "C = \<lparr>memory = \<lparr>groups = [], contact_count = 2, people = [1 \<mapsto> \<lparr>pname = ''ann'', phone_number = ''1'', pnext = 0,
    previous = 0\<rparr>, 2 \<mapsto> \<lparr>pname = ''bob'', phone_number = ''2'', pnext = 1, previous = 0\<rparr>], top = 3\<rparr>, people_flat = 2\<rparr>"
  have r: "flat_rep C [(2, ''bob'', ''2''), (1, ''ann'', ''1'')]" by (simp add: flat_rep_def C_def)
  show ?thesis using contacts_flat_delete [OF r, of "''ann''" 1 "''ann''" "''1''"] r by (auto simp: NAME_LENGTH_def C_def)
qed

end
