(* ===== verification/Websocket.thy ===== *)
theory Websocket
  imports C_Words
begin

text \<open>
  The WebSocket layer of the HTTP server, \<^verbatim>\<open>src/02/2.1network/2.1.3 http-server/websocket.c\<close>: the handshake, the frames and
  the two callbacks that the event loop calls. A connection has buffers of 1024 bytes; an access behind them is a fault.
  The bit fields of the frame header are laid out from the low bit of a byte on, as compilers for little endian machines
  do. The digests of OpenSSL, \<^verbatim>\<open>SHA1\<close> and the Base64 filter, are arguments.
\<close>

unbundle bit_operations_syntax

section \<open>Data\<close>

definition WS_BUFFER_LENGTH :: nat where
  "WS_BUFFER_LENGTH = 1024"

definition GUID :: bytes where
  "GUID = text_bytes ''258EAFA5-E914-47DA-95CA-C5AB0DC85B11''"

record nty_ophdr =
  fin :: nat
  rsv1 :: nat
  rsv2 :: nat
  rsv3 :: nat
  opcode :: nat
  masked :: nat
  payload_length :: nat

text \<open>The two bytes of a header: fields of 1, 1, 1, 1 and 4 bits, and of 1 and 7 bits.\<close>

definition ophdr_bytes :: "nty_ophdr \<Rightarrow> bytes" where
  "ophdr_bytes h = [of_nat (fin h mod 2 + 2 * (rsv1 h mod 2) + 4 * (rsv2 h mod 2) + 8 * (rsv3 h mod 2) + 16 * (opcode h mod 16)),
     of_nat (masked h mod 2 + 2 * (payload_length h mod 128))]"

definition ophdr_of :: "bytes \<Rightarrow> nty_ophdr" where
  "ophdr_of b = (let x = unat (b ! 0); y = unat (b ! 1) in
     \<lparr>fin = x mod 2, rsv1 = x div 2 mod 2, rsv2 = x div 4 mod 2, rsv3 = x div 8 mod 2, opcode = x div 16,
      masked = y mod 2, payload_length = y div 2\<rparr>)"

text \<open>A connection; \<open>payload\<close> is the offset in the receive buffer that the pointer has.\<close>

record ws_conn =
  ws_rbuffer :: bytes
  ws_rlength :: int
  ws_wbuffer :: bytes
  ws_wlength :: int
  payload :: nat
  ws_mask :: bytes
  status :: int

section \<open>Frames\<close>

fun demask_from :: "nat \<Rightarrow> bytes \<Rightarrow> bytes \<Rightarrow> bytes" where
  "demask_from i key [] = []"
| "demask_from i key (d # ds) = (d XOR key ! (i mod 4)) # demask_from (Suc i) key ds"

definition demask :: "bytes \<Rightarrow> bytes \<Rightarrow> bytes" where
  "demask data key = demask_from 0 key data"

text \<open>Size, mask and start of the payload, as the header has them.\<close>

definition frame_layout :: "bytes \<Rightarrow> bytes \<Rightarrow> int \<times> bytes \<times> nat" where
  "frame_layout stream key =
     (let hdr = ophdr_of stream in
      if masked hdr \<noteq> 0 then
        if payload_length hdr = 126 then (int (unat (htons (get16 stream 2))), take 4 (drop 4 stream), 8)
        else if payload_length hdr = 127 then (sint (get32 stream 2), take 4 (drop 10 stream), 14)
        else (int (payload_length hdr), take 4 (drop 2 stream), 6)
      else (int (payload_length hdr), key, 2))"

text \<open>The result is the changed buffer, the mask, the length and the offset of the payload.\<close>

definition decode_packet :: "bytes \<Rightarrow> bytes \<Rightarrow> (bytes \<times> bytes \<times> int \<times> nat) res" where
  "decode_packet stream key =
     (case frame_layout stream key of (len, key, start) \<Rightarrow>
      if masked (ophdr_of stream) \<noteq> 0 \<and> len > 0 then
        if int (length stream) < int start + len then Inl OutOfBounds
        else andthen (write_at start (demask (take (nat len) (drop start stream)) key) stream) (\<lambda>stream.
          Inr (stream, key, len, start))
      else Inr (stream, key, len, start))"

definition encode_packet :: "bytes \<Rightarrow> bytes \<Rightarrow> int \<Rightarrow> (bytes \<times> int) res" where
  "encode_packet buffer stream len =
     (let head = \<lparr>fin = 1, rsv1 = 0, rsv2 = 0, rsv3 = 0, opcode = 1, masked = 0, payload_length = 0\<rparr>;
          hdr = (if len < 126 then ophdr_bytes (head\<lparr>payload_length := nat (len mod 128)\<rparr>)
                 else if len < 0xffff then
                   ophdr_bytes (head\<lparr>payload_length := 126\<rparr>) @ raw16 (htons (of_int len)) @ replicate 4 0
                 else ophdr_bytes (head\<lparr>payload_length := 127\<rparr>) @ raw32 (of_int len) @ replicate 4 0 @ replicate 4 0)
      in andthen (write_at 0 hdr buffer) (\<lambda>buffer.
         if len < 0 \<or> int (length stream) < len then Inl OutOfBounds
         else andthen (write_at (length hdr) (take (nat len) stream) buffer) (\<lambda>buffer.
           Inr (buffer, int (length hdr) + len))))"

section \<open>Handshake\<close>

definition c_bytes :: "bytes \<Rightarrow> bytes" where
  "c_bytes buf = takeWhile (\<lambda>b. b \<noteq> 0) buf"

definition CR :: byte where "CR = 13"
definition LF :: byte where "LF = 10"

text \<open>A line from an index on: its bytes, and the index of the next line or -1.\<close>

fun readline_from :: "nat \<Rightarrow> bytes \<Rightarrow> bytes \<times> int" where
  "readline_from level [] = ([], -1)"
| "readline_from level (c # cs) =
     (if c = CR \<and> cs \<noteq> [] \<and> hd cs = LF then ([], int level + 2)
      else case readline_from (Suc level) cs of (l, i) \<Rightarrow> (c # l, i))"

definition readline :: "bytes \<Rightarrow> nat \<Rightarrow> bytes \<times> int" where
  "readline allbuf level = readline_from level (drop level (c_bytes allbuf))"

text \<open>\<^verbatim>\<open>strstr\<close>: the text from the first occurrence on.\<close>

fun strstr :: "bytes \<Rightarrow> bytes \<Rightarrow> bytes option" where
  "strstr s w = (if take (length w) s = w then Some s else case s of [] \<Rightarrow> None | _ # s' \<Rightarrow> strstr s' w)"

declare strstr.simps [simp del]

lemma strstr_prefix: "strstr (w @ s) w = Some (w @ s)"
  by (subst strstr.simps) simp

definition ws_answer :: "bytes \<Rightarrow> bytes" where
  "ws_answer acc = text_bytes ''HTTP/1.1 101 Switching Protocols'' @ [CR, LF] @ text_bytes ''Upgrade: websocket'' @ [CR, LF]
     @ text_bytes ''Connection: Upgrade'' @ [CR, LF] @ text_bytes ''Sec-WebSocket-Accept: '' @ acc @ [CR, LF, CR, LF]"

text \<open>The answer to a line with the key; \<open>None\<close> if the line has no key.\<close>

definition answer_key :: "(bytes \<Rightarrow> bytes) \<Rightarrow> (bytes \<Rightarrow> bytes) \<Rightarrow> ws_conn \<Rightarrow> bytes \<Rightarrow> (ws_conn \<times> int) res" where
  "answer_key sha1 base64 c linebuf =
     (case strstr linebuf (text_bytes ''Sec-WebSocket-Key: '') of
        None \<Rightarrow> Inr (c, -1)
      | Some s \<Rightarrow>
          let key = drop 19 s in
          if 256 \<le> length key + length GUID then Inl OutOfBounds
          else let acc = base64 (take 20 (sha1 (key @ GUID))); out = ws_answer acc in
            if 64 \<le> length acc \<or> WS_BUFFER_LENGTH \<le> length out then Inl OutOfBounds
            else andthen (write_at 0 out (replicate WS_BUFFER_LENGTH 0)) (\<lambda>w.
              Inr (c\<lparr>ws_wbuffer := w, ws_wlength := int (length out)\<rparr>, 0)))"

text \<open>A byte at an index of the receive buffer, behind which the received length is stored.\<close>

definition ws_byte :: "ws_conn \<Rightarrow> nat \<Rightarrow> byte" where
  "ws_byte c i = (ws_rbuffer c @ raw32 (of_int (ws_rlength c))) ! i"

text \<open>
  The loop over the lines of the request. At its end the code also reads the byte in front of the buffer, when there is
  no further line; its value does not matter.
\<close>

lemma readline_from_next: "readline_from level s = (l, i) \<Longrightarrow> i = -1 \<or> int level + 2 \<le> i \<and> i \<le> int level + int (length s)"
proof (induction level s arbitrary: l i rule: readline_from.induct)
  case (2 level c cs)
  show ?case
  proof (cases "c = CR \<and> cs \<noteq> [] \<and> hd cs = LF")
    case True
    with 2 show ?thesis by (cases cs) auto
  next
    case False
    with 2 show ?thesis by (cases "readline_from (Suc level) cs") (auto split: if_splits)
  qed
qed simp

function handshark_loop :: "(bytes \<Rightarrow> bytes) \<Rightarrow> (bytes \<Rightarrow> bytes) \<Rightarrow> ws_conn \<Rightarrow> nat \<Rightarrow> (ws_conn \<times> int) res" where
  "handshark_loop sha1 base64 c idx =
     (case readline (ws_rbuffer c) idx of (linebuf, i) \<Rightarrow>
      if strstr linebuf (text_bytes ''Sec-WebSocket-Key'') \<noteq> None then answer_key sha1 base64 c linebuf
      else if i = -1 \<or> (ws_byte c (nat i) = CR \<and> ws_byte c (nat i + 1) = LF) then Inr (c, 0)
      else handshark_loop sha1 base64 c (nat i))"
  by pat_completeness auto
termination
proof (relation "measure (\<lambda>(_, _, c, idx). length (c_bytes (ws_rbuffer c)) - idx)", goal_cases)
  case (2 sha1 base64 c idx linebuf i)
  then have "readline_from idx (drop idx (c_bytes (ws_rbuffer c))) = (linebuf, i)" "i \<noteq> -1" by (auto simp: readline_def)
  with readline_from_next [OF this(1)] show ?case by auto
qed simp

declare handshark_loop.simps [simp del]

definition handshark :: "(bytes \<Rightarrow> bytes) \<Rightarrow> (bytes \<Rightarrow> bytes) \<Rightarrow> ws_conn \<Rightarrow> (ws_conn \<times> int) res" where
  "handshark sha1 base64 c = handshark_loop sha1 base64 c 0"

section \<open>Callbacks\<close>

definition ws_request :: "(bytes \<Rightarrow> bytes) \<Rightarrow> (bytes \<Rightarrow> bytes) \<Rightarrow> ws_conn \<Rightarrow> ws_conn res" where
  "ws_request sha1 base64 c =
     (if status c = 0 then andthen (handshark sha1 base64 c) (\<lambda>(c, _). Inr (c\<lparr>status := 1\<rparr>))
      else if status c = 1 then
        andthen (decode_packet (ws_rbuffer c) (ws_mask c)) (\<lambda>(stream, key, ret, start).
          let c = c\<lparr>ws_rbuffer := stream, ws_mask := key, payload := start\<rparr> in
          if ret > 0 then Inr (c\<lparr>ws_wlength := ret, status := 2\<rparr>) else Inr c)
      else Inr c)"

definition ws_response :: "ws_conn \<Rightarrow> ws_conn res" where
  "ws_response c =
     (if status c = 2 then
        andthen (encode_packet (ws_wbuffer c) (drop (payload c) (ws_rbuffer c)) (ws_wlength c)) (\<lambda>(w, n).
          Inr (c\<lparr>ws_wbuffer := w, ws_wlength := n, status := 1\<rparr>))
      else Inr c)"

section \<open>Frames in the layout of the code\<close>

lemma length_demask_from [simp]: "length (demask_from i key ds) = length ds"
  by (induction i key ds rule: demask_from.induct) auto

lemma demask_twice: "demask (demask ds key) key = ds"
proof -
  have "demask_from i key (demask_from i key ds) = ds" for i by (induction ds arbitrary: i) (simp_all add: xor.assoc)
  then show ?thesis by (simp add: demask_def)
qed

lemma demask_Nil [simp]: "demask [] key = []"
  by (simp add: demask_def)

lemma length_demask [simp]: "length (demask ds key) = length ds"
  by (simp add: demask_def)

text \<open>A masked frame with fewer than 126 bytes, the mask bit in the lowest bit of the second byte.\<close>

definition low_frame :: "byte \<Rightarrow> bytes \<Rightarrow> bytes \<Rightarrow> bytes" where
  "low_frame b key ds = [b, of_nat (2 * length ds + 1)] @ key @ demask ds key"

text \<open>The frame of a client that follows RFC 6455: FIN and MASK are the highest bits of their bytes.\<close>

definition rfc_frame :: "bytes \<Rightarrow> bytes \<Rightarrow> bytes" where
  "rfc_frame key ds = [0x81, of_nat (128 + length ds)] @ key @ demask ds key"

lemma unat_byte: "n < 256 \<Longrightarrow> unat (of_nat n :: byte) = n"
  by (simp add: unat_of_nat)

lemma ophdr_second:
  assumes "stream = b # of_nat n # r" "n < 256"
  shows "masked (ophdr_of stream) = n mod 2" "payload_length (ophdr_of stream) = n div 2"
  using assms by (simp_all add: ophdr_of_def Let_def unat_of_nat)

lemma decode_low_frame:
  assumes ds: "length ds < 126" "length key = 4"
  shows "decode_packet (low_frame b key ds @ r) key0 = Inr ([b, of_nat (2 * length ds + 1)] @ key @ ds @ r, key, int (length ds), 6)"
proof -
  let ?s = "low_frame b key ds @ r"
  have h: "masked (ophdr_of ?s) = 1" "payload_length (ophdr_of ?s) = length ds"
    using ophdr_second [of ?s b "2 * length ds + 1"] ds(1) by (simp_all add: low_frame_def)
  have len: "length (low_frame b key ds) = 6 + length ds" using ds(2) by (simp add: low_frame_def)
  have k: "take 4 (drop 2 ?s) = key" "drop 6 ?s = demask ds key @ r" "take 6 ?s = [b, of_nat (2 * length ds + 1)] @ key"
    using ds(2) by (simp_all add: low_frame_def)
  have "frame_layout ?s key0 = (int (length ds), key, 6)" using h ds(1) k(1) by (simp add: frame_layout_def Let_def)
  moreover have "6 + length ds \<le> length ?s" "drop (6 + length ds) ?s = r"
    using ds(2) len by simp_all
  ultimately show ?thesis
    using h k ds by (cases "ds = []") (auto simp: decode_packet_def write_at_def demask_twice low_frame_def)
qed

lemma encode_short:
  assumes "length buf = WS_BUFFER_LENGTH" "n < 126" "n \<le> length s"
  shows "encode_packet buf s (int n) = Inr ([0x11, of_nat (2 * n)] @ take n s @ drop (2 + n) buf, 2 + int n)"
  using assms by (simp add: encode_packet_def ophdr_bytes_def write_at_def WS_BUFFER_LENGTH_def Let_def zmod_int)

section \<open>Lines of a request\<close>

lemma readline_from_line: "CR \<notin> set l \<Longrightarrow> readline_from level (l @ CR # LF # s) = (l, int (level + length l) + 2)"
  by (induction l arbitrary: level) auto

lemma ws_byte_text: "i < length (c_bytes (ws_rbuffer c)) \<Longrightarrow> ws_byte c i = c_bytes (ws_rbuffer c) ! i"
  using length_takeWhile_le [of "\<lambda>b. b \<noteq> 0" "ws_rbuffer c"] by (simp add: ws_byte_def c_bytes_def nth_append takeWhile_nth)

lemma c_bytes_lines:
  assumes "\<forall>l \<in> set ls. 0 \<notin> set l" "0 \<notin> set s"
  shows "c_bytes (concat (map (\<lambda>l. l @ [CR, LF]) ls) @ s @ CR # LF # r) = concat (map (\<lambda>l. l @ [CR, LF]) ls) @ s @ CR # LF # c_bytes r"
proof -
  have "0 \<notin> set (concat (map (\<lambda>l. l @ [CR, LF]) ls) @ s @ [CR, LF])" using assms by (auto simp: CR_def LF_def)
  then have "takeWhile (\<lambda>b. b \<noteq> 0) ((concat (map (\<lambda>l. l @ [CR, LF]) ls) @ s @ [CR, LF]) @ r)
    = (concat (map (\<lambda>l. l @ [CR, LF]) ls) @ s @ [CR, LF]) @ takeWhile (\<lambda>b. b \<noteq> 0) r"
    by (intro takeWhile_append2) metis
  then show ?thesis by (simp add: c_bytes_def)
qed

lemma strstr_key_line: "strstr (text_bytes ''Sec-WebSocket-Key: '' @ k) (text_bytes ''Sec-WebSocket-Key'') \<noteq> None"
  using strstr_prefix [of "text_bytes ''Sec-WebSocket-Key''" "text_bytes '': '' @ k"] by (simp add: text_bytes_def)

lemma handshark_lines:
  assumes "drop idx (c_bytes (ws_rbuffer c)) = concat (map (\<lambda>l. l @ [CR, LF]) ls) @ kl @ CR # LF # s"
    and "\<forall>l \<in> set ls. l \<noteq> [] \<and> CR \<notin> set l \<and> strstr l (text_bytes ''Sec-WebSocket-Key'') = None"
    and "kl \<noteq> []" "CR \<notin> set kl" "strstr kl (text_bytes ''Sec-WebSocket-Key'') \<noteq> None"
  shows "handshark_loop sha1 base64 c idx = answer_key sha1 base64 c kl"
  using assms(1,2)
proof (induction ls arbitrary: idx)
  case Nil
  then show ?case
    using assms(4,5) by (subst handshark_loop.simps) (simp add: readline_def readline_from_line)
next
  case (Cons l ls)
  let ?t = "c_bytes (ws_rbuffer c)" and ?i = "idx + length l + 2"
  let ?s = "concat (map (\<lambda>l. l @ [CR, LF]) ls) @ kl @ CR # LF # s"
  have d: "drop idx ?t = l @ CR # LF # ?s" using Cons.prems(1) by simp
  have d': "drop ?i ?t = ?s"
  proof -
    have "drop ?i ?t = drop (length l + 2) (drop idx ?t)" by (simp add: add.commute add.left_commute)
    then show ?thesis unfolding d by simp
  qed
  have s: "?s \<noteq> []" "hd ?s \<noteq> CR"
  proof -
    show "?s \<noteq> []" using assms(3) by simp
    show "hd ?s \<noteq> CR"
    proof (cases ls)
      case Nil
      then show ?thesis using assms(3,4) by (cases kl) auto
    next
      case (Cons a as)
      then show ?thesis using Cons.prems(2) by (cases a) auto
    qed
  qed
  then have "?i < length ?t" using d' by (metis drop_all not_le_imp_less)
  moreover from this have "?t ! ?i \<noteq> CR" using d' s(2) by (metis hd_drop_conv_nth)
  ultimately have "ws_byte c ?i \<noteq> CR" by (simp add: ws_byte_text)
  moreover have "readline (ws_rbuffer c) idx = (l, int ?i)"
    unfolding readline_def d using Cons.prems(2) readline_from_line [of l idx ?s] by simp
  ultimately show ?case
    using Cons.IH [OF d'] Cons.prems(2) by (subst handshark_loop.simps) (simp add: nat_add_distrib)
qed

lemma answer_key_ok:
  assumes "length k < 220" "length (sha1 (k @ GUID)) = 20" "length (base64 (sha1 (k @ GUID))) = 28"
  shows "answer_key sha1 base64 c (text_bytes ''Sec-WebSocket-Key: '' @ k) = Inr (c\<lparr>ws_wbuffer := ws_answer (base64 (sha1 (k @ GUID)))
      @ replicate (WS_BUFFER_LENGTH - length (ws_answer (base64 (sha1 (k @ GUID))))) 0,
      ws_wlength := int (length (ws_answer (base64 (sha1 (k @ GUID)))))\<rparr>, 0)"
proof -
  have s: "strstr (text_bytes ''Sec-WebSocket-Key: '' @ k) (text_bytes ''Sec-WebSocket-Key: '') = Some (text_bytes ''Sec-WebSocket-Key: '' @ k)"
    "drop 19 (text_bytes ''Sec-WebSocket-Key: '' @ k) = k" "length GUID = 36"
    by (rule strstr_prefix) (simp_all add: text_bytes_def GUID_def)
  have l: "length (ws_answer (base64 (sha1 (k @ GUID)))) < WS_BUFFER_LENGTH"
    using assms(3) by (simp add: ws_answer_def text_bytes_def WS_BUFFER_LENGTH_def)
  show ?thesis
    unfolding answer_key_def s(1) option.case Let_def s(2,3) using assms l by (simp add: write_at_def)
qed

section \<open>Properties\<close>


definition demo_ws :: "int \<Rightarrow> bytes \<Rightarrow> ws_conn" where
  "demo_ws st bs = \<lparr>ws_rbuffer = bs @ replicate (WS_BUFFER_LENGTH - length bs) 0, ws_rlength = int (length bs),
     ws_wbuffer = replicate WS_BUFFER_LENGTH 0, ws_wlength = 0, payload = 0, ws_mask = [0, 0, 0, 0], status = st\<rparr>"

definition demo_sha1 :: "bytes \<Rightarrow> bytes" where
  "demo_sha1 x = replicate 20 (fold (+) x 0)"

definition demo_base64 :: "bytes \<Rightarrow> bytes" where
  "demo_base64 x = replicate 28 65"


text \<open>
  C39: a frame of a client that follows RFC 6455, with FIN and MASK in the highest bits, is misread: for a text of n bytes,
  fewer than 124, the callback takes a length of 64 + n div 2 and never n, and it takes the frame to be masked only if n is odd.
\<close>

theorem ws_rfc_frame:
  assumes "status c = 1" "length key = 4" "length ds < 124" "ws_rbuffer c = rfc_frame key ds @ r" "length (ws_rbuffer c) = WS_BUFFER_LENGTH"
  shows "\<exists>c1. ws_request sha1 base64 c = Inr c1 \<and> status c1 = 2 \<and> ws_wlength c1 = 64 + int (length ds div 2)
    \<and> ws_wlength c1 \<noteq> int (length ds) \<and> payload c1 = (if odd (length ds) then 6 else 2)"
proof -
  let ?s = "ws_rbuffer c" and ?n = "length ds"
  have m: "(128 + ?n) mod 2 = ?n mod 2" "(128 + ?n) div 2 = 64 + ?n div 2" by presburger+
  have h: "masked (ophdr_of ?s) = ?n mod 2" "payload_length (ophdr_of ?s) = 64 + ?n div 2"
    using ophdr_second [of ?s "0x81" "128 + ?n"] assms(3,4) m by (simp_all add: rfc_frame_def)
  have lay: "frame_layout ?s k0 = (64 + int (?n div 2), if odd ?n then take 4 (drop 2 ?s) else k0, if odd ?n then 6 else 2)" for k0
    using h assms(3) by (auto simp: frame_layout_def Let_def odd_iff_mod_2_eq_one even_iff_mod_2_eq_zero)
  have "\<exists>s' k. decode_packet ?s (ws_mask c) = Inr (s', k, 64 + int (?n div 2), if odd ?n then 6 else 2)"
    using lay h assms(3,5) by (simp add: decode_packet_def write_at_def WS_BUFFER_LENGTH_def)
  then show ?thesis using assms(1,3) by (auto simp: ws_request_def Let_def)
qed

theorem ws_rfc_frame_witness:
  "\<exists>c1. ws_request demo_sha1 demo_base64 (demo_ws 1 (rfc_frame [1, 2, 3, 4] [5, 6])) = Inr c1 \<and> ws_wlength c1 = 65"
proof -
  let ?c = "demo_ws 1 (rfc_frame [1, 2, 3, 4] [5, 6])"
  have "status ?c = 1" "ws_rbuffer ?c = rfc_frame [1, 2, 3, 4] [5, 6] @ replicate (WS_BUFFER_LENGTH - 8) 0"
    "length (ws_rbuffer ?c) = WS_BUFFER_LENGTH"
    by (simp_all add: demo_ws_def rfc_frame_def WS_BUFFER_LENGTH_def)
  from ws_rfc_frame [OF this(1) _ _ this(2,3), of demo_sha1 demo_base64] show ?thesis by auto
qed

text \<open>
  C23: the handshake answers the key of a request: with the header lines in front of it, none of them empty or with the name
  of the key, the line of the key gives the response 101 with the digest of the key and the fixed identifier, and the
  connection goes on to frames. SHA1 gives 20 bytes and Base64 turns 20 bytes into 28.
\<close>

theorem ws_handshake:
  assumes "status c = 0" "ws_rbuffer c = concat (map (\<lambda>l. l @ [CR, LF]) ls) @ text_bytes ''Sec-WebSocket-Key: '' @ k @ [CR, LF] @ r"
    and "\<forall>l \<in> set ls. l \<noteq> [] \<and> CR \<notin> set l \<and> 0 \<notin> set l \<and> strstr l (text_bytes ''Sec-WebSocket-Key'') = None"
    and "CR \<notin> set k" "0 \<notin> set k" "length k < 220"
    and "\<And>x. length (sha1 x) = 20" "\<And>x. length x = 20 \<Longrightarrow> length (base64 x) = 28"
  shows "\<exists>c1. ws_request sha1 base64 c = Inr c1 \<and> status c1 = 1
    \<and> take (nat (ws_wlength c1)) (ws_wbuffer c1) = ws_answer (base64 (sha1 (k @ GUID)))"
proof -
  let ?kl = "text_bytes ''Sec-WebSocket-Key: '' @ k"
  have z: "\<forall>b \<in> set (text_bytes ''Sec-WebSocket-Key: ''). b \<noteq> 0 \<and> b \<noteq> CR" by (simp add: text_bytes_def CR_def)
  have t: "c_bytes (ws_rbuffer c) = concat (map (\<lambda>l. l @ [CR, LF]) ls) @ ?kl @ CR # LF # c_bytes r"
    using c_bytes_lines [of ls ?kl r] assms(3,5) z by (auto simp: assms(2))
  have ne: "?kl \<noteq> []" by (simp add: text_bytes_def)
  have "handshark sha1 base64 c = answer_key sha1 base64 c ?kl"
    unfolding handshark_def by (rule handshark_lines [OF _ _ ne _ strstr_key_line]) (use t assms(3,4) z in auto)
  moreover have "answer_key sha1 base64 c ?kl = Inr (c\<lparr>ws_wbuffer := ws_answer (base64 (sha1 (k @ GUID)))
      @ replicate (WS_BUFFER_LENGTH - length (ws_answer (base64 (sha1 (k @ GUID))))) 0,
      ws_wlength := int (length (ws_answer (base64 (sha1 (k @ GUID)))))\<rparr>, 0)"
    by (rule answer_key_ok) (use assms in auto)
  ultimately show ?thesis using assms(1) by (simp add: ws_request_def)
qed

theorem ws_handshake_witness:
  "\<exists>c1. ws_request demo_sha1 demo_base64 (demo_ws 0 (text_bytes ''GET / HTTP/1.1'' @ [CR, LF]
      @ text_bytes ''Sec-WebSocket-Key: abc'' @ [CR, LF, CR, LF])) = Inr c1 \<and> status c1 = 1
    \<and> take (nat (ws_wlength c1)) (ws_wbuffer c1) = ws_answer (demo_base64 (demo_sha1 (text_bytes ''abc'' @ GUID)))"
proof (rule ws_handshake [where ls = "[text_bytes ''GET / HTTP/1.1'']" and r = "[CR, LF] @ replicate (WS_BUFFER_LENGTH - 42) 0"])
  show "\<forall>l \<in> set [text_bytes ''GET / HTTP/1.1'']. l \<noteq> [] \<and> CR \<notin> set l \<and> 0 \<notin> set l
    \<and> strstr l (text_bytes ''Sec-WebSocket-Key'') = None"
    by (simp add: text_bytes_def CR_def strstr.simps)
qed (simp_all add: demo_ws_def demo_sha1_def demo_base64_def text_bytes_def CR_def LF_def)

end
