(* ===== verification/Word_Count.thy ===== *)
theory Word_Count
  imports C_Prelude
begin

text \<open>
  The two word counters, \<^verbatim>\<open>src/00/01_countword/count.c\<close> and \<^verbatim>\<open>count_each_word.c\<close>. Whether the file opens and the
  text it holds are arguments; the counters are not bounded by the width of \<^verbatim>\<open>int\<close>, which a file of that many words would
  exceed. The reference is the list of the maximal pieces of the text whose characters belong to words.
\<close>

section \<open>Counting words\<close>

datatype wstatus = OUT | IN

text \<open>The first program reads into a \<^verbatim>\<open>char\<close>, which a byte 255 makes equal to \<^verbatim>\<open>EOF\<close>.\<close>

fun count_loop :: "wstatus \<Rightarrow> nat \<Rightarrow> string \<Rightarrow> nat" where
  "count_loop st word [] = word"
| "count_loop st word (c # cs) =
     (if c = CHR 0xFF then word
      else if c = CHR '' '' \<or> c = CHR 0x0A \<or> c = CHR 0x09 then count_loop OUT word cs
      else if st = OUT then count_loop IN (word + 1) cs
      else count_loop st word cs)"

definition count_word :: "bool \<Rightarrow> string \<Rightarrow> int" where
  "count_word opened contents = (if \<not> opened then -1 else int (count_loop OUT 0 contents))"

section \<open>Counting each word\<close>

definition MAX_WORD_LEN :: nat where "MAX_WORD_LEN = 24"
definition MAX_WORDS :: nat where "MAX_WORDS = 1024"

record word_entry =
  wword :: string
  wcount :: nat

fun find_word_from :: "nat \<Rightarrow> word_entry list \<Rightarrow> string \<Rightarrow> int" where
  "find_word_from i [] w = -1"
| "find_word_from i (e # es) w = (if strcmp_sign (wword e) w = 0 then int i else find_word_from (Suc i) es w)"

definition find_word :: "word_entry list \<Rightarrow> string \<Rightarrow> int" where
  "find_word dict w = find_word_from 0 dict w"

text \<open>The dictionary is an array of 1024 entries, the first \<^verbatim>\<open>dict_size\<close> of which are used.\<close>

definition add_word :: "word_entry list \<Rightarrow> string \<Rightarrow> word_entry list res" where
  "add_word dict w =
     (let idx = find_word dict w in
      if idx \<noteq> -1 then Inr (dict[nat idx := (dict ! nat idx)\<lparr>wcount := wcount (dict ! nat idx) + 1\<rparr>])
      else if length dict < MAX_WORDS then Inr (dict @ [\<lparr>wword = w, wcount = 1\<rparr>])
      else Inl OutOfBounds)"

definition isalpha :: "char \<Rightarrow> bool" where
  "isalpha c \<longleftrightarrow> (let n = of_char c :: nat in 65 \<le> n \<and> n \<le> 90 \<or> 97 \<le> n \<and> n \<le> 122)"

definition tolower :: "char \<Rightarrow> char" where
  "tolower c = (let n = of_char c :: nat in if 65 \<le> n \<and> n \<le> 90 then char_of (n + 32) else c)"

text \<open>The loop over the file with the word read so far; characters beyond the 23rd of a word are dropped.\<close>

fun each_loop :: "wstatus \<Rightarrow> string \<Rightarrow> word_entry list \<Rightarrow> string \<Rightarrow> word_entry list res" where
  "each_loop st w dict [] = (if st = IN \<and> w \<noteq> [] then add_word dict w else Inr dict)"
| "each_loop st w dict (c # cs) =
     (if isalpha c then each_loop IN (if length w < MAX_WORD_LEN - 1 then w @ [tolower c] else w) dict cs
      else if st = IN \<and> w \<noteq> [] then andthen (add_word dict w) (\<lambda>dict. each_loop OUT [] dict cs)
      else each_loop st w dict cs)"

definition count_each_word :: "bool \<Rightarrow> word_entry list \<Rightarrow> string \<Rightarrow> (word_entry list \<times> int) res" where
  "count_each_word opened dict contents =
     (if \<not> opened then Inr (dict, -1) else andthen (each_loop OUT [] dict contents) (\<lambda>dict. Inr (dict, 0)))"

section \<open>The reference\<close>

text \<open>The maximal pieces of a text with a property of characters.\<close>

function runs :: "(char \<Rightarrow> bool) \<Rightarrow> string \<Rightarrow> string list" where
  "runs P [] = []"
| "runs P (c # cs) = (if P c then (c # takeWhile P cs) # runs P (dropWhile P cs) else runs P cs)"
  by pat_completeness auto
termination
  by (relation "measure (\<lambda>(_, cs). length cs)") (auto simp: length_dropWhile_le le_imp_less_Suc)

text \<open>Characters of words for the first program, and the words of the second: lower case and cut to 23 characters.\<close>

definition word_char :: "char \<Rightarrow> bool" where
  "word_char c \<longleftrightarrow> c \<noteq> CHR '' '' \<and> c \<noteq> CHR 0x0A \<and> c \<noteq> CHR 0x09"

definition letter_words :: "string \<Rightarrow> string list" where
  "letter_words s = map (\<lambda>w. take (MAX_WORD_LEN - 1) (map tolower w)) (runs isalpha s)"

text \<open>The table of a list of words: each word once, in the order of its first occurrence, with its number.\<close>

definition firsts :: "string list \<Rightarrow> string list" where
  "firsts ws = rev (remdups (rev ws))"

definition table :: "string list \<Rightarrow> word_entry list" where
  "table ws = map (\<lambda>w. \<lparr>wword = w, wcount = count_list ws w\<rparr>) (firsts ws)"

lemma firsts_snoc: "firsts (ws @ [w]) = (if w \<in> set ws then firsts ws else firsts ws @ [w])"
  by (simp add: firsts_def)

lemma set_firsts [simp]: "set (firsts ws) = set ws" "distinct (firsts ws)"
  by (simp_all add: firsts_def)

section \<open>The counters are right\<close>

lemma count_loop_runs:
  assumes "CHR 0xFF \<notin> set s"
  shows "count_loop OUT n s = n + length (runs word_char s)"
    and "count_loop IN n s = n + length (runs word_char (dropWhile word_char s))"
  using assms by (induction s arbitrary: n) (auto simp: word_char_def)

lemma count_loop_eof: "count_loop st n (s @ CHR 0xFF # r) = count_loop st n s"
  by (induction s arbitrary: st n) auto

lemma find_word_from_none: "w \<notin> wword ` set es \<Longrightarrow> find_word_from i es w = -1"
  by (induction es arbitrary: i) auto

lemma find_word_from_some:
  "w \<in> wword ` set es \<Longrightarrow> \<exists>k < length es. find_word_from i es w = int (i + k) \<and> wword (es ! k) = w"
proof (induction es arbitrary: i)
  case (Cons e es)
  show ?case
  proof (cases "wword e = w")
    case False
    then obtain k where "k < length es" "find_word_from (Suc i) es w = int (Suc i + k)" "wword (es ! k) = w"
      using Cons by fastforce
    with False show ?thesis by (intro exI [of _ "Suc k"]) auto
  qed auto
qed simp

lemma add_word_table:
  assumes "length (firsts (ws @ [w])) \<le> MAX_WORDS"
  shows "add_word (table ws) w = Inr (table (ws @ [w]))"
proof (cases "w \<in> set ws")
  case True
  have d: "map wword (table ws) = firsts ws" by (simp add: table_def comp_def)
  then have "w \<in> wword ` set (table ws)" using True by (metis list.set_map set_firsts(1))
  then obtain k where k: "k < length (table ws)" "find_word (table ws) w = int k" "wword (table ws ! k) = w"
    using find_word_from_some [of w "table ws" 0] by (auto simp: find_word_def)
  have l: "length (table ws) = length (firsts ws)" by (simp add: table_def)
  have "(table ws)[k := (table ws ! k)\<lparr>wcount := wcount (table ws ! k) + 1\<rparr>] = table (ws @ [w])"
  proof (rule nth_equalityI)
    fix j assume "j < length ((table ws)[k := (table ws ! k)\<lparr>wcount := wcount (table ws ! k) + 1\<rparr>])"
    then have j: "j < length (firsts ws)" using l by simp
    have "firsts ws ! j = w \<longleftrightarrow> j = k"
      using k j l set_firsts(2) [of ws] by (auto simp: table_def nth_eq_iff_index_eq)
    then show "(table ws)[k := (table ws ! k)\<lparr>wcount := wcount (table ws ! k) + 1\<rparr>] ! j = table (ws @ [w]) ! j"
      using True j k l by (cases "j = k") (auto simp: table_def firsts_snoc)
  qed (simp add: table_def firsts_snoc True)
  then show ?thesis using k by (simp add: add_word_def)
next
  case False
  then have "w \<notin> wword ` set (table ws)" by (auto simp: table_def)
  then have "find_word (table ws) w = -1" by (simp add: find_word_def find_word_from_none)
  moreover have "length (table ws) < MAX_WORDS" using assms False by (simp add: table_def firsts_snoc)
  moreover have "table ws @ [\<lparr>wword = w, wcount = 1\<rparr>] = table (ws @ [w])"
    using False by (auto simp: table_def firsts_snoc)
  ultimately show ?thesis by (simp add: add_word_def)
qed

lemma add_word_full:
  assumes "MAX_WORDS < length (firsts (ws @ [w]))" "length (firsts ws) \<le> MAX_WORDS"
  shows "add_word (table ws) w = Inl OutOfBounds"
proof -
  have n: "w \<notin> set ws" using assms by (auto simp: firsts_snoc split: if_splits)
  then have "w \<notin> wword ` set (table ws)" by (auto simp: table_def)
  then have "find_word (table ws) w = -1" by (simp add: find_word_def find_word_from_none)
  with assms n show ?thesis by (simp add: add_word_def table_def firsts_snoc)
qed

lemma length_firsts: "length (firsts ws) = card (set ws)"
  using distinct_card [OF set_firsts(2), of ws] by simp

definition tabulated :: "string list \<Rightarrow> word_entry list res" where
  "tabulated ws = (if card (set ws) \<le> MAX_WORDS then Inr (table ws) else Inl OutOfBounds)"

lemma tabulated_step:
  assumes "card (set ws) \<le> MAX_WORDS" "\<And>ws'. card (set ws') \<le> MAX_WORDS \<Longrightarrow> f (table ws') = tabulated (ws' @ L)"
  shows "andthen (add_word (table ws) w) f = tabulated (ws @ w # L)"
proof (cases "card (set (ws @ [w])) \<le> MAX_WORDS")
  case True
  then have "add_word (table ws) w = Inr (table (ws @ [w]))" by (intro add_word_table) (simp add: length_firsts)
  with assms(2) [OF True] show ?thesis by simp
next
  case False
  then have "add_word (table ws) w = Inl OutOfBounds" using assms(1) by (intro add_word_full) (simp_all add: length_firsts)
  moreover have "card (set (ws @ [w])) \<le> card (set (ws @ w # L))" by (rule card_mono) auto
  ultimately show ?thesis using False by (simp add: tabulated_def)
qed

text \<open>The words that are still to come when a word \<open>w\<close> has been begun.\<close>

definition words_from :: "string \<Rightarrow> string \<Rightarrow> string list" where
  "words_from w s = (if w = [] then letter_words s
     else take (MAX_WORD_LEN - 1) (w @ map tolower (takeWhile isalpha s)) # letter_words (dropWhile isalpha s))"

lemma words_from_letter:
  assumes "isalpha c" "length w \<le> MAX_WORD_LEN - 1"
  shows "words_from (if length w < MAX_WORD_LEN - 1 then w @ [tolower c] else w) s = words_from w (c # s)"
  using assms by (auto simp: words_from_def letter_words_def MAX_WORD_LEN_def take_Cons')

lemma each_loop_words:
  assumes "card (set ws) \<le> MAX_WORDS" "length w \<le> MAX_WORD_LEN - 1" "st = IN \<longleftrightarrow> w \<noteq> []"
  shows "each_loop st w (table ws) s = tabulated (ws @ words_from w s)"
  using assms
proof (induction s arbitrary: st w ws)
  case Nil
  show ?case
  proof (cases "w = []")
    case True
    with Nil show ?thesis by (cases st) (simp_all add: words_from_def letter_words_def tabulated_def)
  next
    case False
    with Nil have "words_from w [] = [w]" "each_loop st w (table ws) [] = andthen (add_word (table ws) w) Inr"
      by (auto simp: words_from_def letter_words_def andthen_def split: sum.split)
    with tabulated_step [OF Nil.prems(1), of Inr "[]" w] show ?thesis by (simp add: tabulated_def)
  qed
next
  case (Cons c s)
  show ?case
  proof (cases "isalpha c")
    case True
    let ?w = "if length w < MAX_WORD_LEN - 1 then w @ [tolower c] else w"
    have "each_loop IN ?w (table ws) s = tabulated (ws @ words_from ?w s)"
      by (rule Cons.IH) (use Cons.prems in \<open>auto simp: MAX_WORD_LEN_def\<close>)
    with True Cons.prems words_from_letter [OF True Cons.prems(2), of s] show ?thesis by simp
  next
    case False
    show ?thesis
    proof (cases "w = []")
      case True
      with False Cons show ?thesis by (auto simp: words_from_def letter_words_def)
    next
      case w: False
      have "each_loop OUT [] (table ws') s = tabulated (ws' @ letter_words s)" if "card (set ws') \<le> MAX_WORDS" for ws'
        using Cons.IH [OF that, of "[]" OUT] by (simp add: words_from_def)
      from tabulated_step [OF Cons.prems(1) this, of w] w False Cons.prems show ?thesis
        by (simp add: words_from_def letter_words_def)
    qed
  qed
qed

lemma takeWhile_absent: "x \<notin> set s \<Longrightarrow> takeWhile (\<lambda>c. c \<noteq> x) s = s"
  by (induction s) auto

section \<open>Properties\<close>


end
