(* ===== verification/Dns.thy ===== *)
theory Dns
  imports C_Words
begin

text \<open>
  The resolver \<^verbatim>\<open>src/00/06_dns/dns.c\<close>: how a query is built. The header has 16 bit fields, stored in the byte order of the
  machine; the name is written label by label into memory that is one length byte and one terminator longer than the host
  name. The random identifier and what fresh memory contains are arguments. The reference is the decoding of names of
  RFC 1035.
\<close>

section \<open>Building a query\<close>

record dns_header =
  dns_id :: "16 word"
  flags :: "16 word"
  questions :: "16 word"
  answer_count :: "16 word"
  authority :: "16 word"
  additional :: "16 word"

record dns_question =
  qlength :: nat
  qtype :: "16 word"
  qclass :: "16 word"
  qname :: bytes

definition dns_create_header :: "16 word \<Rightarrow> dns_header" where
  "dns_create_header rnd = \<lparr>dns_id = rnd, flags = htons 0x0100, questions = htons 1, answer_count = 0, authority = 0, additional = 0\<rparr>"

text \<open>\<^verbatim>\<open>strtok\<close> with the delimiter \<^verbatim>\<open>"."\<close>: the next piece without a dot, and what is left behind it.\<close>

definition strtok_dot :: "string \<Rightarrow> (string \<times> string) option" where
  "strtok_dot s =
     (let s' = dropWhile (\<lambda>c. c = CHR ''.'') s
      in if s' = [] then None
         else Some (takeWhile (\<lambda>c. c \<noteq> CHR ''.'') s', drop 1 (dropWhile (\<lambda>c. c \<noteq> CHR ''.'') s')))"

lemma strtok_dot_length: "strtok_dot s = Some (w, r) \<Longrightarrow> length r < length s"
proof -
  assume a: "strtok_dot s = Some (w, r)"
  let ?s = "dropWhile (\<lambda>c. c = CHR ''.'') s"
  have s: "?s \<noteq> []" "r = drop 1 (dropWhile (\<lambda>c. c \<noteq> CHR ''.'') ?s)" using a by (auto simp: strtok_dot_def Let_def split: if_splits)
  have "hd ?s \<noteq> CHR ''.''" using hd_dropWhile [OF s(1)] .
  then obtain c cs where "?s = c # cs" "c \<noteq> CHR ''.''" using s(1) by (cases ?s) auto
  then have "length r < length ?s" using s(2) length_dropWhile_le [of "\<lambda>c. c \<noteq> CHR ''.''" cs] by simp
  then show ?thesis using length_dropWhile_le [of "\<lambda>c. c = CHR ''.''" s] by simp
qed

text \<open>The loop over the labels: length byte, label and the terminator that the next label overwrites.\<close>

function label_loop :: "bytes \<Rightarrow> nat \<Rightarrow> string \<Rightarrow> bytes res" where
  "label_loop buf pos s =
     (case strtok_dot s of
        None \<Rightarrow> Inr buf
      | Some (token, rest) \<Rightarrow>
          andthen (write_at pos (of_nat (length token) # text_bytes token @ [0]) buf) (\<lambda>buf.
            label_loop buf (pos + 1 + length token) rest))"
  by pat_completeness auto
termination
  by (relation "measure (\<lambda>(_, _, s). length s)") (auto dest: strtok_dot_length)

declare label_loop.simps [simp del]

text \<open>\<open>None\<close> if there is no memory for the name, in which case the code returns -2.\<close>

definition dns_create_question :: "bool \<Rightarrow> (nat \<Rightarrow> byte) \<Rightarrow> string \<Rightarrow> dns_question option res" where
  "dns_create_question ok junk hostname =
     (if \<not> ok then Inr None
      else andthen (label_loop (map junk [0..<length hostname + 2]) 0 hostname) (\<lambda>name.
        Inr (Some \<lparr>qlength = length hostname + 2, qtype = htons 1, qclass = htons 1, qname = name\<rparr>)))"

definition header_bytes :: "dns_header \<Rightarrow> bytes" where
  "header_bytes h = raw16 (dns_id h) @ raw16 (flags h) @ raw16 (questions h) @ raw16 (answer_count h) @ raw16 (authority h)
     @ raw16 (additional h)"

text \<open>The query in a buffer of \<open>rlen\<close> bytes, and its length.\<close>

definition dns_build_requestion :: "dns_header \<Rightarrow> dns_question \<Rightarrow> nat \<Rightarrow> (bytes \<times> int) res" where
  "dns_build_requestion header question rlen =
     andthen (write_at 0 (header_bytes header) (replicate rlen 0)) (\<lambda>request.
     andthen (write_at 12 (take (qlength question) (qname question)) request) (\<lambda>request.
     andthen (write_at (12 + qlength question) (raw16 (qtype question)) request) (\<lambda>request.
     andthen (write_at (12 + qlength question + 2) (raw16 (qclass question)) request) (\<lambda>request.
       Inr (request, int (12 + qlength question + 2 + 2))))))"

text \<open>
  What the client sends for a domain. The value of \<^verbatim>\<open>dns_create_question\<close> is ignored; without memory for the name the
  code copies from NULL only if the length is not zero, which it is then.
\<close>

definition dns_query :: "bool \<Rightarrow> (nat \<Rightarrow> byte) \<Rightarrow> 16 word \<Rightarrow> string \<Rightarrow> (bytes \<times> int) res" where
  "dns_query ok junk rnd domain =
     andthen (dns_create_question ok junk domain) (\<lambda>q.
       dns_build_requestion (dns_create_header rnd)
         (case q of Some q \<Rightarrow> q | None \<Rightarrow> \<lparr>qlength = 0, qtype = 0, qclass = 0, qname = []\<rparr>) 1024)"

section \<open>The reference\<close>

text \<open>Names as RFC 1035 encodes them: labels of 1 to 63 bytes with their length in front, ended by a zero.\<close>

function name_labels :: "bytes \<Rightarrow> (bytes list \<times> bytes) option" where
  "name_labels [] = None"
| "name_labels (n # r) =
     (if n = 0 then Some ([], r)
      else if 63 < unat n \<or> length r < unat n then None
      else case name_labels (drop (unat n) r) of
        None \<Rightarrow> None
      | Some (ls, r') \<Rightarrow> Some (take (unat n) r # ls, r'))"
  by pat_completeness auto
termination
  by (relation "measure length") auto

fun dotted :: "string list \<Rightarrow> string" where
  "dotted [] = []"
| "dotted [l] = l"
| "dotted (l # ls) = l @ CHR ''.'' # dotted ls"

definition label_ok :: "string \<Rightarrow> bool" where
  "label_ok l \<longleftrightarrow> l \<noteq> [] \<and> length l \<le> 63 \<and> CHR ''.'' \<notin> set l"

definition encoded :: "string list \<Rightarrow> bytes" where
  "encoded ls = concat (map (\<lambda>l. of_nat (length l) # text_bytes l) ls)"

section \<open>Queries are right\<close>

lemma length_text_bytes [simp]: "length (text_bytes s) = length s"
  by (simp add: text_bytes_def)

lemma name_labels_encoded:
  "\<forall>l \<in> set ls. label_ok l \<Longrightarrow> name_labels (encoded ls @ 0 # r) = Some (map text_bytes ls, r)"
proof (induction ls)
  case (Cons l ls)
  have l: "0 < length l" "length l \<le> 63" using Cons.prems by (auto simp: label_ok_def)
  have u: "unat (of_nat (length l) :: byte) = length l" using l by (simp add: unat_of_nat)
  then have n: "(of_nat (length l) :: byte) \<noteq> 0" using l(1) by (metis less_numeral_extra(3) unat_0)
  have e: "encoded (l # ls) @ 0 # r = of_nat (length l) # text_bytes l @ encoded ls @ 0 # r" by (simp add: encoded_def)
  show ?case unfolding e using Cons l(2) u n by simp
qed (simp add: encoded_def)

lemma strtok_dot_label:
  assumes "l \<noteq> []" "CHR ''.'' \<notin> set l"
  shows "strtok_dot l = Some (l, [])" "strtok_dot (l @ CHR ''.'' # r) = Some (l, r)"
proof -
  have tw: "takeWhile (\<lambda>c. c \<noteq> CHR ''.'') l = l" "dropWhile (\<lambda>c. c \<noteq> CHR ''.'') l = []"
    "takeWhile (\<lambda>c. c \<noteq> CHR ''.'') (l @ CHR ''.'' # r) = l" "dropWhile (\<lambda>c. c \<noteq> CHR ''.'') (l @ CHR ''.'' # r) = CHR ''.'' # r"
    using assms(2) by (induction l) auto
  obtain c cs where "l = c # cs" "c \<noteq> CHR ''.''" using assms by (cases l) auto
  then have dd: "dropWhile (\<lambda>c. c = CHR ''.'') l = l" "dropWhile (\<lambda>c. c = CHR ''.'') (l @ s) = l @ s" for s
    by simp_all
  show "strtok_dot l = Some (l, [])" "strtok_dot (l @ CHR ''.'' # r) = Some (l, r)"
    unfolding strtok_dot_def Let_def dd tw using assms(1) by simp_all
qed

lemma length_encoded: "ls \<noteq> [] \<Longrightarrow> length (encoded ls) = length (dotted ls) + 1"
  by (induction ls rule: dotted.induct) (auto simp: encoded_def)

lemma label_loop_dotted:
  assumes "ls \<noteq> []" "\<forall>l \<in> set ls. label_ok l" "length buf = pos + length (dotted ls) + 2"
  shows "label_loop buf pos (dotted ls) = Inr (take pos buf @ encoded ls @ [0])"
  using assms
proof (induction ls arbitrary: buf pos rule: dotted.induct)
  case (2 l)
  have s: "strtok_dot l = Some (l, [])" using 2 by (intro strtok_dot_label) (auto simp: label_ok_def)
  have e: "label_loop b p [] = Inr b" for b p by (subst label_loop.simps) (simp add: strtok_dot_def)
  show ?case using 2(3) s e by (subst label_loop.simps) (simp add: write_at_def encoded_def)
next
  case (3 l k ls)
  let ?b = "take pos buf @ (of_nat (length l) # text_bytes l @ [0]) @ drop (pos + (length l + 2)) buf"
  have s: "strtok_dot (l @ CHR ''.'' # dotted (k # ls)) = Some (l, dotted (k # ls))"
    by (rule strtok_dot_label) (use 3(3) in \<open>auto simp: label_ok_def\<close>)
  have len: "length buf = pos + length l + length (dotted (k # ls)) + 3" using 3(4) by simp
  have "write_at pos (of_nat (length l) # text_bytes l @ [0]) buf = Inr ?b" using len by (simp add: write_at_def)
  moreover have "take (pos + 1 + length l) ?b = take pos buf @ of_nat (length l) # text_bytes l" using len by simp
  moreover have "label_loop ?b (pos + 1 + length l) (dotted (k # ls)) = Inr (take (pos + 1 + length l) ?b @ encoded (k # ls) @ [0])"
    by (rule 3(1)) (use 3(3) len in auto)
  ultimately show ?case by (subst label_loop.simps) (simp add: s encoded_def)
qed simp

lemma write_at_zeros:
  "length a = i \<Longrightarrow> length bs \<le> n \<Longrightarrow> write_at i bs (a @ replicate n 0) = Inr ((a @ bs) @ replicate (n - length bs) 0)"
  by (simp add: write_at_def)

section \<open>Properties\<close>

text \<open>
  C19: for a host name of labels of 1 to 63 characters, short enough for the buffer, the query the client sends is the
  header with the random identifier, recursion desired and one question, the name in the encoding of RFC 1035, whose
  decoding gives the labels back, and type and class 1 in network order; its length is right and nothing of the memory's
  former content is sent.
\<close>

theorem dns_query_roundtrip:
  assumes "ls \<noteq> []" "\<forall>l \<in> set ls. label_ok l" "length (dotted ls) \<le> 1000"
  shows "\<exists>request. dns_query True junk rnd (dotted ls) = Inr (request, int (length (dotted ls)) + 18)
    \<and> take 12 request = raw16 rnd @ [1, 0, 0, 1, 0, 0, 0, 0, 0, 0]
    \<and> name_labels (take (length (dotted ls) + 6) (drop 12 request)) = Some (map text_bytes ls, [0, 1, 0, 1])"
proof -
  let ?n = "length (dotted ls)" and ?e = "encoded ls @ [0]"
  have le: "length ?e = ?n + 2" using length_encoded [OF assms(1)] by simp
  have h16: "raw16 (htons 1) = [0, 1]" "raw16 (htons 0x0100) = [1, 0]" "raw16 0 = [0, 0]"
    by (simp_all add: htons_def raw16_def get16_def)
  have q: "dns_create_question True junk (dotted ls) = Inr (Some \<lparr>qlength = ?n + 2, qtype = htons 1, qclass = htons 1, qname = ?e\<rparr>)"
    using label_loop_dotted [OF assms(1,2), of "map junk [0..<?n + 2]" 0] by (simp add: dns_create_question_def del: upt_Suc)
  let ?h = "raw16 rnd @ [1, 0, 0, 1, 0, 0, 0, 0, 0, 0]"
  let ?r = "?h @ ?e @ [0, 1, 0, 1] @ replicate (1024 - (?n + 18)) 0"
  have hb: "header_bytes (dns_create_header rnd) = ?h" by (simp add: header_bytes_def dns_create_header_def h16)
  have "dns_query True junk rnd (dotted ls) = Inr (?r, int ?n + 18)"
  proof -
    have "write_at 0 ?h (replicate 1024 0) = Inr (?h @ replicate 1012 0)" using write_at_zeros [of "[]" 0 ?h 1024] by simp
    moreover have "write_at 12 ?e (?h @ replicate 1012 0) = Inr ((?h @ ?e) @ replicate (1012 - (?n + 2)) 0)"
      using write_at_zeros [of ?h 12 ?e 1012] le assms(3) by simp
    moreover have "write_at (12 + (?n + 2)) [0, 1] ((?h @ ?e) @ replicate (1012 - (?n + 2)) 0)
        = Inr ((?h @ ?e @ [0, 1]) @ replicate (1010 - (?n + 2)) 0)"
      using write_at_zeros [of "?h @ ?e" "12 + (?n + 2)" "[0, 1]" "1012 - (?n + 2)"] le assms(3) by simp
    moreover have "write_at (12 + (?n + 2) + 2) [0, 1] ((?h @ ?e @ [0, 1]) @ replicate (1010 - (?n + 2)) 0)
        = Inr ((?h @ ?e @ [0, 1, 0, 1]) @ replicate (1024 - (?n + 18)) 0)"
      using write_at_zeros [of "?h @ ?e @ [0, 1]" "12 + (?n + 2) + 2" "[0, 1]" "1010 - (?n + 2)"] le assms(3) by simp
    ultimately show ?thesis using le by (simp only: dns_query_def dns_build_requestion_def q hb h16 andthen_simps option.case
      dns_question.simps take_all_iff [THEN iffD2] order_refl) (simp add: take_all)
  qed
  moreover have "take 12 ?r = ?h" by simp
  moreover have "take (?n + 6) (drop 12 ?r) = encoded ls @ 0 # [0, 1, 0, 1]" using le by simp
  moreover have "name_labels (encoded ls @ 0 # [0, 1, 0, 1]) = Some (map text_bytes ls, [0, 1, 0, 1])"
    by (rule name_labels_encoded [OF assms(2)])
  ultimately show ?thesis by (intro exI [of _ ?r]) simp
qed

theorem dns_query_roundtrip_witness:
  "\<exists>request. dns_query True (\<lambda>_. 7) 5 ''www.qq.com'' = Inr (request, 28)
    \<and> name_labels (take 16 (drop 12 request)) = Some (map text_bytes [''www'', ''qq'', ''com''], [0, 1, 0, 1])"
  using dns_query_roundtrip [of "[''www'', ''qq'', ''com'']" "\<lambda>_. 7" 5] by (auto simp: label_ok_def)

end
