(* ===== verification/Dns_Async.thy ===== *)
theory Dns_Async
  imports C_Prelude
begin

text \<open>
  The resolver with threads, \<^verbatim>\<open>src/00/06_dns/dns_async.c\<close>: the main thread keeps a list of tasks, a thread for each task
  makes the query and stores its result in the task, and the main thread takes finished tasks from the list and frees
  them. Only the main thread changes the list, so the mutex is never contended. A thread writes the status and then reads the
  task once more to report it: these are two steps, between which the main thread may run. How the query is built is in the
  theory \<open>Dns\<close>; the result of the query is an argument.
\<close>

section \<open>State\<close>

record dns_task =
  domain :: string
  response_len :: int
  task_status :: int

datatype phase = Querying | Reporting | Finished

text \<open>The list is one of addresses; \<open>tasks\<close> is the memory, without the tasks that were freed.\<close>

record dns_async =
  g_task_list :: "nat list"
  tasks :: "nat \<Rightarrow> dns_task option"
  threads :: "nat \<Rightarrow> phase option"
  next_task :: nat

section \<open>Threads\<close>

text \<open>\<open>None\<close> if no socket could be created, else the value of \<^verbatim>\<open>recvfrom\<close>.\<close>

definition dns_thread_work :: "dns_async \<Rightarrow> nat \<Rightarrow> int option \<Rightarrow> dns_async res" where
  "dns_thread_work S p r =
     (case tasks S p of
        None \<Rightarrow> Inl Segv
      | Some t \<Rightarrow> Inr (case r of
          None \<Rightarrow> S\<lparr>tasks := (tasks S)(p \<mapsto> t\<lparr>task_status := -1\<rparr>), threads := (threads S)(p \<mapsto> Finished)\<rparr>
        | Some n \<Rightarrow>
            if n > 0 then S\<lparr>tasks := (tasks S)(p \<mapsto> t\<lparr>response_len := n, task_status := 1\<rparr>), threads := (threads S)(p \<mapsto> Reporting)\<rparr>
            else S\<lparr>tasks := (tasks S)(p \<mapsto> t\<lparr>task_status := -1\<rparr>), threads := (threads S)(p \<mapsto> Reporting)\<rparr>))"

definition dns_thread_report :: "dns_async \<Rightarrow> nat \<Rightarrow> dns_async res" where
  "dns_thread_report S p =
     (case tasks S p of None \<Rightarrow> Inl Segv | Some t \<Rightarrow> Inr (S\<lparr>threads := (threads S)(p \<mapsto> Finished)\<rparr>))"

section \<open>The main thread\<close>

text \<open>Whether there is memory and whether the thread starts are arguments; the name is cut to the 255 characters that fit.\<close>

definition dns_add_task :: "bool \<Rightarrow> bool \<Rightarrow> dns_async \<Rightarrow> string \<Rightarrow> dns_async \<times> int" where
  "dns_add_task ok started S host =
     (if \<not> ok then (S, -1)
      else if \<not> started then (S, -1)
      else let p = next_task S in
        (S\<lparr>tasks := (tasks S)(p \<mapsto> \<lparr>domain = take 255 host, response_len = 0, task_status = 0\<rparr>), threads := (threads S)(p \<mapsto> Querying),
           next_task := Suc p, g_task_list := p # g_task_list S\<rparr>, 0))"

text \<open>The walk of \<^verbatim>\<open>dns_find_completed_task\<close>: the list without the task that is found, and that task.\<close>

fun find_completed :: "dns_async \<Rightarrow> nat list \<Rightarrow> (nat list \<times> nat option) res" where
  "find_completed S [] = Inr ([], None)"
| "find_completed S (p # ps) =
     (case tasks S p of
        None \<Rightarrow> Inl Segv
      | Some t \<Rightarrow> if task_status t \<noteq> 0 then Inr (ps, Some p)
          else andthen (find_completed S ps) (\<lambda>(ps, r). Inr (p # ps, r)))"

definition dns_find_completed_task :: "dns_async \<Rightarrow> (dns_async \<times> nat option) res" where
  "dns_find_completed_task S = andthen (find_completed S (g_task_list S)) (\<lambda>(l, r). Inr (S\<lparr>g_task_list := l\<rparr>, r))"

text \<open>One pass of \<^verbatim>\<open>dns_wait_all\<close>: whether a task is still active.\<close>

fun has_active :: "dns_async \<Rightarrow> nat list \<Rightarrow> bool res" where
  "has_active S [] = Inr False"
| "has_active S (p # ps) =
     (case tasks S p of None \<Rightarrow> Inl Segv | Some t \<Rightarrow> if task_status t = 0 then Inr True else has_active S ps)"

lemma find_completed_shorter: "find_completed S ps = Inr (l, Some p) \<Longrightarrow> length l < length ps"
proof (induction ps arbitrary: l)
  case (Cons q ps)
  then show ?case by (fastforce simp: andthen_eq_Inr split: option.splits if_splits prod.splits)
qed simp

text \<open>The loop at the end of \<^verbatim>\<open>main\<close>: take a finished task, report it, free it.\<close>

function collect :: "dns_async \<Rightarrow> (dns_async \<times> dns_task list) res" where
  "collect S =
     (case dns_find_completed_task S of
        Inl e \<Rightarrow> Inl e
      | Inr (S', None) \<Rightarrow> Inr (S', [])
      | Inr (S', Some p) \<Rightarrow>
          (case tasks S' p of
             None \<Rightarrow> Inl Segv
           | Some t \<Rightarrow> andthen (collect (S'\<lparr>tasks := (tasks S')(p := None)\<rparr>)) (\<lambda>(S'', ts). Inr (S'', t # ts))))"
  by pat_completeness auto
termination
  by (relation "measure (\<lambda>S. length (g_task_list S))")
    (auto simp: dns_find_completed_task_def andthen_eq_Inr dest: find_completed_shorter)

declare collect.simps [simp del]

section \<open>Runs\<close>

definition async_start :: dns_async where
  "async_start = \<lparr>g_task_list = [], tasks = Map.empty, threads = Map.empty, next_task = 1\<rparr>"

inductive async_reach :: "dns_async \<Rightarrow> bool" where
  start: "async_reach async_start"
| add: "async_reach S \<Longrightarrow> dns_add_task ok started S host = (S', r) \<Longrightarrow> async_reach S'"
| work: "async_reach S \<Longrightarrow> threads S p = Some Querying \<Longrightarrow> dns_thread_work S p n = Inr S' \<Longrightarrow> async_reach S'"
| report: "async_reach S \<Longrightarrow> threads S p = Some Reporting \<Longrightarrow> dns_thread_report S p = Inr S' \<Longrightarrow> async_reach S'"

definition is_done :: "dns_async \<Rightarrow> nat \<Rightarrow> bool" where
  "is_done S p \<longleftrightarrow> (case tasks S p of None \<Rightarrow> False | Some t \<Rightarrow> task_status t \<noteq> 0)"

definition async_ok :: "dns_async \<Rightarrow> bool" where
  "async_ok S \<longleftrightarrow> distinct (g_task_list S) \<and> (\<forall>p \<in> set (g_task_list S). p < next_task S)
     \<and> (\<forall>p. p \<in> set (g_task_list S) \<longleftrightarrow> tasks S p \<noteq> None) \<and> (\<forall>p. threads S p = None \<longleftrightarrow> tasks S p = None)
     \<and> (\<forall>p t. tasks S p = Some t \<longrightarrow> (task_status t = 0 \<longleftrightarrow> threads S p = Some Querying))"

lemma async_reach_ok: "async_reach S \<Longrightarrow> async_ok S"
proof (induction rule: async_reach.induct)
  case start
  then show ?case by (simp add: async_start_def async_ok_def)
next
  case (add S ok started host S' r)
  then have "tasks S (next_task S) = None" "next_task S \<notin> set (g_task_list S)" by (auto simp: async_ok_def)
  with add show ?case by (auto simp: dns_add_task_def async_ok_def Let_def less_Suc_eq split: if_splits)
next
  case (work S p n S')
  then show ?case by (auto simp: dns_thread_work_def async_ok_def split: option.splits if_splits)
next
  case (report S p S')
  then show ?case by (auto simp: dns_thread_report_def async_ok_def split: option.splits if_splits)
qed

lemma find_completed_first:
  assumes "\<forall>u \<in> set us. u \<in> dom (tasks S) \<and> \<not> is_done S u" "is_done S p"
  shows "find_completed S (us @ p # vs) = Inr (us @ vs, Some p)"
  using assms by (induction us) (auto simp: is_done_def split: option.splits)

lemma find_completed_none:
  assumes "\<forall>u \<in> set ps. u \<in> dom (tasks S) \<and> \<not> is_done S u"
  shows "find_completed S ps = Inr (ps, None)"
  using assms by (induction ps) (auto simp: is_done_def)

lemma collect_spec:
  assumes "distinct (g_task_list S)" "set (g_task_list S) \<subseteq> dom (tasks S)"
  shows "collect S = Inr (S\<lparr>g_task_list := filter (\<lambda>p. \<not> is_done S p) (g_task_list S),
      tasks := (\<lambda>p. if p \<in> set (g_task_list S) \<and> is_done S p then None else tasks S p)\<rparr>,
    map (\<lambda>p. the (tasks S p)) (filter (is_done S) (g_task_list S)))"
  using assms
proof (induction "length (g_task_list S)" arbitrary: S rule: less_induct)
  case less
  show ?case
  proof (cases "\<exists>p \<in> set (g_task_list S). is_done S p")
    case False
    then have f: "filter (is_done S) (g_task_list S) = []" "filter (\<lambda>p. \<not> is_done S p) (g_task_list S) = g_task_list S"
      by (simp_all add: filter_empty_conv filter_id_conv)
    have "find_completed S (g_task_list S) = Inr (g_task_list S, None)"
      by (rule find_completed_none) (use False less.prems in auto)
    moreover have "(\<lambda>p. if p \<in> set (g_task_list S) \<and> is_done S p then None else tasks S p) = tasks S" using False by (auto simp: fun_eq_iff)
    ultimately show ?thesis using f by (subst collect.simps) (simp add: dns_find_completed_task_def)
  next
    case True
    then obtain us p vs where l: "g_task_list S = us @ p # vs" "is_done S p" "\<forall>u \<in> set us. \<not> is_done S u"
      using split_list_first_prop [of "g_task_list S" "is_done S"] by blast
    let ?S = "S\<lparr>g_task_list := us @ vs, tasks := (tasks S)(p := None)\<rparr>"
    have d: "distinct (us @ vs)" "p \<notin> set (us @ vs)" using less.prems(1) l(1) by auto
    have same: "is_done ?S q = is_done S q" if "q \<noteq> p" for q using that by (simp add: is_done_def)
    have eq: "is_done ?S q = is_done S q" if "q \<in> set (us @ vs)" for q using that same [of q] d(2) by blast
    have fl: "filter (is_done ?S) (us @ vs) = filter (is_done S) (us @ vs)"
      "filter (\<lambda>q. \<not> is_done ?S q) (us @ vs) = filter (\<lambda>q. \<not> is_done S q) (us @ vs)"
      by (simp_all only: filter_cong [OF refl eq] filter_cong [OF refl eq [THEN arg_cong [where f = Not]]])
    have g: "g_task_list ?S = us @ vs" by simp
    have freed: "(\<lambda>q. if q \<in> set (us @ vs) \<and> is_done ?S q then None else tasks ?S q)
      = (\<lambda>q. if q \<in> set (g_task_list S) \<and> is_done S q then None else tasks S q)"
      using l same by (auto simp: fun_eq_iff)
    have kept: "map (\<lambda>p. the (tasks ?S p)) (filter (is_done S) (us @ vs)) = map (\<lambda>p. the (tasks S p)) (filter (is_done S) (us @ vs))"
      using d(2) by auto
    have len: "length (g_task_list ?S) < length (g_task_list S)" "distinct (g_task_list ?S)" "set (g_task_list ?S) \<subseteq> dom (tasks ?S)"
      using less.prems d l by auto
    note rest = less.hyps [OF len, unfolded g fl freed kept]
    have "find_completed S (g_task_list S) = Inr (us @ vs, Some p)"
      unfolding l(1) by (rule find_completed_first) (use l less.prems in auto)
    moreover obtain t where t: "tasks S p = Some t" using l(2) by (auto simp: is_done_def split: option.splits)
    ultimately have "collect S = andthen (collect ?S) (\<lambda>(S'', ts). Inr (S'', t # ts))"
      by (subst collect.simps) (simp add: dns_find_completed_task_def)
    moreover have "filter (is_done S) us = []" using l(3) by (simp add: filter_empty_conv)
    ultimately show ?thesis using l(2) t unfolding rest by (simp add: l(1))
  qed
qed

section \<open>Properties\<close>

text \<open>
  C40: whatever the threads have done, the loop at the end of the program hands out every finished task exactly once, in the
  order of the list, leaves the others in the list and frees the ones it handed out. A thread that has stored its result but not
  yet reported it then reads freed memory.
\<close>

theorem dns_async_collect:
  assumes "async_reach S"
  shows "\<exists>S'. collect S = Inr (S', map (\<lambda>p. the (tasks S p)) (filter (is_done S) (g_task_list S)))
    \<and> g_task_list S' = filter (\<lambda>p. \<not> is_done S p) (g_task_list S)
    \<and> (\<forall>p. threads S p = Some Querying \<longrightarrow> p \<in> set (g_task_list S') \<and> tasks S' p = tasks S p)
    \<and> (\<forall>p. threads S p = Some Reporting \<longrightarrow> dns_thread_report S' p = Inl Segv)"
proof -
  have ok: "async_ok S" by (rule async_reach_ok [OF assms])
  then have "distinct (g_task_list S)" "set (g_task_list S) \<subseteq> dom (tasks S)" by (auto simp: async_ok_def)
  note c = collect_spec [OF this]
  have q: "p \<in> set (g_task_list S) \<and> (is_done S p \<longleftrightarrow> threads S p \<noteq> Some Querying)" if "threads S p \<noteq> None" for p
  proof -
    have "tasks S p \<noteq> None" using ok that by (simp add: async_ok_def)
    then obtain t where t: "tasks S p = Some t" by auto
    then have "p \<in> set (g_task_list S)" "task_status t = 0 \<longleftrightarrow> threads S p = Some Querying"
      using ok by (simp_all add: async_ok_def)
    with t show ?thesis by (simp add: is_done_def)
  qed
  show ?thesis unfolding c using q by (auto simp: dns_thread_report_def)
qed

theorem dns_async_collect_witness:
  "\<exists>S S'. async_reach S \<and> threads S 1 = Some Reporting \<and> collect S = Inr (S', [\<lparr>domain = ''a.b'', response_len = 40, task_status = 1\<rparr>])
    \<and> dns_thread_report S' 1 = Inl Segv"
proof -
  define S where "S = \<lparr>g_task_list = [1], tasks = [1 \<mapsto> \<lparr>domain = ''a.b'', response_len = 40, task_status = 1\<rparr>],
    threads = [1 \<mapsto> Reporting], next_task = 2\<rparr>"
  have "async_reach (fst (dns_add_task True True async_start ''a.b''))"
    by (rule async_reach.add [OF async_reach.start, where ok = True and started = True and host = "''a.b''" and r = 0]) (simp add: dns_add_task_def Let_def)
  then have "async_reach S"
    by (rule async_reach.work [where p = 1 and n = "Some 40"])
      (simp_all add: dns_add_task_def async_start_def dns_thread_work_def S_def)
  moreover have "threads S 1 = Some Reporting" "filter (is_done S) (g_task_list S) = [1]"
    "the (tasks S 1) = \<lparr>domain = ''a.b'', response_len = 40, task_status = 1\<rparr>"
    by (simp_all add: S_def is_done_def)
  ultimately show ?thesis using dns_async_collect [of S] by fastforce
qed

end
