(* ===== verification/Threadpool.thy ===== *)
theory Threadpool
  imports C_Prelude "HOL-Library.Multiset"
begin

text \<open>
  The thread pool \<^verbatim>\<open>src/00/04_threadpool/Threadpool.c\<close>: workers that wait for tasks under a mutex and a condition
  variable. A step is what a thread does between two points at which another may intervene: taking the mutex, the test of the list with
  everything up to the release of the mutex, running a task, freeing the worker. The list of tasks is changed at its head
  only, so that its \<^verbatim>\<open>previous\<close> pointers, which \<^verbatim>\<open>LIST_INSERT\<close> leaves NULL, are never followed; it is a list, head first. What
  was pushed and what was run is recorded and not part of the program.
\<close>

section \<open>State\<close>

datatype 't wphase = Lock | Test | Wait | Run 't | Exit

record 't nWorker =
  terminate :: bool
  wphase :: "'t wphase"

text \<open>\<open>wmem\<close> are the workers in memory, without the ones that were freed; \<open>pmutex\<close> is the thread that holds the mutex.\<close>

record 't nManager =
  ptasks :: "'t list"
  pworkers :: "nat list"
  pmutex :: "nat option"
  wmem :: "nat \<Rightarrow> 't nWorker option"
  pushed :: "'t list"
  ran :: "'t list"

definition set_worker :: "'t nManager \<Rightarrow> nat \<Rightarrow> 't nWorker \<Rightarrow> 't nManager" where
  "set_worker P w k = P\<lparr>wmem := (wmem P)(w \<mapsto> k)\<rparr>"

section \<open>Workers\<close>

text \<open>One step of a worker; \<open>None\<close> if it cannot go on now.\<close>

definition nThreadPoolCallback :: "'t nManager \<Rightarrow> nat \<Rightarrow> 't nManager option" where
  "nThreadPoolCallback P w =
     (case wmem P w of
        None \<Rightarrow> None
      | Some k \<Rightarrow>
          (case wphase k of
             Lock \<Rightarrow> if pmutex P = None then Some ((set_worker P w (k\<lparr>wphase := Test\<rparr>))\<lparr>pmutex := Some w\<rparr>) else None
           | Test \<Rightarrow>
               if terminate k then Some ((set_worker P w (k\<lparr>wphase := Exit\<rparr>))\<lparr>pmutex := None\<rparr>)
               else (case ptasks P of
                   [] \<Rightarrow> Some ((set_worker P w (k\<lparr>wphase := Wait\<rparr>))\<lparr>pmutex := None\<rparr>)
                 | t # ts \<Rightarrow> Some ((set_worker P w (k\<lparr>wphase := Run t\<rparr>))\<lparr>pmutex := None, ptasks := ts\<rparr>))
           | Wait \<Rightarrow> None
           | Run t \<Rightarrow> Some ((set_worker P w (k\<lparr>wphase := Lock\<rparr>))\<lparr>ran := t # ran P\<rparr>)
           | Exit \<Rightarrow> Some (P\<lparr>wmem := (wmem P)(w := None)\<rparr>)))"

text \<open>Waking a waiting worker, which goes on by taking the mutex again.\<close>

definition wake :: "'t nManager \<Rightarrow> nat \<Rightarrow> 't nManager" where
  "wake P w = (case wmem P w of Some k \<Rightarrow> if wphase k = Wait then set_worker P w (k\<lparr>wphase := Lock\<rparr>) else P | None \<Rightarrow> P)"

section \<open>The interface\<close>

text \<open>\<open>m\<close> and \<open>started\<close> are whether there is memory for a worker and whether its thread starts.\<close>

fun create_loop :: "mallocs \<Rightarrow> mallocs \<Rightarrow> nat \<Rightarrow> nat \<Rightarrow> 't nManager \<Rightarrow> 't nManager \<times> int" where
  "create_loop m started i 0 P = (P, 0)"
| "create_loop m started i (Suc n) P =
     (if \<not> m i then (P, -2)
      else if \<not> started i then (P, -3)
      else create_loop m started (Suc i) n ((set_worker P i \<lparr>terminate = False, wphase = Lock\<rparr>)\<lparr>pworkers := i # pworkers P\<rparr>))"

definition nThreadPoolCreate :: "mallocs \<Rightarrow> mallocs \<Rightarrow> int \<Rightarrow> 't nManager \<times> int" where
  "nThreadPoolCreate m started numWorkers =
     (let n = (if numWorkers < 1 then 1 else nat numWorkers) in
      create_loop m started 0 n \<lparr>ptasks = [], pworkers = [], pmutex = None, wmem = Map.empty, pushed = [], ran = []\<rparr>)"

text \<open>
  Pushing a task needs the mutex; the signal wakes the waiting worker \<open>w\<close>, which is the choice of the system, or none if none waits.
\<close>

definition nThreadPoolPushTask :: "'t nManager \<Rightarrow> 't \<Rightarrow> nat option \<Rightarrow> 't nManager option" where
  "nThreadPoolPushTask P t w =
     (if pmutex P \<noteq> None then None
      else let P = P\<lparr>ptasks := t # ptasks P, pushed := t # pushed P\<rparr> in Some (case w of None \<Rightarrow> P | Some w \<Rightarrow> wake P w))"

text \<open>
  Destroying the pool: the flags are set in a walk over the list of workers without the mutex, each worker being read again for
  the next one; then all are woken and the lists are emptied.
\<close>

datatype destroy = Mark "nat list" | Next nat "nat list" | Broadcast | Clear | Destroyed

definition nThreadPoolDestory :: "'t nManager \<Rightarrow> destroy \<Rightarrow> ('t nManager \<times> destroy) option res" where
  "nThreadPoolDestory P d =
     (case d of
        Mark [] \<Rightarrow> Inr (Some (P, Broadcast))
      | Mark (w # ws) \<Rightarrow>
          (case wmem P w of None \<Rightarrow> Inl Segv | Some k \<Rightarrow> Inr (Some (set_worker P w (k\<lparr>terminate := True\<rparr>), Next w ws)))
      | Next w ws \<Rightarrow> (case wmem P w of None \<Rightarrow> Inl Segv | Some k \<Rightarrow> Inr (Some (P, Mark ws)))
      | Broadcast \<Rightarrow> if pmutex P \<noteq> None then Inr None else Inr (Some (foldl wake P (pworkers P), Clear))
      | Clear \<Rightarrow> Inr (Some (P\<lparr>pworkers := [], ptasks := []\<rparr>, Destroyed))
      | Destroyed \<Rightarrow> Inr None)"

section \<open>Runs before the pool is destroyed\<close>

text \<open>The system may also wake a waiting worker without a signal.\<close>

definition waits :: "'t nManager \<Rightarrow> nat \<Rightarrow> bool" where
  "waits P w \<longleftrightarrow> (case wmem P w of Some k \<Rightarrow> wphase k = Wait | None \<Rightarrow> False)"

definition signal_ok :: "'t nManager \<Rightarrow> nat option \<Rightarrow> bool" where
  "signal_ok P w \<longleftrightarrow> (case w of Some w \<Rightarrow> w \<in> set (pworkers P) \<and> waits P w | None \<Rightarrow> \<forall>w \<in> set (pworkers P). \<not> waits P w)"

inductive pool_reach :: "'t nManager \<Rightarrow> bool" where
  create: "nThreadPoolCreate m started n = (P, 0) \<Longrightarrow> pool_reach P"
| work: "pool_reach P \<Longrightarrow> nThreadPoolCallback P w = Some P' \<Longrightarrow> pool_reach P'"
| push: "pool_reach P \<Longrightarrow> signal_ok P w \<Longrightarrow> nThreadPoolPushTask P t w = Some P' \<Longrightarrow> pool_reach P'"
| spurious: "pool_reach P \<Longrightarrow> waits P w \<Longrightarrow> pool_reach (wake P w)"

fun running :: "'t wphase \<Rightarrow> 't multiset" where
  "running (Run t) = {#t#}"
| "running _ = {#}"

definition phase_of :: "'t nManager \<Rightarrow> nat \<Rightarrow> 't wphase" where
  "phase_of P w = (case wmem P w of Some k \<Rightarrow> wphase k | None \<Rightarrow> Exit)"

definition busy :: "'t nManager \<Rightarrow> 't multiset" where
  "busy P = (\<Sum>w \<in> set (pworkers P). running (phase_of P w))"

text \<open>The phases of the workers fit the holder of the mutex.\<close>

definition phases_ok :: "'t nManager \<Rightarrow> bool" where
  "phases_ok P \<longleftrightarrow> (\<forall>w. wmem P w \<noteq> None \<longleftrightarrow> w \<in> set (pworkers P))
     \<and> (\<forall>w k. wmem P w = Some k \<longrightarrow> \<not> terminate k \<and> wphase k \<noteq> Exit \<and> (wphase k = Test \<longleftrightarrow> pmutex P = Some w))
     \<and> (\<forall>w. pmutex P = Some w \<longrightarrow> w \<in> set (pworkers P))"

definition pool_inv :: "'t nManager \<Rightarrow> bool" where
  "pool_inv P \<longleftrightarrow> pworkers P \<noteq> [] \<and> phases_ok P
     \<and> (ptasks P \<noteq> [] \<longrightarrow> (\<exists>w \<in> set (pworkers P). \<not> waits P w))
     \<and> mset (pushed P) = mset (ptasks P) + busy P + mset (ran P)"

lemma set_worker_simps [simp]:
  "ptasks (set_worker P w k) = ptasks P" "pworkers (set_worker P w k) = pworkers P" "pmutex (set_worker P w k) = pmutex P"
  "pushed (set_worker P w k) = pushed P" "ran (set_worker P w k) = ran P" "wmem (set_worker P w k) = (wmem P)(w \<mapsto> k)"
  by (simp_all add: set_worker_def)

lemma waits_phase: "waits P w \<longleftrightarrow> phase_of P w = Wait"
  by (simp add: waits_def phase_of_def split: option.split)

lemma phase_of_upd: "wmem P' = (wmem P)(w \<mapsto> k) \<Longrightarrow> phase_of P' = (phase_of P)(w := wphase k)"
  by (auto simp: phase_of_def fun_eq_iff)

lemma sum_upd:
  fixes f :: "'a \<Rightarrow> 'b :: cancel_comm_monoid_add"
  assumes "finite A" "w \<in> A"
  shows "(\<Sum>x \<in> A. f ((g(w := v)) x)) + f (g w) = (\<Sum>x \<in> A. f (g x)) + f v"
proof -
  have "(\<Sum>x \<in> A. f ((g(w := v)) x)) = f v + (\<Sum>x \<in> A - {w}. f (g x))"
    using assms by (subst sum.remove [of A w]) auto
  moreover have "(\<Sum>x \<in> A. f (g x)) = f (g w) + (\<Sum>x \<in> A - {w}. f (g x))" using assms by (rule sum.remove)
  ultimately show ?thesis by (simp add: add_ac)
qed

lemma busy_upd:
  assumes "wmem P' = (wmem P)(w \<mapsto> k)" "pworkers P' = pworkers P" "w \<in> set (pworkers P)"
  shows "busy P' + running (phase_of P w) = busy P + running (wphase k)"
  using sum_upd [of "set (pworkers P)" w running "phase_of P" "wphase k"] assms by (simp add: busy_def phase_of_upd)

lemma phases_ok_mutex: "phases_ok P \<Longrightarrow> wmem P w = Some k \<Longrightarrow> wphase k = Test \<longleftrightarrow> pmutex P = Some w"
  unfolding phases_ok_def by blast

text \<open>What a worker's step is, from what the phases allow.\<close>

lemma callback_cases [consumes 2, case_names lock rest grab run]:
  assumes ok: "phases_ok P" and step: "nThreadPoolCallback P w = Some P'"
  obtains (lock) k where "wmem P w = Some k" "phase_of P w = Lock" "pmutex P = None" "w \<in> set (pworkers P)"
      "P' = (set_worker P w (k\<lparr>wphase := Test\<rparr>))\<lparr>pmutex := Some w\<rparr>"
  | (rest) k where "wmem P w = Some k" "phase_of P w = Test" "pmutex P = Some w" "w \<in> set (pworkers P)" "ptasks P = []"
      "P' = (set_worker P w (k\<lparr>wphase := Wait\<rparr>))\<lparr>pmutex := None\<rparr>"
  | (grab) k t ts where "wmem P w = Some k" "phase_of P w = Test" "pmutex P = Some w" "w \<in> set (pworkers P)" "ptasks P = t # ts"
      "P' = (set_worker P w (k\<lparr>wphase := Run t\<rparr>))\<lparr>pmutex := None, ptasks := ts\<rparr>"
  | (run) k t where "wmem P w = Some k" "phase_of P w = Run t" "w \<in> set (pworkers P)"
      "P' = (set_worker P w (k\<lparr>wphase := Lock\<rparr>))\<lparr>ran := t # ran P\<rparr>"
proof -
  obtain k where k: "wmem P w = Some k" using step by (auto simp: nThreadPoolCallback_def split: option.splits)
  then have f: "\<not> terminate k" "wphase k \<noteq> Exit" "wphase k = Test \<longleftrightarrow> pmutex P = Some w" "w \<in> set (pworkers P)" "phase_of P w = wphase k"
    using ok unfolding phases_ok_def phase_of_def by auto
  show thesis
    using step k f by (cases "wphase k"; cases "ptasks P") (auto simp: nThreadPoolCallback_def split: if_splits intro: that)
qed

lemma phases_ok_upd:
  assumes "phases_ok P" "w \<in> set (pworkers P)" "\<not> terminate k" "wphase k \<noteq> Exit"
    and "wmem P' = (wmem P)(w \<mapsto> k)" "pworkers P' = pworkers P"
    and "if wphase k = Test then pmutex P' = Some w \<and> (pmutex P = None \<or> pmutex P = Some w) else pmutex P' = (if pmutex P = Some w then None else pmutex P)"
  shows "phases_ok P'"
  using assms unfolding phases_ok_def by (auto split: if_splits)

lemma pool_inv_work:
  assumes i: "pool_inv P" and step: "nThreadPoolCallback P w = Some P'"
  shows "pool_inv P'"
proof -
  have ok: "phases_ok P" and c: "mset (pushed P) = mset (ptasks P) + busy P + mset (ran P)" using i by (auto simp: pool_inv_def)
  have ne: "pworkers P \<noteq> []" using i by (simp add: pool_inv_def)
  have nt: "\<not> terminate k" if "wmem P w = Some k" for k using ok that by (auto simp: phases_ok_def)
  show ?thesis
    using ok step
  proof (cases rule: callback_cases)
    case (lock k)
    have "phases_ok P'" by (rule phases_ok_upd [OF ok, of w "k\<lparr>wphase := Test\<rparr>"]) (use lock nt in auto)
    moreover have "busy P' = busy P" using busy_upd [of P' P w "k\<lparr>wphase := Test\<rparr>"] lock by simp
    moreover have "\<not> waits P' w" using lock by (simp add: waits_def)
    ultimately show ?thesis using c ne lock by (auto simp: pool_inv_def)
  next
    case (rest k)
    have "phases_ok P'" by (rule phases_ok_upd [OF ok, of w "k\<lparr>wphase := Wait\<rparr>"]) (use rest nt in auto)
    moreover have "busy P' = busy P" using busy_upd [of P' P w "k\<lparr>wphase := Wait\<rparr>"] rest by simp
    ultimately show ?thesis using c ne rest by (auto simp: pool_inv_def)
  next
    case (grab k t ts)
    have "phases_ok P'" by (rule phases_ok_upd [OF ok, of w "k\<lparr>wphase := Run t\<rparr>"]) (use grab nt in auto)
    moreover have "busy P' = add_mset t (busy P)" using busy_upd [of P' P w "k\<lparr>wphase := Run t\<rparr>"] grab by simp
    moreover have "\<not> waits P' w" using grab by (simp add: waits_def)
    ultimately show ?thesis using c ne grab by (auto simp: pool_inv_def)
  next
    case (run k t)
    have m: "pmutex P \<noteq> Some w" using phases_ok_mutex [OF ok run(1)] run by (simp add: phase_of_def)
    have "phases_ok P'" by (rule phases_ok_upd [OF ok, of w "k\<lparr>wphase := Lock\<rparr>"]) (use run nt m in auto)
    moreover have "add_mset t (busy P') = busy P" using busy_upd [of P' P w "k\<lparr>wphase := Lock\<rparr>"] run by simp
    moreover have "\<not> waits P' w" using run by (simp add: waits_def)
    ultimately show ?thesis using c ne run by (auto simp: pool_inv_def)
  qed
qed

lemma wake_waits:
  assumes "waits P w"
  obtains k where "wmem P w = Some k" "wphase k = Wait" "wake P w = set_worker P w (k\<lparr>wphase := Lock\<rparr>)"
  using assms that by (auto simp: waits_def wake_def split: option.splits)

lemma pool_inv_wake:
  assumes ok: "phases_ok P" "pworkers P \<noteq> []" and c: "mset (pushed P) = mset (ptasks P) + busy P + mset (ran P)" and w: "waits P w"
  shows "pool_inv (wake P w)"
proof -
  obtain k where k: "wmem P w = Some k" "wphase k = Wait" "wake P w = set_worker P w (k\<lparr>wphase := Lock\<rparr>)" by (rule wake_waits [OF w])
  have f: "\<not> terminate k" "pmutex P \<noteq> Some w" "w \<in> set (pworkers P)" using phases_ok_mutex [OF ok(1) k(1)] ok(1) k(1,2) by (auto simp: phases_ok_def)
  have "phases_ok (wake P w)" by (rule phases_ok_upd [OF ok(1), of w "k\<lparr>wphase := Lock\<rparr>"]) (use k f in auto)
  moreover have "busy (wake P w) = busy P" using busy_upd [of "wake P w" P w "k\<lparr>wphase := Lock\<rparr>"] k f by (simp add: phase_of_def)
  moreover have "\<not> waits (wake P w) w" using k by (simp add: waits_def)
  ultimately show ?thesis using c ok(2) k f by (auto simp: pool_inv_def)
qed

lemma pool_inv_push:
  assumes i: "pool_inv P" and s: "signal_ok P w" "nThreadPoolPushTask P t w = Some P'"
  shows "pool_inv P'"
proof -
  let ?P = "P\<lparr>ptasks := t # ptasks P, pushed := t # pushed P\<rparr>"
  have same: "waits ?P = waits P" "busy ?P = busy P" "phases_ok ?P = phases_ok P"
    by (auto simp: waits_def busy_def phase_of_def phases_ok_def fun_eq_iff)
  have base: "phases_ok ?P" "pworkers ?P \<noteq> []" "mset (pushed ?P) = mset (ptasks ?P) + busy ?P + mset (ran ?P)"
    using i by (simp_all add: same pool_inv_def)
  show ?thesis
  proof (cases w)
    case None
    then have "P' = ?P" "\<forall>w \<in> set (pworkers P). \<not> waits P w" using s by (auto simp: nThreadPoolPushTask_def signal_ok_def Let_def split: if_splits)
    with base show ?thesis by (auto simp: pool_inv_def same intro: last_in_set)
  next
    case (Some v)
    then have "P' = wake ?P v" "waits ?P v" using s by (auto simp: nThreadPoolPushTask_def signal_ok_def same Let_def split: if_splits)
    with pool_inv_wake [OF base] show ?thesis by simp
  qed
qed

lemma create_loop_inv:
  assumes "create_loop m started i n P = (P', 0)" "phases_ok P" "pmutex P = None" "ptasks P = []" "pushed P = []" "ran P = []"
    "\<forall>w \<in> set (pworkers P). phase_of P w = Lock" "\<forall>w \<in> set (pworkers P). w < i"
  shows "phases_ok P' \<and> ptasks P' = [] \<and> pushed P' = [] \<and> ran P' = [] \<and> (\<forall>w \<in> set (pworkers P'). phase_of P' w = Lock)
    \<and> length (pworkers P') = length (pworkers P) + n"
  using assms
proof (induction n arbitrary: i P)
  case (Suc n)
  let ?P = "(set_worker P i \<lparr>terminate = False, wphase = Lock\<rparr>)\<lparr>pworkers := i # pworkers P\<rparr>"
  have "phases_ok ?P" using Suc.prems by (auto simp: phases_ok_def)
  moreover have "\<forall>w \<in> set (pworkers ?P). phase_of ?P w = Lock" using Suc.prems(7) by (auto simp: phase_of_def)
  moreover have "create_loop m started (Suc i) n ?P = (P', 0)" using Suc.prems(1) by (simp split: if_splits)
  ultimately show ?case using Suc.IH [of "Suc i" ?P] Suc.prems by (auto simp: less_Suc_eq)
qed auto

lemma pool_inv_create:
  assumes "nThreadPoolCreate m started n = (P, 0)"
  shows "pool_inv P"
proof -
  let ?n = "if n < 1 then 1 else nat n"
  have "phases_ok P \<and> ptasks P = [] \<and> pushed P = [] \<and> ran P = [] \<and> (\<forall>w \<in> set (pworkers P). phase_of P w = Lock)
    \<and> length (pworkers P) = length ([] :: nat list) + ?n"
    using create_loop_inv [of m started 0 ?n "\<lparr>ptasks = [], pworkers = [], pmutex = None, wmem = Map.empty, pushed = [], ran = []\<rparr>" P]
      assms by (simp add: nThreadPoolCreate_def phases_ok_def Let_def)
  then show ?thesis by (auto simp: pool_inv_def busy_def split: if_splits)
qed

lemma pool_reach_inv: "pool_reach P \<Longrightarrow> pool_inv P"
proof (induction rule: pool_reach.induct)
  case (spurious P w)
  then show ?case using pool_inv_wake by (auto simp: pool_inv_def)
qed (auto intro: pool_inv_create pool_inv_work pool_inv_push)

section \<open>Progress\<close>

text \<open>What is left to do for the tasks that were pushed, in steps of the workers.\<close>

fun weight :: "'t wphase \<Rightarrow> nat" where
  "weight Lock = 2"
| "weight Test = 1"
| "weight Wait = 0"
| "weight (Run t) = 3"
| "weight Exit = 0"

definition work_left :: "'t nManager \<Rightarrow> nat" where
  "work_left P = 3 * length (ptasks P) + (\<Sum>w \<in> set (pworkers P). weight (phase_of P w))"

lemma work_left_upd:
  assumes "wmem P' = (wmem P)(w \<mapsto> k)" "pworkers P' = pworkers P" "w \<in> set (pworkers P)"
  shows "work_left P' + weight (phase_of P w) + 3 * length (ptasks P) = work_left P + weight (wphase k) + 3 * length (ptasks P')"
  using sum_upd [of "set (pworkers P)" w weight "phase_of P" "wphase k"] assms by (simp add: work_left_def phase_of_upd)

lemma work_left_decreases:
  assumes ok: "phases_ok P" and step: "nThreadPoolCallback P w = Some P'"
  shows "work_left P' < work_left P"
  using ok step
proof (cases rule: callback_cases)
  case (lock k)
  then show ?thesis using work_left_upd [of P' P w "k\<lparr>wphase := Test\<rparr>"] by simp
next
  case (rest k)
  then show ?thesis using work_left_upd [of P' P w "k\<lparr>wphase := Wait\<rparr>"] by simp
next
  case (grab k t ts)
  then show ?thesis using work_left_upd [of P' P w "k\<lparr>wphase := Run t\<rparr>"] by simp
next
  case (run k t)
  then show ?thesis using work_left_upd [of P' P w "k\<lparr>wphase := Lock\<rparr>"] by simp
qed

lemma idle_waits:
  assumes i: "pool_inv P" and idle: "\<forall>w. nThreadPoolCallback P w = None"
  shows "ptasks P = [] \<and> busy P = {#}"
proof -
  have ok: "phases_ok P" using i by (simp add: pool_inv_def)
  have w: "phase_of P w = Wait" if "w \<in> set (pworkers P)" for w
  proof -
    obtain k where k: "wmem P w = Some k" using ok \<open>w \<in> _\<close> unfolding phases_ok_def by blast
    have "pmutex P = None"
    proof (rule ccontr)
      assume "pmutex P \<noteq> None"
      then obtain v where v: "pmutex P = Some v" by auto
      then obtain l where "wmem P v = Some l" "wphase l = Test" using ok unfolding phases_ok_def by (metis not_None_eq)
      then have "nThreadPoolCallback P v \<noteq> None" by (auto simp: nThreadPoolCallback_def split: list.split)
      with idle show False by simp
    qed
    with idle k ok show ?thesis
      by (cases "wphase k") (auto simp: nThreadPoolCallback_def phase_of_def phases_ok_def dest!: spec [of _ w])
  qed
  have "ptasks P = []" using i w by (auto simp: pool_inv_def waits_phase)
  moreover have "busy P = {#}" using w by (simp add: busy_def)
  ultimately show ?thesis by simp
qed

text \<open>A sequence of steps of workers, and the states it passes through.\<close>

fun work_run :: "'t nManager \<Rightarrow> nat list \<Rightarrow> 't nManager option" where
  "work_run P [] = Some P"
| "work_run P (w # ws) = (case nThreadPoolCallback P w of None \<Rightarrow> None | Some P' \<Rightarrow> work_run P' ws)"

lemma work_run_inv:
  assumes "pool_inv P" "work_run P ws = Some P'"
  shows "pool_inv P' \<and> length ws + work_left P' \<le> work_left P \<and> pushed P' = pushed P"
  using assms
proof (induction ws arbitrary: P)
  case (Cons w ws)
  then obtain Q where Q: "nThreadPoolCallback P w = Some Q" "work_run Q ws = Some P'" by (auto split: option.splits)
  have ok: "phases_ok P" using Cons.prems(1) by (simp add: pool_inv_def)
  have "pushed Q = pushed P" using ok Q(1) by (cases rule: callback_cases) auto
  with Cons.IH [OF pool_inv_work [OF Cons.prems(1) Q(1)] Q(2)] work_left_decreases [OF ok Q(1)] show ?case by auto
qed simp

section \<open>Properties\<close>

text \<open>
  C8: in every state the pool reaches before it is destroyed, every task that was pushed is either still in the list, or with
  exactly one worker that has taken it, or was run once: none is lost and none is run twice, and no worker leaves.
\<close>

theorem threadpool_exactly_once:
  assumes "pool_reach P"
  shows "mset (pushed P) = mset (ptasks P) + (\<Sum>w \<in> set (pworkers P). running (phase_of P w)) + mset (ran P)
    \<and> (\<forall>w \<in> set (pworkers P). wmem P w \<noteq> None)"
  using pool_reach_inv [OF assms] by (auto simp: pool_inv_def busy_def phases_ok_def)

text \<open>
  C7: no wake-up is lost and the workers never block each other for good: from any state the pool reaches, the workers alone, in whatever order
  they are scheduled, can make only a bounded number of steps, and when none can make a step any more every task that was pushed has been run.
\<close>

theorem threadpool_progress:
  assumes "pool_reach P" "work_run P ws = Some P'"
  shows "length ws \<le> work_left P \<and> ((\<forall>w. nThreadPoolCallback P' w = None) \<longrightarrow> mset (ran P') = mset (pushed P) \<and> ptasks P' = [])"
proof -
  note r = work_run_inv [OF pool_reach_inv [OF assms(1)] assms(2)]
  then have "mset (pushed P') = mset (ptasks P') + busy P' + mset (ran P')" unfolding pool_inv_def by blast
  with r idle_waits [of P'] show ?thesis by auto
qed

definition demo_pool :: "nat nManager" where
  "demo_pool = \<lparr>ptasks = [], pworkers = [0], pmutex = None, wmem = [0 \<mapsto> \<lparr>terminate = False, wphase = Lock\<rparr>], pushed = [], ran = []\<rparr>"

lemma demo_pool_reach: "pool_reach demo_pool"
  by (rule pool_reach.create [of malloc_ok malloc_ok 1])
    (simp add: nThreadPoolCreate_def demo_pool_def malloc_ok_def set_worker_def)

definition demo_pushed :: "nat nManager" where
  "demo_pushed = demo_pool\<lparr>ptasks := [7], pushed := [7]\<rparr>"

lemma demo_pushed_reach: "pool_reach demo_pushed"
  by (rule pool_reach.push [OF demo_pool_reach, of None 7])
    (simp_all add: signal_ok_def demo_pool_def waits_def nThreadPoolPushTask_def demo_pushed_def)

theorem threadpool_exactly_once_witness:
  "pool_reach demo_pushed \<and> mset (pushed demo_pushed) = mset (ptasks demo_pushed) \<and> wmem demo_pushed 0 \<noteq> None"
  using threadpool_exactly_once [OF demo_pushed_reach] demo_pushed_reach by (simp add: demo_pushed_def demo_pool_def)

theorem threadpool_progress_witness:
  "\<exists>P'. work_run demo_pushed [0, 0, 0, 0, 0] = Some P' \<and> (\<forall>w. nThreadPoolCallback P' w = None) \<and> ran P' = [7]"
proof -
  define P' where "P' = demo_pool\<lparr>ran := [7], pushed := [7], wmem := [0 \<mapsto> \<lparr>terminate = False, wphase = Wait\<rparr>]\<rparr>"
  have run: "work_run demo_pushed [0, 0, 0, 0, 0] = Some P'"
    by (simp add: nThreadPoolCallback_def demo_pushed_def demo_pool_def set_worker_def P'_def)
  have idle: "\<forall>w. nThreadPoolCallback P' w = None" by (simp add: nThreadPoolCallback_def P'_def)
  from threadpool_progress [OF demo_pushed_reach run] idle have "mset (ran P') = {#7#}" by (simp add: demo_pushed_def)
  with run idle show ?thesis by auto
qed

text \<open>
  Destroying a pool reads a worker for the next one after its flag was set; a worker that sees the flag in between frees
  itself, and the read is one of freed memory.
\<close>

lemma destroy_use_after_free:
  "\<exists>P1 P2. nThreadPoolDestory demo_pool (Mark [0]) = Inr (Some (P1, Next 0 [])) \<and> work_run P1 [0, 0, 0] = Some P2
    \<and> nThreadPoolDestory P2 (Next 0 []) = Inl Segv"
  by (simp add: nThreadPoolDestory_def demo_pool_def nThreadPoolCallback_def set_worker_def)

end
