(* ===== verification/Spec2Isabelle.thy ===== *)
theory Spec2Isabelle
  imports Kvs_Protocol_Props Kvs_Skiptable Reactor Proactor Ustack_Inv Ustack_Tcp_Props Ustack_Props Contacts_Props Contacts_Flat Websocket Word_Count Dns Dns_Async Threadpool
begin

text \<open>
  A verification of the programs of this repository: a key-value store with three engines, a skip list beside them and two network layers
  (\<^verbatim>\<open>src/12_1\<close>), a user-space TCP/IP stack on DPDK (\<^verbatim>\<open>src/02/2.4_dpdk/ustack\<close>), the WebSocket layer of an HTTP server
  (\<^verbatim>\<open>src/02/2.1network/2.1.3 http-server\<close>), and the smaller programs of \<^verbatim>\<open>src/00\<close>: an address book, a thread pool, a DNS resolver
  and two word counters. The programs are independent of each other; inside the store, the stack and the server the
  parts call each other as described below.

  \<^bold>\<open>How C is modelled.\<close> A function becomes a definition that takes the state it works on and returns it changed, with
  the C return value beside it. Its type is \<open>'a res\<close> (theory \<open>C_Prelude\<close>): \<open>Inl\<close> of a \<open>fault\<close> when the C function
  does not return (a bad pointer, an access out of bounds, a failed assertion, an exit), \<open>Inr\<close> otherwise; \<open>andthen\<close>
  sequences. Pointers are addresses in an explicit heap wherever links are changed (the tree, the skip list, the address book), NULL being
  0 or the sentinel; a \<^verbatim>\<open>char *\<close> of the store is \<open>Null\<close>, \<open>Wild\<close> or a string. Whether allocations succeed is an argument of
  type \<open>mallocs\<close>, and so is what uninitialised memory holds. System calls, user input and files are arguments too. Packets and frames are lists of 8 bit words
  (theory \<open>C_Words\<close>), and sequence numbers, ports and addresses keep their width. Loops are recursive functions with a
  termination proof; the loops over linked structures take as much fuel as there are addresses, which the invariants show to be
  enough, so that \<open>NoFuel\<close> never occurs in a well-formed state. Threads are steps of a relation, an atomic step being what
  a thread does between two points where another can interfere.

  \<^bold>\<open>Key-value store.\<close>
  \<^item> \<open>Kvs_Array\<close> is \<^verbatim>\<open>kvs_array.c\<close>: a table of 1024 slots. Without holes it is a dictionary; the theorems show
    that every operation but deletion keeps the invariant and which entry a deletion in the middle hides.
  \<^item> \<open>Kvs_Hash\<close> is \<^verbatim>\<open>kvs_hash.c\<close>: chains of nodes. It is a dictionary with deletion for the keys whose byte sum is not
    negative, its counter is right, and other keys lead out of the table.
  \<^item> \<open>Kvs_Rbtree\<close> is \<^verbatim>\<open>kvs_rbtree.c\<close> on a heap with parent links and a sentinel. \<open>Kvs_Rbtree_Rep\<close> relates heaps to trees
    and zippers, \<open>Kvs_Rbtree_Insert\<close> refines the fix-up loop by one on zippers, \<open>Kvs_Rbtree_Engine\<close> and
    \<open>Kvs_Rbtree_Delete\<close> treat the operations, \<open>Kvs_Rbtree_Props\<close> has the properties: a dictionary that stays a balanced
    red-black tree; deletion is right in some cases and follows an unset pointer in the others.
  \<^item> \<open>Kvs_Protocol\<close> is \<^verbatim>\<open>kvstore.c\<close>: splitting a request, the fifteen commands, their answers. The three engines
    meet it through the locales \<open>kv_engine\<close> and \<open>kv_engine_del\<close> of \<open>C_Prelude\<close>, interpreted in the theory of each engine.
    \<open>Kvs_Protocol_Props\<close>: a conversation is answered as three abstract dictionaries answer it.
  \<^item> \<open>Kvs_Skiptable\<close> is \<^verbatim>\<open>kvs_skiptable.c\<close>, a skip list the store does not use yet, with the bits of \<^verbatim>\<open>rand\<close> as an argument:
    every session is answered as a finite map answers it, and the levels are subsequences of the sorted keys.
  \<^item> \<open>Reactor\<close> is \<^verbatim>\<open>reactor.c\<close> and \<^verbatim>\<open>server.h\<close>: the connection table and the callbacks of the epoll loop. The
    handler is a parameter with the contract of the locale \<open>handler\<close>, interpreted by the protocol. Reachable states: no fault, and requests
    are served in order, each answered before the next is read.
  \<^item> \<open>Proactor\<close> is \<^verbatim>\<open>proactor.c\<close>: the same on io_uring, the completions of the kernel being steps of the environment. The
    locale \<open>buf_handler\<close> extends \<open>handler\<close> by what \<^verbatim>\<open>strtok\<close> does to the buffer. One client at a time is served in order; the
    submission queue never overflows; requests of two clients at a time are mixed up in the shared buffer.

  \<^bold>\<open>User-space stack.\<close> All of \<^verbatim>\<open>tcp.c\<close> and \<^verbatim>\<open>arp.h\<close> but the start-up of DPDK.
  \<^item> \<open>Ustack_Packet\<close>: packet formats, checksum, encoders. \<^verbatim>\<open>rte_ipv4_cksum\<close> and \<^verbatim>\<open>rte_ipv4_udptcp_cksum\<close>
    are parameters, of which the properties need no law.
  \<^item> \<open>Ustack_Socket\<close>: descriptor bitmap, ARP table, socket calls, UDP. The rings of DPDK are a parameter, with
    the hypothesis \<open>fifo\<close>: a bounded queue, first in first out.
  \<^item> \<open>Ustack_Tcp\<close>: the TCP state machine, output, dispatch of packets, ARP timer, echo server.
  \<^item> \<open>Ustack_Demo\<close> instantiates the parameters for the witnesses; \<open>Ustack_Inv\<close>, \<open>Ustack_Tcp_Props\<close> and \<open>Ustack_Props\<close> have the
    properties: handshake, data in order, passive close, round trip of segments, one control block per connection in every run,
    and where reads and descriptors go wrong.

  \<^bold>\<open>WebSocket.\<close> \<open>Websocket\<close> is \<^verbatim>\<open>websocket.c\<close>: handshake, frames, callbacks; SHA1 and Base64 are parameters. Echo of frames in the layout
  the code has, the answer to a handshake, and how standard frames are misread.

  \<^bold>\<open>Programs of src/00.\<close>
  \<^item> \<open>Contacts\<close> is \<^verbatim>\<open>Contacts_task.c\<close>, \<open>Contacts_Rep\<close> its doubly linked lists, \<open>Contacts_Props\<close> the refinement to 26 sorted
    lists, sessions with the menu, and saving and loading; \<open>Contacts_Flat\<close> is the first version, \<^verbatim>\<open>Contacts.c\<close>.
  \<^item> \<open>Threadpool\<close> is \<^verbatim>\<open>Threadpool.c\<close>: every task runs exactly once, and no wake-up is lost.
  \<^item> \<open>Dns\<close> is the query of \<^verbatim>\<open>dns.c\<close>, checked against RFC 1035; \<open>Dns_Async\<close> the tasks and threads of \<^verbatim>\<open>dns_async.c\<close>.
  \<^item> \<open>Word_Count\<close> is \<^verbatim>\<open>count.c\<close> and \<^verbatim>\<open>count_each_word.c\<close> with the list of words as the reference.

  \<^bold>\<open>Not modelled.\<close> The coroutine library NtyCo under \<^verbatim>\<open>src/12_1/NtyCo\<close> is vendored and switches contexts in assembly; with it the
  server \<^verbatim>\<open>ntyco.c\<close>. The connection pool \<^verbatim>\<open>mysql_connectPool.c\<close> does not compile. The event loop of the
  HTTP server and the echo servers of \<^verbatim>\<open>src/02/2.5_iouring\<close>, \<^verbatim>\<open>src/00/08_TCP\<close> and \<^verbatim>\<open>src/00/09_cont\<close> repeat the loops of the store;
  earlier versions of the stack and of the WebSocket layer are superseded by the ones modelled. The experiments of
  \<^verbatim>\<open>src/02/2.3 coroutine\<close> and \<^verbatim>\<open>lock.c\<close> consist of platform facilities. Start-up code that only makes system
  calls, and printing, are left out everywhere.
\<close>

end
